(* ===== verification/Prelude.thy ===== *)
theory Prelude
  imports Main "HOL-Library.Word" "HOL-Library.Monad_Syntax"
begin

text \<open>
  Shared vocabulary of the development: the fixed-width integers of the C++ sources, byte and
  wide-character strings, array reads and block copies with their bounds made explicit, and the
  list and word lemmas that more than one component uses.

  A raw pointer access is modelled by an \<^typ>\<open>'a option\<close>: \<^theory_text>\<open>None\<close> is an access outside
  the allocated object, which C++ leaves undefined.  A Windows \<open>DWORD\<close>/\<open>UINT\<close> is a 32-bit
  word, a \<open>WORD\<close> and a Windows \<open>wchar_t\<close> are 16-bit words, a \<open>BYTE\<close> an 8-bit word.
\<close>

type_synonym byte = "8 word"
type_synonym u16 = "16 word"
type_synonym u32 = "32 word"
type_synonym u64 = "64 word"

named_theorems bytes_simps "reading and assembling byte arrays"
named_theorems bound_intros "bounds on machine values"

section \<open>Arrays\<close>

text \<open>\<open>rd a i\<close> is \<open>a[i]\<close> for an index that the code computes, \<open>None\<close> outside the array.\<close>

definition rd :: "'a list \<Rightarrow> int \<Rightarrow> 'a option" where
  "rd a i = (if 0 \<le> i \<and> i < int (length a) then Some (a ! nat i) else None)"

text \<open>\<open>wr a i v\<close> is the array after \<open>a[i] = v\<close>.\<close>

definition wr :: "'a list \<Rightarrow> int \<Rightarrow> 'a \<Rightarrow> 'a list option" where
  "wr a i v = (if 0 \<le> i \<and> i < int (length a) then Some (a[nat i := v]) else None)"

text \<open>\<open>slice i n a\<close> are the \<open>n\<close> elements from index \<open>i\<close>.\<close>

definition slice :: "nat \<Rightarrow> nat \<Rightarrow> 'a list \<Rightarrow> 'a list" where
  "slice i n a = take n (drop i a)"

text \<open>\<open>blit a i b\<close> is \<open>memcpy(a + i, b, length b)\<close> inside the array \<open>a\<close>.\<close>

definition blit :: "'a list \<Rightarrow> nat \<Rightarrow> 'a list \<Rightarrow> 'a list" where
  "blit a i b = take i a @ b @ drop (i + length b) a"

lemma rd_Some [simp]: "i < length a \<Longrightarrow> rd a (int i) = Some (a ! i)"
  by (simp add: rd_def)

lemma rd_SomeI: "0 \<le> i \<Longrightarrow> i < int (length a) \<Longrightarrow> rd a i = Some (a ! nat i)"
  by (simp add: rd_def)

lemma rd_drop: "rd p (int (k + i)) = rd (drop k p) (int i)"
  by (auto simp: rd_def nat_add_distrib)

lemma rd_at: "rd p (int i + int k) = rd (drop i p) (int k)"
  using rd_drop [of p i k] by simp

lemma rd_None_iff [simp]: "rd a i = None \<longleftrightarrow> i < 0 \<or> int (length a) \<le> i"
  by (auto simp: rd_def)

lemma rd_eq_Some_iff: "rd a i = Some v \<longleftrightarrow> 0 \<le> i \<and> i < int (length a) \<and> v = a ! nat i"
  by (auto simp: rd_def)

lemma wr_eq_Some_iff: "wr a i v = Some b \<longleftrightarrow> 0 \<le> i \<and> i < int (length a) \<and> b = a[nat i := v]"
  by (auto simp: wr_def)

lemma length_slice [simp]: "length (slice i n a) = min n (length a - i)"
  by (simp add: slice_def)

lemma slice_nth: "k < n \<Longrightarrow> i + k < length a \<Longrightarrow> slice i n a ! k = a ! (i + k)"
  by (simp add: slice_def)

lemma slice_0 [simp]: "slice i 0 a = []"
  by (simp add: slice_def)

lemma slice_append_slice:
  "slice i n a @ slice (i + n) m a = slice i (n + m) a"
  by (simp add: slice_def take_add add.commute [of i n])

lemma length_blit [simp]: "i + length b \<le> length a \<Longrightarrow> length (blit a i b) = length a"
  by (simp add: blit_def)

lemma blit_nth:
  assumes "i + length b \<le> length a" "k < length a"
  shows "blit a i b ! k = (if i \<le> k \<and> k < i + length b then b ! (k - i) else a ! k)"
  using assms by (auto simp: blit_def nth_append min_def)

lemma blit_slice_same: "i + length b \<le> length a \<Longrightarrow> slice i (length b) (blit a i b) = b"
  by (simp add: slice_def blit_def)

lemma nth_blit_outside:
  "i + length b \<le> length a \<Longrightarrow> k < length a \<Longrightarrow> k < i \<or> i + length b \<le> k \<Longrightarrow>
   blit a i b ! k = a ! k"
  by (auto simp: blit_nth)

lemma blit_append: "blit a (length a) b = a @ b"
  by (simp add: blit_def)

section \<open>Machine integers\<close>

text \<open>The value of a 32-bit pattern read as a C \<open>int\<close>, and an \<open>int\<close> result wrapped to 32 bits.\<close>

definition wrap32 :: "int \<Rightarrow> int" where
  "wrap32 x = (x + 2 ^ 31) mod 2 ^ 32 - 2 ^ 31"

lemma wrap32_id: "- (2 ^ 31) \<le> x \<Longrightarrow> x < 2 ^ 31 \<Longrightarrow> wrap32 x = x"
  by (simp add: wrap32_def)

lemma wrap32_range [bound_intros]: "- (2 ^ 31) \<le> wrap32 x" "wrap32 x < 2 ^ 31"
  by (simp_all add: wrap32_def)

text \<open>C division and remainder truncate towards zero.\<close>

definition cdiv :: "int \<Rightarrow> int \<Rightarrow> int" where
  "cdiv a b = sgn a * sgn b * (\<bar>a\<bar> div \<bar>b\<bar>)"

definition cmod :: "int \<Rightarrow> int \<Rightarrow> int" where
  "cmod a b = a - cdiv a b * b"

lemma cdiv_nonneg [simp]: "0 \<le> a \<Longrightarrow> 0 < b \<Longrightarrow> cdiv a b = a div b"
  by (cases "a = 0") (auto simp: cdiv_def sgn_if)

lemma cmod_nonneg [simp]: "0 \<le> a \<Longrightarrow> 0 < b \<Longrightarrow> cmod a b = a mod b"
  by (simp add: cmod_def minus_div_mult_eq_mod)

text \<open>The results of the interfaces that report them.\<close>

datatype hresult = S_OK | S_FALSE | E_FAIL | E_POINTER | E_INVALIDARG | E_UNEXPECTED | E_NOTIMPL | VFW_S_NO_MORE_ITEMS

section \<open>Big-endian and little-endian reads\<close>

definition be16 :: "byte \<Rightarrow> byte \<Rightarrow> int" where
  "be16 a b = uint a * 256 + uint b"

definition be32 :: "byte \<Rightarrow> byte \<Rightarrow> byte \<Rightarrow> byte \<Rightarrow> int" where
  "be32 a b c d = ((uint a * 256 + uint b) * 256 + uint c) * 256 + uint d"

lemma byte_range [bound_intros]: "0 \<le> uint (b :: byte)" "uint (b :: byte) < 256"
  using uint_lt2p [of b] by simp_all

lemma be16_range [bound_intros]: "0 \<le> be16 a b" "be16 a b < 65536"
  using byte_range [of a] byte_range [of b] by (simp_all add: be16_def)

lemma be32_range [bound_intros]: "0 \<le> be32 a b c d" "be32 a b c d < 4294967296"
  using byte_range [of a] byte_range [of b] byte_range [of c] byte_range [of d]
  by (simp_all add: be32_def)

lemma be16_split [bytes_simps]:
  "0 \<le> n \<Longrightarrow> n < 65536 \<Longrightarrow> be16 (word_of_int (n div 256)) (word_of_int n) = n"
  by (simp add: be16_def uint_word_of_int take_bit_eq_mod)

lemma rd_tail: "rd (x # xs) 0 = Some x" "rd (x # y # xs) 1 = Some y" "rd (x # y # z # xs) 2 = Some z"
  "rd (x # y # z # u # xs) 3 = Some u"
  by (simp_all add: rd_def)

text \<open>The big-endian bytes of a number.\<close>

definition w16 :: "int \<Rightarrow> byte list" where
  "w16 n = [word_of_int (n div 256), word_of_int n]"

definition w32 :: "int \<Rightarrow> byte list" where
  "w32 n = [word_of_int (n div 16777216), word_of_int (n div 65536), word_of_int (n div 256), word_of_int n]"

lemma length_w16 [simp]: "length (w16 n) = 2" "length (w32 n) = 4"
  by (simp_all add: w16_def w32_def)

lemma be32_split:
  assumes "0 \<le> n" "n < 2 ^ 32"
  obtains a b c d where "w32 n = [a, b, c, d]" "be32 a b c d = n"
proof
  have "n div 16777216 = n div 256 div 256 div 256" "n div 65536 = n div 256 div 256"
    by (simp_all add: zdiv_zmult2_eq [symmetric])
  moreover have "n div 16777216 mod 256 = n div 16777216"
    using assms by (intro mod_pos_pos_trivial) auto
  ultimately show "be32 (word_of_int (n div 16777216)) (word_of_int (n div 65536)) (word_of_int (n div 256))
      (word_of_int n) = n"
    using div_mult_mod_eq [of n 256] div_mult_mod_eq [of "n div 256" 256] div_mult_mod_eq [of "n div 256 div 256" 256]
    by (simp add: be32_def uint_word_of_int take_bit_eq_mod)
qed (simp add: w32_def)

lemma w16_split:
  assumes "n < 65536"
  obtains a b where "w16 (int n) = [a, b]" "be16 a b = int n"
  using be16_split [of "int n"] assms by (auto simp: w16_def)

section \<open>Wide strings\<close>

text \<open>
  A \<open>wchar_t\<close> string without its terminator.  \<open>wlit\<close> gives the wide string of a literal.
\<close>

type_synonym wstr = "u16 list"

definition wlit :: "string \<Rightarrow> wstr" where
  "wlit s = map of_char s"

lemma length_wlit [simp]: "length (wlit s) = length s"
  by (simp add: wlit_def)

end
