(* ===== verification/ThreadPool.thy ===== *)
theory ThreadPool
  imports Prelude "HOL-Library.Multiset"
begin

text \<open>
  Threads: the thread pool (\<open>dwindow/runnable.cpp\<close>) and the command queue (\<open>dwindow/command_queue.cpp\<close>).
  Sections under the lock, waits and calls of the task are the atomic steps; what a thread does between
  two of them touches nothing shared.  A worker is the place in \<open>worker_thread\<close> where it is; the pool
  keeps lists of what became of the tasks beside the code's members, which no operation reads.
\<close>

section \<open>The pool\<close>

text \<open>
  \<open>Looking\<close> is before the lock at the head of the loop, \<open>Waiting\<close> in \<open>WaitForMultipleObjects\<close>, \<open>Ran\<close> behind
  \<open>run\<close>, \<open>Removed\<close> before \<open>delete task\<close>.
\<close>

datatype 'a thread = Looking | Waiting | Running 'a | Ran 'a | Removed 'a | Exited

text \<open>Where the thread in \<open>destroy\<close> is: behind its lock, behind \<open>SetEvent\<close>, behind the wait.\<close>

datatype destroyer = Not_called | Unlocked | Joining | Done

record 'a thread_pool =
  tp_tasks :: "'a list"
  tp_running_tasks :: "'a list"
  tp_task_event :: bool
  tp_quit_event :: bool
  tp_destroyed :: bool
  tp_threads :: "'a thread list"
  tp_destroyer :: destroyer
  tp_submitters :: nat
  tp_accepted :: "'a list"
  tp_rejected :: "'a list"
  tp_started :: "'a list"
  tp_deleted :: "'a list"
  tp_dropped :: "'a list"
  tp_signalled :: "'a list"

definition new_pool :: "nat \<Rightarrow> 'a thread_pool" where
  "new_pool n = \<lparr>tp_tasks = [], tp_running_tasks = [], tp_task_event = False, tp_quit_event = False,
     tp_destroyed = False, tp_threads = replicate n Looking, tp_destroyer = Not_called, tp_submitters = 0,
     tp_accepted = [], tp_rejected = [], tp_started = [], tp_deleted = [], tp_dropped = [], tp_signalled = []\<rparr>"

text \<open>
  One step of \<open>worker_thread\<close>; \<^theory_text>\<open>None\<close> when it is blocked or has returned.  The task event resets
  itself and, as the first of the two, wins over the quit event.
\<close>

fun thread_act :: "'a thread \<Rightarrow> 'a thread_pool \<Rightarrow> ('a thread \<times> 'a thread_pool) option" where
  "thread_act Looking p =
     (case tp_tasks p of
        [] \<Rightarrow> Some (Waiting, p)
      | t # ts \<Rightarrow> Some (Running t, p\<lparr>tp_tasks := ts, tp_running_tasks := tp_running_tasks p @ [t],
                                    tp_started := tp_started p @ [t]\<rparr>))"
| "thread_act Waiting p =
     (if tp_task_event p then Some (Looking, p\<lparr>tp_task_event := False\<rparr>)
      else if tp_quit_event p then Some (Exited, p) else None)"
| "thread_act (Running t) p = Some (Ran t, p)"
| "thread_act (Ran t) p = Some (Removed t, p\<lparr>tp_running_tasks := removeAll t (tp_running_tasks p)\<rparr>)"
| "thread_act (Removed t) p = Some (Looking, p\<lparr>tp_deleted := tp_deleted p @ [t]\<rparr>)"
| "thread_act Exited p = None"

definition worker_act :: "nat \<Rightarrow> 'a thread_pool \<Rightarrow> 'a thread_pool option" where
  "worker_act i p =
     (if i < length (tp_threads p)
      then map_option (\<lambda>(w, p). p\<lparr>tp_threads := (tp_threads p)[i := w]\<rparr>) (thread_act (tp_threads p ! i) p)
      else None)"

text \<open>\<open>submmit\<close>: the section under the lock, then \<open>SetEvent\<close>.  A pool that is destroyed keeps no task.\<close>

definition submmit_lock :: "'a \<Rightarrow> 'a thread_pool \<Rightarrow> 'a thread_pool" where
  "submmit_lock t p =
     (let p = p\<lparr>tp_submitters := tp_submitters p + 1\<rparr>
      in if tp_destroyed p then p\<lparr>tp_rejected := tp_rejected p @ [t]\<rparr>
         else p\<lparr>tp_tasks := tp_tasks p @ [t], tp_accepted := tp_accepted p @ [t]\<rparr>)"

definition submmit_event :: "'a thread_pool \<Rightarrow> 'a thread_pool" where
  "submmit_event p = p\<lparr>tp_submitters := tp_submitters p - 1, tp_task_event := True\<rparr>"

text \<open>\<open>destroy\<close>: queued tasks are told to quit and deleted, running ones are told to quit.\<close>

definition destroy_lock :: "'a thread_pool \<Rightarrow> 'a thread_pool" where
  "destroy_lock p = p\<lparr>tp_destroyed := True, tp_tasks := [], tp_dropped := tp_dropped p @ tp_tasks p,
     tp_signalled := tp_signalled p @ tp_tasks p @ tp_running_tasks p, tp_destroyer := Unlocked\<rparr>"

definition destroy_event :: "'a thread_pool \<Rightarrow> 'a thread_pool" where
  "destroy_event p = p\<lparr>tp_quit_event := True, tp_destroyer := Joining\<rparr>"

text \<open>\<open>WaitForMultipleObjects\<close> fails at once when there are more than 64 handles.\<close>

definition destroy_returns :: "'a thread_pool \<Rightarrow> bool" where
  "destroy_returns p \<longleftrightarrow> length (tp_threads p) > 64 \<or> list_all (\<lambda>w. case w of Exited \<Rightarrow> True | _ \<Rightarrow> False) (tp_threads p)"

text \<open>
  All the threads together.  A task that is submitted is a new object.  Nobody calls \<open>submmit\<close> behind the
  end of \<open>destroy\<close>, nor \<open>destroy\<close> twice (the second would delete the array of threads again).
\<close>

inductive pool_step :: "'a thread_pool \<Rightarrow> 'a thread_pool \<Rightarrow> bool" where
  worker: "worker_act i p = Some p' \<Longrightarrow> pool_step p p'"
| submit: "tp_destroyer p \<noteq> Done \<Longrightarrow> t \<notin> set (tp_accepted p @ tp_rejected p) \<Longrightarrow> pool_step p (submmit_lock t p)"
| set_event: "tp_submitters p > 0 \<Longrightarrow> pool_step p (submmit_event p)"
| destroy: "tp_destroyer p = Not_called \<Longrightarrow> pool_step p (destroy_lock p)"
| quit: "tp_destroyer p = Unlocked \<Longrightarrow> pool_step p (destroy_event p)"
| return: "tp_destroyer p = Joining \<Longrightarrow> destroy_returns p \<Longrightarrow> pool_step p (p\<lparr>tp_destroyer := Done\<rparr>)"

inductive_cases pool_stepE: "pool_step p p'"

inductive pool_reach :: "nat \<Rightarrow> 'a thread_pool \<Rightarrow> bool" for n where
  start: "pool_reach n (new_pool n)"
| step: "pool_reach n p \<Longrightarrow> pool_step p p' \<Longrightarrow> pool_reach n p'"

section \<open>Invariant\<close>

fun held :: "'a thread \<Rightarrow> 'a list" where
  "held (Running t) = [t]"
| "held (Ran t) = [t]"
| "held (Removed t) = [t]"
| "held _ = []"

fun listed :: "'a thread \<Rightarrow> 'a list" where
  "listed (Running t) = [t]"
| "listed (Ran t) = [t]"
| "listed _ = []"

fun awake :: "'a thread \<Rightarrow> bool" where
  "awake Waiting = False"
| "awake Exited = False"
| "awake _ = True"

text \<open>The tasks that the workers hold.\<close>

definition held_tasks :: "'a thread_pool \<Rightarrow> 'a list" where
  "held_tasks p = concat (map held (tp_threads p))"

definition order_ok :: "'a thread_pool \<Rightarrow> bool" where
  "order_ok p \<longleftrightarrow> tp_accepted p = tp_started p @ tp_dropped p @ tp_tasks p \<and>
     (if tp_destroyed p then tp_tasks p = [] else tp_dropped p = []) \<and> distinct (tp_accepted p @ tp_rejected p)"

definition owners_ok :: "'a thread_pool \<Rightarrow> bool" where
  "owners_ok p \<longleftrightarrow> mset (tp_started p) = mset (tp_deleted p) + mset (held_tasks p) \<and>
     mset (tp_running_tasks p) = mset (concat (map listed (tp_threads p)))"

text \<open>A queued task has an event that is set, or will be, or a worker that will look at the queue.\<close>

definition wakeup_ok :: "'a thread_pool \<Rightarrow> bool" where
  "wakeup_ok p \<longleftrightarrow> (tp_tasks p \<noteq> [] \<longrightarrow> tp_task_event p \<or> tp_submitters p > 0 \<or> list_ex awake (tp_threads p))"

definition quit_ok :: "'a thread_pool \<Rightarrow> bool" where
  "quit_ok p \<longleftrightarrow> (tp_destroyed p \<longleftrightarrow> tp_destroyer p \<noteq> Not_called) \<and>
     (tp_quit_event p \<longleftrightarrow> tp_destroyer p = Joining \<or> tp_destroyer p = Done) \<and>
     (Exited \<in> set (tp_threads p) \<longrightarrow> tp_quit_event p)"

lemma mset_concat_update:
  "i < length ws \<Longrightarrow>
   mset (concat (map f (ws[i := w]))) + mset (f (ws ! i)) = mset (concat (map f ws)) + mset (f w)"
  by (induction ws arbitrary: i) (auto split: nat.split)

lemma list_ex_update:
  "i < length ws \<Longrightarrow> P w \<Longrightarrow> list_ex P (ws[i := w])"
  "list_ex P ws \<Longrightarrow> \<not> P (ws ! i) \<Longrightarrow> list_ex P (ws[i := w])"
  unfolding list_ex_length by (force simp: nth_list_update) (metis length_list_update nth_list_update_neq)

lemma mset_removeAll: "count (mset xs) x = 1 \<Longrightarrow> mset (removeAll x xs) + {#x#} = mset xs"
  by (induction xs) (auto split: if_splits simp: removeAll_id count_eq_zero_iff)

lemma worker_actE:
  assumes "worker_act i p = Some p'"
  obtains w q where "i < length (tp_threads p)" "thread_act (tp_threads p ! i) p = Some (w, q)"
    "p' = q\<lparr>tp_threads := (tp_threads p)[i := w]\<rparr>" "tp_threads q = tp_threads p"
proof -
  obtain w q where *: "i < length (tp_threads p)" "thread_act (tp_threads p ! i) p = Some (w, q)"
    "p' = q\<lparr>tp_threads := (tp_threads q)[i := w]\<rparr>"
    using assms by (auto simp: worker_act_def split: if_splits)
  moreover have "tp_threads q = tp_threads p"
    using *(2) by (cases "tp_threads p ! i") (auto split: list.splits if_splits)
  ultimately show ?thesis
    using that by simp
qed

lemma thread_act_order: "thread_act w p = Some (w', q) \<Longrightarrow> order_ok p \<Longrightarrow> order_ok q"
  by (cases w) (auto simp: order_ok_def split: list.splits if_splits)

lemma thread_act_quit:
  "thread_act w p = Some (w', q) \<Longrightarrow> quit_ok p \<Longrightarrow> quit_ok q \<and> (w' = Exited \<longrightarrow> tp_quit_event q)"
  by (cases w) (auto simp: quit_ok_def split: list.splits if_splits)

lemma order_threads [simp]: "order_ok (p\<lparr>tp_threads := ws\<rparr>) = order_ok p"
  by (simp add: order_ok_def)

lemma worker_order: "worker_act i p = Some p' \<Longrightarrow> order_ok p \<Longrightarrow> order_ok p'"
  by (erule worker_actE) (simp add: thread_act_order)

lemma worker_quit: "worker_act i p = Some p' \<Longrightarrow> quit_ok p \<Longrightarrow> quit_ok p'"
  by (erule worker_actE) (auto dest!: thread_act_quit simp: quit_ok_def dest: set_update_subset_insert [THEN subsetD])

lemma worker_wakeup:
  assumes "worker_act i p = Some p'" "wakeup_ok p"
  shows "wakeup_ok p'"
  using assms(1)
proof (rule worker_actE)
  fix w q
  assume *: "i < length (tp_threads p)" "thread_act (tp_threads p ! i) p = Some (w, q)"
    "p' = q\<lparr>tp_threads := (tp_threads p)[i := w]\<rparr>"
  then show ?thesis
    using assms(2) list_ex_update(1) [of i "tp_threads p" awake w] list_ex_update(2) [of awake "tp_threads p" i w]
    by (cases "tp_threads p ! i") (auto simp: wakeup_ok_def split: list.splits if_splits)
qed

lemma sub_count_1: "mset xs \<subseteq># mset ys \<Longrightarrow> distinct ys \<Longrightarrow> x \<in> set xs \<Longrightarrow> count (mset xs) x = 1"
  by (metis count_greater_eq_one_iff distinct_count_atmost_1 le_antisym mset_subset_eqD mset_subset_eq_count set_mset_mset)

lemma running_count:
  assumes "owners_ok p" "order_ok p" "i < length (tp_threads p)" "tp_threads p ! i = Ran t"
  shows "count (mset (tp_running_tasks p)) t = 1"
proof (rule sub_count_1)
  have "mset (concat (map listed ws)) \<subseteq># mset (concat (map held ws))" for ws :: "'a thread list"
  proof (induction ws)
    case (Cons w ws)
    then show ?case
      by (cases w) (simp_all, metis add_mset_add_single mset_subset_eq_add_left subset_mset.trans)
  qed simp
  then show "mset (tp_running_tasks p) \<subseteq># mset (tp_started p)"
    using assms(1) by (simp add: owners_ok_def held_tasks_def subset_mset.add_increasing)
  show "distinct (tp_started p)"
    using assms(2) by (metis distinct_append order_ok_def)
  have "t \<in># mset (concat (map listed (tp_threads p)))"
    using assms(3,4) by (force simp: in_set_conv_nth)
  then show "t \<in> set (tp_running_tasks p)"
    using assms(1) by (metis owners_ok_def set_mset_mset)
qed

lemma worker_owners:
  assumes "worker_act i p = Some p'" "owners_ok p" "order_ok p"
  shows "owners_ok p'"
  using assms(1)
proof (rule worker_actE)
  fix w q
  assume *: "i < length (tp_threads p)" "thread_act (tp_threads p ! i) p = Some (w, q)"
    "p' = q\<lparr>tp_threads := (tp_threads p)[i := w]\<rparr>"
  note upd = mset_concat_update [OF *(1), of held w] mset_concat_update [OF *(1), of listed w]
  show ?thesis
    using assms(2) * upd mset_removeAll [OF running_count [OF assms(2,3) *(1)]]
    by (cases "tp_threads p ! i")
      (auto simp: owners_ok_def held_tasks_def split: list.splits if_splits, metis add_mset_add_mset_same_iff)
qed

text \<open>The invariant.\<close>

definition pool_ok :: "'a thread_pool \<Rightarrow> bool" where
  "pool_ok p \<longleftrightarrow> order_ok p \<and> owners_ok p \<and> wakeup_ok p \<and> quit_ok p"

lemmas pool_ok_defs = pool_ok_def order_ok_def owners_ok_def wakeup_ok_def quit_ok_def

lemma pool_step_ok:
  assumes "pool_step p p'" "pool_ok p"
  shows "pool_ok p'"
  using assms(1)
proof (rule pool_stepE)
  fix i
  assume "worker_act i p = Some p'"
  with assms(2) show ?thesis
    unfolding pool_ok_def by (blast intro: worker_order worker_owners worker_wakeup worker_quit)
qed (use assms(2) in \<open>auto simp: pool_ok_defs submmit_lock_def submmit_event_def destroy_lock_def destroy_event_def
    held_tasks_def Let_def\<close>)

lemma pool_reach_ok: "pool_reach n p \<Longrightarrow> pool_ok p"
proof (induction rule: pool_reach.induct)
  case start
  then show ?case
    by (simp add: pool_ok_defs new_pool_def held_tasks_def map_replicate_const)
qed (rule pool_step_ok)

lemma length_threads: "pool_reach n p \<Longrightarrow> length (tp_threads p) = n"
proof (induction rule: pool_reach.induct)
  case (step p p')
  from step.hyps(2) have "length (tp_threads p') = length (tp_threads p)"
    by (rule pool_stepE) (auto elim!: worker_actE simp: submmit_lock_def submmit_event_def destroy_lock_def
        destroy_event_def Let_def)
  with step.IH show ?case
    by simp
qed (simp add: new_pool_def)

text \<open>
  C32: Whatever the threads do in whatever order, no task is lost, run twice or overtaken: the tasks that were
  accepted are, in their order, those that were started, those that \<open>destroy\<close> deleted, and those still
  queued; the started ones are deleted or in the hands of one worker; and \<open>m_running_tasks\<close> lists exactly
  those whose \<open>run\<close> may be under way, so that \<open>destroy\<close> signals no task that is gone.
\<close>

theorem tasks_in_order:
  assumes "pool_reach n p"
  shows "tp_accepted p = tp_started p @ tp_dropped p @ tp_tasks p \<and> distinct (tp_accepted p) \<and>
    mset (tp_started p) = mset (tp_deleted p) + mset (held_tasks p) \<and>
    mset (tp_running_tasks p) = mset (concat (map listed (tp_threads p)))"
  using pool_reach_ok [OF assms] by (auto simp: pool_ok_def order_ok_def owners_ok_def)

section \<open>The workers finish\<close>

fun effort :: "'a thread \<Rightarrow> nat" where
  "effort Exited = 0"
| "effort Waiting = 1"
| "effort Looking = 2"
| "effort (Removed t) = 3"
| "effort (Ran t) = 4"
| "effort (Running t) = 5"

definition work_left :: "'a thread_pool \<Rightarrow> nat" where
  "work_left p = sum_list (map effort (tp_threads p)) + 4 * length (tp_tasks p) + (if tp_task_event p then 2 else 0)"

text \<open>The steps of a schedule of workers.\<close>

fun run_workers :: "nat list \<Rightarrow> 'a thread_pool \<Rightarrow> 'a thread_pool option" where
  "run_workers [] p = Some p"
| "run_workers (i # js) p = Option.bind (worker_act i p) (run_workers js)"

lemma sum_list_map_update:
  "i < length ws \<Longrightarrow> sum_list (map f (ws[i := w])) + f (ws ! i) = sum_list (map f ws) + (f w :: nat)"
  by (induction ws arbitrary: i) (auto split: nat.split)

lemma worker_act_work: "worker_act i p = Some p' \<Longrightarrow> work_left p' < work_left p"
proof (erule worker_actE)
  fix w q
  assume *: "i < length (tp_threads p)" "thread_act (tp_threads p ! i) p = Some (w, q)"
    "p' = q\<lparr>tp_threads := (tp_threads p)[i := w]\<rparr>"
  then show "work_left p' < work_left p"
    using sum_list_map_update [OF *(1), of effort w]
    by (cases "tp_threads p ! i") (auto simp: work_left_def split: list.splits if_splits)
qed

lemma run_workers_reach: "run_workers js p = Some p' \<Longrightarrow> pool_reach n p \<Longrightarrow> pool_reach n p'"
  by (induction js arbitrary: p) (auto simp: bind_eq_Some_conv, metis pool_reach.step pool_step.worker)

lemma run_workers_same:
  "run_workers js p = Some p' \<Longrightarrow> tp_submitters p' = tp_submitters p \<and> tp_quit_event p' = tp_quit_event p \<and>
     tp_accepted p' = tp_accepted p"
proof (induction js arbitrary: p)
  case (Cons i js)
  then obtain q where q: "worker_act i p = Some q" "run_workers js q = Some p'"
    by (auto simp: bind_eq_Some_conv)
  have "tp_submitters q = tp_submitters p \<and> tp_quit_event q = tp_quit_event p \<and> tp_accepted q = tp_accepted p"
    using q(1)
  proof (rule worker_actE)
    fix w r
    assume "thread_act (tp_threads p ! i) p = Some (w, r)" "q = r\<lparr>tp_threads := (tp_threads p)[i := w]\<rparr>"
    then show ?thesis
      by (cases "tp_threads p ! i") (auto split: list.splits if_splits)
  qed
  with Cons.IH [OF q(2)] show ?case
    by simp
qed simp

lemma run_workers_work: "run_workers js p = Some p' \<Longrightarrow> length js + work_left p' \<le> work_left p"
  by (induction js arbitrary: p) (fastforce simp: bind_eq_Some_conv dest!: worker_act_work)+

lemma blocked:
  assumes "\<forall>i. worker_act i p = None" "w \<in> set (tp_threads p)"
  shows "w = Exited \<or> w = Waiting \<and> \<not> tp_task_event p \<and> \<not> tp_quit_event p"
proof -
  obtain i where "i < length (tp_threads p)" "tp_threads p ! i = w"
    using assms(2) by (auto simp: in_set_conv_nth)
  then have "thread_act w p = None"
    using assms(1) by (auto simp: worker_act_def dest: spec [of _ i])
  then show ?thesis
    by (cases w) (auto split: list.splits if_splits)
qed

text \<open>
  C33: No wake-up is lost.  From any state in which no call of \<open>submmit\<close> is between its two halves, the
  workers of a pool with at least one thread can only do a bounded number of steps, and when they can do
  no more, every task that was accepted has been run and deleted, or dropped by \<open>destroy\<close>; if \<open>destroy\<close> has
  set its event, all of them have returned.
\<close>

theorem workers_finish:
  assumes "pool_reach n p" "0 < n" "tp_submitters p = 0" "run_workers js p = Some p'"
  shows "length js \<le> work_left p \<and>
    ((\<forall>i. worker_act i p' = None) \<longrightarrow>
      mset (tp_accepted p) = mset (tp_deleted p') + mset (tp_dropped p') \<and> tp_running_tasks p' = [] \<and>
      (tp_quit_event p \<longrightarrow> tp_threads p' = replicate n Exited))"
proof (intro conjI impI)
  show "length js \<le> work_left p"
    using run_workers_work [OF assms(4)] by simp
next
  assume stuck: "\<forall>i. worker_act i p' = None"
  have ok: "pool_ok p'" "length (tp_threads p') = n"
    using pool_reach_ok length_threads run_workers_reach [OF assms(4,1)] by blast+
  have same: "tp_submitters p' = 0" "tp_quit_event p' = tp_quit_event p" "tp_accepted p' = tp_accepted p"
    using run_workers_same [OF assms(4)] assms(3) by simp_all
  note idle = blocked [OF stuck]
  have none: "held w = []" "listed w = []" "\<not> awake w" if "w \<in> set (tp_threads p')" for w
    using idle [OF that] by auto
  then have empty: "held_tasks p' = []" "concat (map listed (tp_threads p')) = []" "\<not> list_ex awake (tp_threads p')"
    by (auto simp: held_tasks_def list_ex_iff)
  have "\<exists>w. w \<in> set (tp_threads p')"
    using ok(2) assms(2) by (cases "tp_threads p'") auto
  then have "tp_tasks p' = []"
    using idle ok(1) empty(3) same(1) by (force simp: pool_ok_defs split: if_splits)
  then show "mset (tp_accepted p) = mset (tp_deleted p') + mset (tp_dropped p')" "tp_running_tasks p' = []"
    using ok(1) empty same(3) by (simp_all add: pool_ok_defs)
  show "tp_threads p' = replicate n Exited" if "tp_quit_event p"
    using idle that same(2) ok(2) by (metis replicate_eqI)
qed

definition one_task :: "nat thread_pool" where
  "one_task = submmit_event (submmit_lock 7 (new_pool 1))"

definition one_done :: "nat thread_pool" where
  "one_done = one_task\<lparr>tp_tasks := [], tp_task_event := False, tp_threads := [Waiting], tp_started := [7], tp_deleted := [7]\<rparr>"

lemma one_task_reach: "pool_reach 1 one_task"
proof -
  have "pool_reach 1 (submmit_lock 7 (new_pool 1 :: nat thread_pool))"
    by (rule pool_reach.step [OF pool_reach.start]) (rule pool_step.submit, simp_all add: new_pool_def)
  then show ?thesis
    unfolding one_task_def
    by (rule pool_reach.step) (rule pool_step.set_event, simp add: submmit_lock_def new_pool_def Let_def)
qed

theorem tasks_in_order_witness:
  "tp_accepted one_task = tp_started one_task @ tp_dropped one_task @ tp_tasks one_task \<and> tp_accepted one_task = [7]"
  using tasks_in_order [OF one_task_reach] by (simp add: one_task_def submmit_event_def submmit_lock_def new_pool_def Let_def)

theorem workers_finish_witness:
  "run_workers [0, 0, 0, 0, 0, 0, 0] one_task = Some one_done \<and>
   mset (tp_accepted one_task) = mset (tp_deleted one_done) + mset (tp_dropped one_done) \<and> tp_deleted one_done = [7]"
proof -
  have run: "run_workers [0, 0, 0, 0, 0, 0, 0] one_task = Some one_done"
    by (simp add: one_done_def one_task_def submmit_event_def submmit_lock_def new_pool_def Let_def worker_act_def)
  have "\<forall>i. worker_act i one_done = None"
    by (simp add: one_done_def one_task_def submmit_event_def submmit_lock_def new_pool_def Let_def worker_act_def)
  moreover have "tp_submitters one_task = 0"
    by (simp add: one_task_def submmit_event_def submmit_lock_def new_pool_def Let_def)
  ultimately show ?thesis
    using workers_finish [OF one_task_reach _ _ run] run by (simp add: one_done_def)
qed

section \<open>The command queue\<close>

record command =
  command_type :: int
  c_data :: nat
  c_size :: int

definition pop :: "command list \<Rightarrow> command option \<times> command list" where
  "pop q = (case q of [] \<Rightarrow> (None, q) | c # cs \<Rightarrow> (Some c, cs))"

definition queue_insert :: "command \<Rightarrow> command list \<Rightarrow> command list" where
  "queue_insert c q = q @ [c]"

definition remove_by_type :: "int \<Rightarrow> command list \<Rightarrow> command list" where
  "remove_by_type ty q = filter (\<lambda>c. command_type c \<noteq> ty) q"

text \<open>
  \<open>wait\<close>, over a schedule: for each round the time and what other threads make of the queue before the
  section under the lock.  \<^theory_text>\<open>None\<close>: it has not returned when the schedule ends.  The difference
  of the times is unsigned, and so is its comparison.
\<close>

fun queue_wait ::
  "u32 \<Rightarrow> int \<Rightarrow> (u32 \<times> (command list \<Rightarrow> command list)) list \<Rightarrow> command list \<Rightarrow> (command option \<times> command list) option" where
  "queue_wait l ms [] q = None"
| "queue_wait l ms ((t, f) # rounds) q =
     (if t - l < word_of_int ms \<or> ms = -1
      then (case pop (f q) of
              (Some c, q) \<Rightarrow> Some (Some c, q)
            | (None, q) \<Rightarrow> queue_wait l ms rounds q)
      else Some (None, q))"

text \<open>
  A command that is inserted while \<open>wait\<close> runs on an empty queue is what it returns, however many rounds
  the insertion takes, if the time is not over.
\<close>

theorem wait_returns_inserted:
  assumes "list_all (\<lambda>u. u - l < word_of_int ms) us" "t - l < word_of_int ms"
  shows "queue_wait l ms (map (\<lambda>u. (u, id)) us @ (t, queue_insert c) # later) [] = Some (Some c, [])"
  using assms by (induction us) (auto simp: pop_def queue_insert_def)

end
