(* ===== verification/Fragments.thy ===== *)
theory Fragments
  imports Prelude
begin

text \<open>
  The byte-range algebra of the download cache (\<open>hookdshow/full_cache.cpp\<close>): a
  \<open>fragment\<close> is a half-open range of file positions, \<open>cross_fragment\<close> intersects two of them and
  \<open>subtract_fragment\<close> removes one from another, leaving zero, one or two pieces.  The lemmas give
  both operations their meaning as sets of positions.

  The fields are \<open>__int64\<close> file positions; the model uses \<^typ>\<open>int\<close>, since only \<open>min\<close>, \<open>max\<close>
  and comparisons are applied to them here, which cannot overflow.
\<close>

section \<open>Ranges\<close>

record fragment =
  frag_start :: int
  frag_end :: int

text \<open>\<open>cross_fragment\<close>\<close>

definition cross_fragment :: "fragment \<Rightarrow> fragment \<Rightarrow> fragment" where
  "cross_fragment a b =
     (let s = max (frag_start a) (frag_start b);
          e = min (frag_end a) (frag_end b)
      in \<lparr>frag_start = s, frag_end = max s e\<rparr>)"

text \<open>\<open>subtract_fragment\<close>: the number of pieces and the array \<open>o[2]\<close>.\<close>

definition subtract_fragment :: "fragment \<Rightarrow> fragment \<Rightarrow> nat \<times> fragment \<times> fragment" where
  "subtract_fragment frag subtractor =
     (let cross = cross_fragment frag subtractor;
          e0 = max (frag_start frag) (min (frag_start cross) (frag_end frag));
          o0 = \<lparr>frag_start = frag_start frag, frag_end = e0\<rparr>;
          s1 = min (max (frag_end cross) (frag_start frag)) (frag_end frag);
          o1 = \<lparr>frag_start = s1, frag_end = frag_end frag\<rparr>;
          o0' = (if frag_start o0 = frag_end o0 then o1 else o0)
      in if frag_start o0' = frag_end o0' then (0, o0', o1)
         else if frag_start o1 = frag_end o1 then (1, o0', o1)
         else if o0' \<noteq> o1 then (2, o0', o1)
         else (1, o0', o1))"

text \<open>The pieces a caller looks at: the first \<open>count\<close> entries of the array.\<close>

definition pieces :: "nat \<times> fragment \<times> fragment \<Rightarrow> fragment list" where
  "pieces r = (case r of (c, o0, o1) \<Rightarrow> take c [o0, o1])"

section \<open>Meaning\<close>

definition positions :: "fragment \<Rightarrow> int set" where
  "positions f = {frag_start f ..< frag_end f}"

definition wf_frag :: "fragment \<Rightarrow> bool" where
  "wf_frag f \<longleftrightarrow> frag_start f \<le> frag_end f"

definition frag_size :: "fragment \<Rightarrow> nat" where
  "frag_size f = nat (frag_end f - frag_start f)"

lemma wf_cross [simp]: "wf_frag (cross_fragment a b)"
  by (simp add: wf_frag_def cross_fragment_def Let_def)

lemma positions_cross [simp]: "positions (cross_fragment a b) = positions a \<inter> positions b"
  by (auto simp: positions_def cross_fragment_def Let_def)

lemma positions_empty_iff: "positions f = {} \<longleftrightarrow> frag_end f \<le> frag_start f"
  by (auto simp: positions_def)

lemma card_positions: "card (positions f) = frag_size f"
  by (simp add: positions_def frag_size_def)

lemma finite_positions [simp]: "finite (positions f)"
  by (simp add: positions_def)

text \<open>
  Every case of \<open>subtract_fragment\<close> on a range \<open>f\<close> and a range \<open>s\<close>, as the cases of where the
  two ranges lie.
\<close>

lemma subtract_pieces:
  assumes "wf_frag f" "wf_frag s"
  shows "pieces (subtract_fragment f s) =
    (if frag_start f = frag_end f then []
     else if frag_end s \<le> frag_start f \<or> frag_end f \<le> frag_start s then [f]
     else (if frag_start f < frag_start s
           then [\<lparr>frag_start = frag_start f, frag_end = frag_start s\<rparr>] else []) @
          (if frag_end s < frag_end f
           then [\<lparr>frag_start = frag_end s, frag_end = frag_end f\<rparr>] else []))"
proof -
  obtain a b where f: "f = \<lparr>frag_start = a, frag_end = b\<rparr>" by (cases f)
  obtain c e where s: "s = \<lparr>frag_start = c, frag_end = e\<rparr>" by (cases s)
  have wf: "a \<le> b" "c \<le> e" using assms by (simp_all add: f s wf_frag_def)
  note D = subtract_fragment_def pieces_def cross_fragment_def Let_def f s
  consider (empty) "a = b" | (left) "a < b" "e \<le> a" | (right) "a < b" "b \<le> c"
    | (inside) "a < c" "e < b" | (tail) "a < c" "c < b" "b \<le> e"
    | (head) "c \<le> a" "a < e" "e < b" | (all) "c \<le> a" "a < b" "b \<le> e"
    using wf by linarith
  then show ?thesis
  proof cases
    case empty with wf show ?thesis by (simp add: D)
  next
    case left with wf show ?thesis by (simp add: D)
  next
    case right with wf show ?thesis by (simp add: D)
  next
    case inside with wf show ?thesis by (simp add: D)
  next
    case tail with wf show ?thesis by (simp add: D)
  next
    case head with wf show ?thesis by (simp add: D)
  next
    case all with wf show ?thesis by (simp add: D)
  qed
qed

lemma subtract_positions:
  assumes "wf_frag f" "wf_frag s"
  shows "(\<Union>p \<in> set (pieces (subtract_fragment f s)). positions p) = positions f - positions s"
  using assms(1,2) unfolding subtract_pieces [OF assms(1,2)]
  by (auto simp: positions_def wf_frag_def)

lemma subtract_pieces_wf:
  assumes "wf_frag f" "wf_frag s" "p \<in> set (pieces (subtract_fragment f s))"
  shows "frag_start p < frag_end p" "positions p \<subseteq> positions f"
  using assms(1,2) assms(3) unfolding subtract_pieces [OF assms(1,2)]
  by (auto simp: positions_def wf_frag_def split: if_splits)

lemma subtract_pieces_size:
  assumes "wf_frag f" "wf_frag s"
  shows "sum_list (map frag_size (pieces (subtract_fragment f s))) =
         frag_size f - frag_size (cross_fragment f s)"
  using assms unfolding subtract_pieces [OF assms]
  by (auto simp: frag_size_def wf_frag_def cross_fragment_def Let_def)

lemma length_pieces [simp]: "length (pieces r) = min (fst r) 2"
  by (cases r) (simp add: pieces_def min.commute numeral_2_eq_2)

lemma subtract_count: "fst (subtract_fragment f s) \<le> 2"
  by (simp add: subtract_fragment_def Let_def)

text \<open>
  C1: subtracting one range from another is set difference.  The pieces that
  \<open>subtract_fragment\<close> reports are non-empty, pairwise disjoint, in increasing order, and together
  hold exactly the positions of the first range that are not in the second; it reports as many as
  its return value says.
\<close>

theorem subtract_fragment_correct:
  assumes "wf_frag f" "wf_frag s"
  shows "let ps = pieces (subtract_fragment f s) in
     length ps = fst (subtract_fragment f s) \<and>
     (\<Union>p \<in> set ps. positions p) = positions f - positions s \<and>
     (\<forall>p \<in> set ps. positions p \<noteq> {}) \<and>
     sorted_wrt (\<lambda>p q. frag_end p \<le> frag_start q) ps"
proof -
  have "sorted_wrt (\<lambda>p q. frag_end p \<le> frag_start q) (pieces (subtract_fragment f s))"
    using assms unfolding subtract_pieces [OF assms] by (auto simp: wf_frag_def)
  then show ?thesis
    using subtract_positions [OF assms] subtract_pieces_wf(1) [OF assms] subtract_count [of f s]
    by (simp add: Let_def positions_empty_iff not_le)
qed

theorem subtract_fragment_correct_witness:
  "pieces (subtract_fragment \<lparr>frag_start = 0, frag_end = 100\<rparr> \<lparr>frag_start = 30, frag_end = 40\<rparr>) =
     [\<lparr>frag_start = 0, frag_end = 30\<rparr>, \<lparr>frag_start = 40, frag_end = 100\<rparr>] \<and>
   positions \<lparr>frag_start = 0, frag_end = 30\<rparr> \<union> positions \<lparr>frag_start = 40, frag_end = 100\<rparr> =
     positions \<lparr>frag_start = 0, frag_end = 100\<rparr> - positions \<lparr>frag_start = 30, frag_end = 40\<rparr>"
proof -
  have e: "pieces (subtract_fragment \<lparr>frag_start = 0, frag_end = 100\<rparr>
        \<lparr>frag_start = 30, frag_end = 40\<rparr>) =
      [\<lparr>frag_start = 0, frag_end = 30\<rparr>, \<lparr>frag_start = 40, frag_end = 100\<rparr>]"
    by (simp add: subtract_fragment_def cross_fragment_def pieces_def Let_def)
  show ?thesis
    using subtract_fragment_correct
      [of "\<lparr>frag_start = 0, frag_end = 100\<rparr>" "\<lparr>frag_start = 30, frag_end = 40\<rparr>"]
    unfolding e by (auto simp: wf_frag_def)
qed

end
