(* ===== verification/DiskCache.thy ===== *)
theory DiskCache
  imports Fragments
begin

text \<open>
  The disk side of the download cache (\<open>hookdshow/full_cache.h\<close>, \<open>hookdshow/full_cache.cpp\<close>):
  \<open>disk_fragment\<close>, a file that holds one contiguous run of the remote object, and \<open>inet_file\<close>,
  which keeps a list of them, answers reads from it (\<open>get\<close>), plans read-ahead (\<open>pre_read\<close>) and
  stores what the workers download (\<open>feed\<close>).

  A file is its byte list and a file pointer.  The workers run concurrently with \<open>get\<close>; each round
  of its loop takes the fragment lock once, so the loop is modelled over a schedule: the list, one
  entry per round, of the fragment list and of \<open>*cancel\<close> as that round finds them.  A schedule that
  is used up before the loop ends gives \<^theory_text>\<open>None\<close>.  The calls \<open>hint\<close> that the loop makes to
  the worker manager are returned as a trace.  File positions (\<open>__int64\<close>) are \<^typ>\<open>int\<close>.
\<close>

section \<open>disk_fragment\<close>

record disk_fragment =
  df_start :: int          \<comment> \<open>\<open>m_start\<close>\<close>
  df_pos :: int            \<comment> \<open>\<open>m_pos\<close>\<close>
  df_file :: "byte list"   \<comment> \<open>the file behind \<open>m_file\<close>\<close>
  df_ptr :: nat            \<comment> \<open>its file pointer\<close>

text \<open>
  The constructor opens (or creates) the file, seeks to its end and sets \<open>m_pos\<close>; \<open>old\<close> is what
  the file held.
\<close>

definition disk_fragment_open :: "byte list \<Rightarrow> int \<Rightarrow> disk_fragment" where
  "disk_fragment_open old startpos =
     \<lparr>df_start = startpos, df_pos = startpos + int (length old), df_file = old,
      df_ptr = length old\<rparr>"

text \<open>\<open>put\<close> writes \<open>size\<close> bytes from \<open>buf\<close> at the file pointer.\<close>

definition disk_fragment_put :: "disk_fragment \<Rightarrow> byte list \<Rightarrow> nat \<Rightarrow> disk_fragment" where
  "disk_fragment_put d buf sz =
     d\<lparr>df_pos := df_pos d + int sz,
       df_file := blit (df_file d) (df_ptr d) (take sz buf),
       df_ptr := df_ptr d + sz\<rparr>"

definition df_me :: "disk_fragment \<Rightarrow> fragment" where
  "df_me d = \<lparr>frag_start = df_start d, frag_end = df_pos d\<rparr>"

definition disk_fragment_remaining :: "disk_fragment \<Rightarrow> fragment \<Rightarrow> nat \<times> fragment \<times> fragment" where
  "disk_fragment_remaining d pos = subtract_fragment pos (df_me d)"

text \<open>
  \<open>remaining2\<close>: the first piece, and the caller's buffer pointer (here an offset into its buffer),
  moved when \<open>o[0].start > o[0].end\<close>.
\<close>

definition disk_fragment_remaining2 :: "disk_fragment \<Rightarrow> fragment \<Rightarrow> int \<Rightarrow> fragment \<times> int" where
  "disk_fragment_remaining2 d pos ptr =
     (case subtract_fragment pos (df_me d) of (count, o0, o1) \<Rightarrow>
        (o0, if count > 0 \<and> frag_start o0 > frag_end o0
             then ptr + frag_start o0 - frag_start pos else ptr))"

text \<open>
  \<open>get\<close>: the return value, the pieces left over and the caller's buffer; \<open>base\<close> is where the
  pointer \<open>buf\<close> points in it.  The file pointer is saved and restored around the read.
\<close>

definition disk_fragment_get ::
  "disk_fragment \<Rightarrow> byte list \<Rightarrow> int \<Rightarrow> fragment \<Rightarrow> int \<times> fragment list \<times> byte list" where
  "disk_fragment_get d buf base pos =
     (let left = subtract_fragment pos (df_me d);
          cross = cross_fragment pos (df_me d);
          at = base + frag_start cross - frag_start pos
      in if frag_end cross > frag_start cross
         then (int (fst left), pieces left,
               blit buf (nat at)
                 (slice (nat (frag_start cross - df_start d))
                    (nat (frag_end cross - frag_start cross)) (df_file d)))
         else (-1, pieces left, buf))"

section \<open>inet_file\<close>

datatype access_type = AccDisk | AccNet | AccRead | AccPreread

record debug_info =
  dbg_frag :: fragment
  dbg_type :: access_type
  dbg_tick :: u32

record inet_file =
  m_fragments :: "disk_fragment list"
  m_access_info :: "debug_info list"
  m_filesize :: int
  m_time :: int
  config_entries :: "(int \<times> nat) list"  \<comment> \<open>start and file number of each \<open>configfile_entry\<close>\<close>

text \<open>
  The constructor reads the size, the time and the entries of the configuration file and opens one
  disk fragment per entry; \<open>files n\<close> is what the file numbered \<open>n\<close> holds.
\<close>

definition inet_file_open :: "(nat \<Rightarrow> byte list) \<Rightarrow> int \<Rightarrow> int \<Rightarrow> (int \<times> nat) list \<Rightarrow> inet_file" where
  "inet_file_open files filesize time entries =
     \<lparr>m_fragments = map (\<lambda>(startpos, n). disk_fragment_open (files n) startpos) entries,
      m_access_info = [], m_filesize = filesize, m_time = time, config_entries = entries\<rparr>"

definition log_access :: "access_type \<Rightarrow> u32 \<Rightarrow> fragment \<Rightarrow> inet_file \<Rightarrow> inet_file" where
  "log_access ty tick pos s =
     s\<lparr>m_access_info :=
         (if length (m_access_info s) > 500 then tl (m_access_info s) else m_access_info s) @
         [\<lparr>dbg_frag = pos, dbg_type = ty, dbg_tick = tick\<rparr>]\<rparr>"

text \<open>
  One pass over the disk fragments: the first whose \<open>get\<close> does not return \<open>-1\<close> answers.  It is
  written for any kind of store, given by its \<open>get\<close>.
\<close>

fun try_stores ::
  "('d \<Rightarrow> byte list \<Rightarrow> int \<Rightarrow> fragment \<Rightarrow> int \<times> fragment list \<times> byte list) \<Rightarrow>
   'd list \<Rightarrow> byte list \<Rightarrow> int \<Rightarrow> fragment \<Rightarrow> (fragment list \<times> byte list) option" where
  "try_stores getf [] buf base frag = None"
| "try_stores getf (d # ds) buf base frag =
     (case getf d buf base frag of (c, left, buf') \<Rightarrow>
        if c \<ge> 0 then Some (left, buf') else try_stores getf ds buf base frag)"

text \<open>
  The loop \<open>while (fragment_list.size() > 0)\<close>.  The result is whether the loop ran to its end (as
  opposed to the cancelled return), the buffer, and the hints sent: \<open>hint(frag, false)\<close> in every
  round and \<open>hint(frag, true)\<close> when nothing was found.
\<close>

fun get_loop ::
  "('d \<Rightarrow> byte list \<Rightarrow> int \<Rightarrow> fragment \<Rightarrow> int \<times> fragment list \<times> byte list) \<Rightarrow>
   ('d list \<times> bool) list \<Rightarrow> fragment \<Rightarrow> fragment list \<Rightarrow> byte list \<Rightarrow>
   (bool \<times> byte list \<times> (fragment \<times> bool) list) option" where
  "get_loop getf sched pos [] buf = Some (True, buf, [])"
| "get_loop getf [] pos (frag # rest) buf = None"
| "get_loop getf ((ds, cancel) # sched) pos (frag # rest) buf =
     (case try_stores getf ds buf (frag_start frag - frag_start pos) frag of
        Some (left, buf') \<Rightarrow>
          map_option (\<lambda>(ok, b, hs). (ok, b, (frag, False) # hs))
            (get_loop getf sched pos (rev left @ rest) buf')
      | None \<Rightarrow>
          if cancel then Some (False, buf, [(frag, False)])
          else map_option (\<lambda>(ok, b, hs). (ok, b, (frag, False) # (frag, True) # hs))
                 (get_loop getf sched pos (frag # rest) buf))"

text \<open>The range check of \<open>get\<close>: the early return value, or the clamped range and \<open>rtn\<close>.\<close>

definition get_range :: "int \<Rightarrow> fragment \<Rightarrow> (int \<times> fragment) + (int \<times> fragment)" where
  "get_range filesize pos =
     (if frag_start pos < 0 then Inl (-1, pos)
      else let rtn = (if frag_end pos > filesize then 1 else 0);
               e = (if frag_end pos > filesize then filesize else frag_end pos);
               pos' = \<lparr>frag_start = min (frag_start pos) e, frag_end = e\<rparr>
           in if frag_end pos' \<le> frag_start pos' then Inl (0, pos') else Inr (rtn, pos'))"

text \<open>
  \<open>inet_file::get\<close>.  \<open>tick\<close> and \<open>now\<close> are \<open>GetTickCount()\<close> and \<open>_time64(NULL)\<close> at the call.
\<close>

definition inet_file_get ::
  "(disk_fragment list \<times> bool) list \<Rightarrow> u32 \<Rightarrow> int \<Rightarrow> byte list \<Rightarrow> fragment \<Rightarrow> inet_file \<Rightarrow>
   (int \<times> fragment \<times> byte list \<times> inet_file \<times> (fragment \<times> bool) list) option" where
  "inet_file_get sched tick now buf pos s =
     (let s1 = log_access AccRead tick pos s in
      case get_range (m_filesize s) pos of
        Inl (r, pos') \<Rightarrow> Some (r, pos', buf, s1, [])
      | Inr (rtn, pos') \<Rightarrow>
          (case get_loop disk_fragment_get sched pos' [pos'] buf of
             None \<Rightarrow> None
           | Some (True, buf', hs) \<Rightarrow> Some (rtn, pos', buf', s1\<lparr>m_time := now\<rparr>, hs)
           | Some (False, buf', hs) \<Rightarrow>
               Some (-1, pos'\<lparr>frag_end := frag_start pos'\<rparr>, buf', s1, hs)))"

text \<open>\<open>pre_read\<close>: subtract every disk fragment from the range and ask the workers for the rest.\<close>

definition subtract_all :: "fragment list \<Rightarrow> fragment list \<Rightarrow> fragment list" where
  "subtract_all mes fs =
     foldl (\<lambda>acc me. concat (map (\<lambda>f. pieces (subtract_fragment f me)) acc)) fs mes"

definition inet_file_pre_read :: "u32 \<Rightarrow> fragment \<Rightarrow> inet_file \<Rightarrow> inet_file \<times> (fragment \<times> bool) list" where
  "inet_file_pre_read tick pos s =
     (log_access AccPreread tick pos s,
      map (\<lambda>f. (f, True)) (subtract_all (map df_me (m_fragments s)) [pos]))"

definition inet_file_getdisksize :: "inet_file \<Rightarrow> int" where
  "inet_file_getdisksize s = sum_list (map (\<lambda>d. df_pos d - df_start d) (m_fragments s))"

text \<open>The first loop of \<open>feed\<close>: stop at the first fragment that takes something away from \<open>pos\<close>.\<close>

fun feed_scan :: "disk_fragment list \<Rightarrow> fragment \<Rightarrow> fragment \<Rightarrow> int \<Rightarrow> fragment \<times> int \<times> bool" where
  "feed_scan [] pos left ptr = (left, ptr, False)"
| "feed_scan (d # ds) pos left ptr =
     (case disk_fragment_remaining2 d pos ptr of (left', ptr') \<Rightarrow>
        if left' \<noteq> pos then (left', ptr', True) else feed_scan ds pos left' ptr')"

text \<open>The second loop: append to the first fragment that ends where \<open>left\<close> starts.\<close>

fun feed_append :: "disk_fragment list \<Rightarrow> fragment \<Rightarrow> byte list \<Rightarrow> disk_fragment list option" where
  "feed_append [] left buf = None"
| "feed_append (d # ds) left buf =
     (if df_pos d = frag_start left
      then Some (disk_fragment_put d buf (nat (frag_end left - frag_start left)) # ds)
      else map_option ((#) d) (feed_append ds left buf))"

text \<open>
  \<open>inet_file::feed\<close>; \<open>old\<close> is what a file of the new fragment's name already holds (nothing, unless
  a stale one was left behind).
\<close>

definition inet_file_feed :: "byte list \<Rightarrow> byte list \<Rightarrow> fragment \<Rightarrow> inet_file \<Rightarrow> int \<times> inet_file" where
  "inet_file_feed old buf pos s =
     (case feed_scan (m_fragments s) pos pos 0 of (left, ptr, conflit) \<Rightarrow>
        let rc = (if conflit then 1 else 0);
            data = drop (nat ptr) buf
        in if frag_end left \<le> frag_start left then (rc, s)
           else case feed_append (m_fragments s) left data of
                  Some ds \<Rightarrow> (rc, s\<lparr>m_fragments := ds\<rparr>)
                | None \<Rightarrow>
                    (0, s\<lparr>m_fragments := m_fragments s @
                            [disk_fragment_put (disk_fragment_open old (frag_start left)) data
                               (nat (frag_end left - frag_start left))],
                          config_entries := config_entries s @
                            [(frag_start left, length (m_fragments s))]\<rparr>))"

section \<open>The contract of a range store\<close>

text \<open>
  What \<open>inet_file::get\<close> relies on: a store that covers the range \<open>me d\<close> and, when it holds the
  bytes of \<open>src\<close> there, copies the part of a request that it covers to the right place of the
  caller's buffer and reports the rest.
\<close>

locale range_store =
  fixes me :: "'d \<Rightarrow> fragment"
    and getf :: "'d \<Rightarrow> byte list \<Rightarrow> int \<Rightarrow> fragment \<Rightarrow> int \<times> fragment list \<times> byte list"
    and holds :: "(int \<Rightarrow> byte) \<Rightarrow> 'd \<Rightarrow> bool"
  assumes get_miss: "fst (getf d buf base f) < 0 \<longleftrightarrow> positions f \<inter> positions (me d) = {}"
    and get_left: "holds src d \<Longrightarrow> wf_frag f \<Longrightarrow> getf d buf base f = (c, left, buf') \<Longrightarrow>
      (\<Union>p \<in> set left. positions p) = positions f - positions (me d) \<and>
      (\<forall>p \<in> set left. frag_start p < frag_end p) \<and>
      sum_list (map frag_size left) = card (positions f - positions (me d))"
    and get_data: "holds src d \<Longrightarrow> wf_frag f \<Longrightarrow> getf d buf base f = (c, left, buf') \<Longrightarrow>
      0 \<le> c \<Longrightarrow> 0 \<le> base \<Longrightarrow> base + int (frag_size f) \<le> int (length buf) \<Longrightarrow>
      length buf' = length buf \<and>
      (\<forall>k < length buf. buf' ! k =
         (if frag_start f + (int k - base) \<in> positions f \<inter> positions (me d)
          then src (frag_start f + (int k - base)) else buf ! k))"
begin

lemma try_storesD:
  assumes "try_stores getf ds buf base f = Some (left, buf')"
  shows "\<exists>d c. d \<in> set ds \<and> getf d buf base f = (c, left, buf') \<and> 0 \<le> c"
  using assms by (induction ds) (auto split: prod.splits if_splits)

lemma try_stores_hit:
  assumes "d \<in> set ds" "positions f \<inter> positions (me d) \<noteq> {}"
  shows "try_stores getf ds buf base f \<noteq> None"
  using assms
proof (induction ds)
  case (Cons d' ds)
  obtain c left buf' where g: "getf d' buf base f = (c, left, buf')"
    by (cases "getf d' buf base f")
  show ?case
  proof (cases "0 \<le> c")
    case False
    with g have "positions f \<inter> positions (me d') = {}"
      using get_miss [of d' buf base f] by simp
    with Cons g False show ?thesis by auto
  qed (simp add: g)
qed simp

text \<open>
  The loop invariant: the ranges still to fetch are non-empty parts of the request, and every
  requested position outside them is already right in the buffer.
\<close>

definition loop_inv :: "(int \<Rightarrow> byte) \<Rightarrow> fragment \<Rightarrow> fragment list \<Rightarrow> byte list \<Rightarrow> bool" where
  "loop_inv src pos todo buf \<longleftrightarrow>
     int (frag_size pos) \<le> int (length buf) \<and>
     (\<forall>f \<in> set todo. frag_start f < frag_end f \<and> positions f \<subseteq> positions pos) \<and>
     (\<forall>x \<in> positions pos. (\<forall>f \<in> set todo. x \<notin> positions f) \<longrightarrow>
        buf ! nat (x - frag_start pos) = src x)"

lemma loop_inv_round:
  assumes inv: "loop_inv src pos (f # rest) buf" and ds: "\<forall>d \<in> set ds. holds src d"
    and t: "try_stores getf ds buf (frag_start f - frag_start pos) f = Some (left, buf')"
  shows "loop_inv src pos (rev left @ rest) buf' \<and> length buf' = length buf"
proof -
  let ?base = "frag_start f - frag_start pos"
  obtain d c where d: "d \<in> set ds" and g: "getf d buf ?base f = (c, left, buf')" and c: "0 \<le> c"
    using try_storesD [OF t] by blast
  have f: "frag_start f < frag_end f" and sub: "positions f \<subseteq> positions pos"
    using inv by (auto simp: loop_inv_def)
  then have b: "frag_start pos \<le> frag_start f" "frag_end f \<le> frag_end pos"
    by (auto simp: positions_def)
  have wf: "wf_frag f" using f by (simp add: wf_frag_def)
  have len: "int (frag_size pos) \<le> int (length buf)" using inv by (simp add: loop_inv_def)
  have room: "0 \<le> ?base" "?base + int (frag_size f) \<le> int (length buf)"
    using b f len by (auto simp: frag_size_def)
  have L: "(\<Union>p \<in> set left. positions p) = positions f - positions (me d)"
      "\<forall>p \<in> set left. frag_start p < frag_end p"
    using get_left [OF _ wf g] ds d by auto
  have D: "length buf' = length buf"
      "\<And>k. k < length buf \<Longrightarrow> buf' ! k =
        (if frag_start f + (int k - ?base) \<in> positions f \<inter> positions (me d)
         then src (frag_start f + (int k - ?base)) else buf ! k)"
    using get_data [OF _ wf g c room] ds d by auto
  have sub': "\<forall>p \<in> set left. positions p \<subseteq> positions pos" using L(1) sub by blast
  have right: "buf' ! nat (x - frag_start pos) = src x"
    if x: "x \<in> positions pos" and out: "\<forall>p \<in> set (rev left @ rest). x \<notin> positions p" for x
  proof -
    let ?k = "nat (x - frag_start pos)"
    have k: "?k < length buf" and ik: "int ?k = x - frag_start pos"
      using x len by (auto simp: positions_def frag_size_def)
    have e: "frag_start f + (int ?k - ?base) = x" using ik by simp
    show ?thesis
    proof (cases "x \<in> positions f \<inter> positions (me d)")
      case True then show ?thesis using D(2) [OF k] unfolding e by simp
    next
      case False
      have "x \<notin> positions f" using False L(1) out by auto
      then have "buf ! ?k = src x" using inv x out by (auto simp: loop_inv_def)
      then show ?thesis using D(2) [OF k] False unfolding e by simp
    qed
  qed
  have "\<forall>p \<in> set rest. frag_start p < frag_end p \<and> positions p \<subseteq> positions pos"
    using inv by (simp add: loop_inv_def)
  then have "loop_inv src pos (rev left @ rest) buf'"
    unfolding loop_inv_def using len D(1) L(2) sub' right by auto
  with D(1) show ?thesis by simp
qed

lemma get_loop_correct:
  assumes "loop_inv src pos todo buf" "\<forall>(ds, cancel) \<in> set sched. \<forall>d \<in> set ds. holds src d"
    and "get_loop getf sched pos todo buf = Some (True, buf', hs)"
  shows "length buf' = length buf \<and>
    (\<forall>x \<in> positions pos. buf' ! nat (x - frag_start pos) = src x)"
  using assms
proof (induction sched arbitrary: todo buf buf' hs)
  case Nil
  then show ?case by (cases todo) (auto simp: loop_inv_def)
next
  case (Cons sc sched)
  obtain ds cancel where sc: "sc = (ds, cancel)" by (cases sc)
  show ?case
  proof (cases todo)
    case Nil
    with Cons.prems show ?thesis by (auto simp: loop_inv_def)
  next
    case todo: (Cons frag rest)
    show ?thesis
    proof (cases "try_stores getf ds buf (frag_start frag - frag_start pos) frag")
      case None
      have "\<exists>hs'. get_loop getf sched pos todo buf = Some (True, buf', hs')"
        using Cons.prems(3) None by (auto simp: todo sc split: if_splits)
      with Cons.IH [OF Cons.prems(1)] Cons.prems(2) show ?thesis by auto
    next
      case (Some r)
      obtain left b where r: "r = (left, b)" by (cases r)
      have step: "loop_inv src pos (rev left @ rest) b \<and> length b = length buf"
        using Cons.prems Some r todo sc
        by (intro loop_inv_round [of src pos frag rest buf ds]) auto
      obtain hs' where "get_loop getf sched pos (rev left @ rest) b = Some (True, buf', hs')"
        using Cons.prems(3) Some r todo sc by auto
      with Cons.IH [of "rev left @ rest" b buf' hs'] step Cons.prems(2) show ?thesis by simp
    qed
  qed
qed

text \<open>
  The loop ends: in each round of a schedule whose stores cover the request, at least one more
  position is fetched.
\<close>

lemma round_decreases:
  assumes "loop_inv src pos (f # rest) buf" "\<forall>d \<in> set ds. holds src d"
    and "try_stores getf ds buf (frag_start f - frag_start pos) f = Some (left, buf')"
  shows "sum_list (map frag_size (rev left @ rest)) < sum_list (map frag_size (f # rest))"
proof -
  let ?base = "frag_start f - frag_start pos"
  obtain d c where d: "d \<in> set ds" and g: "getf d buf ?base f = (c, left, buf')" and c: "0 \<le> c"
    using try_storesD [OF assms(3)] by blast
  have "wf_frag f" using assms(1) by (simp add: loop_inv_def wf_frag_def)
  from get_left [OF _ this g] assms(2) d
  have "sum_list (map frag_size left) = card (positions f - positions (me d))" by blast
  moreover have "positions f \<inter> positions (me d) \<noteq> {}"
    using get_miss [of d buf ?base f] g c by auto
  then have "card (positions f - positions (me d)) < card (positions f)"
    by (intro psubset_card_mono) auto
  ultimately show ?thesis
    by (simp add: card_positions rev_map [symmetric])
qed

lemma get_loop_returns:
  assumes "loop_inv src pos todo buf"
    and "\<forall>(ds, cancel) \<in> set sched. (\<forall>d \<in> set ds. holds src d) \<and>
          positions pos \<subseteq> (\<Union>d \<in> set ds. positions (me d))"
    and "sum_list (map frag_size todo) \<le> length sched"
  shows "\<exists>buf' hs. get_loop getf sched pos todo buf = Some (True, buf', hs)"
  using assms
proof (induction sched arbitrary: todo buf)
  case Nil
  then show ?case
    by (cases todo) (auto simp: loop_inv_def frag_size_def)
next
  case (Cons sc sched)
  obtain ds cancel where sc: "sc = (ds, cancel)" by (cases sc)
  show ?case
  proof (cases todo)
    case todo: (Cons f rest)
    have inv: "loop_inv src pos (f # rest) buf" using Cons.prems(1) todo by simp
    have hd: "\<forall>d \<in> set ds. holds src d"
      and cov: "positions pos \<subseteq> (\<Union>d \<in> set ds. positions (me d))"
      using Cons.prems(2) sc by auto
    have "positions f \<noteq> {}" "positions f \<subseteq> positions pos"
      using inv by (auto simp: loop_inv_def positions_empty_iff)
    with cov obtain d where "d \<in> set ds" "positions f \<inter> positions (me d) \<noteq> {}" by blast
    then obtain left b where t:
      "try_stores getf ds buf (frag_start f - frag_start pos) f = Some (left, b)"
      using try_stores_hit [of d ds f buf "frag_start f - frag_start pos"] by fastforce
    have "sum_list (map frag_size (rev left @ rest)) \<le> length sched"
      using round_decreases [OF inv hd t] Cons.prems(3) todo by simp
    with Cons.IH [of "rev left @ rest" b] loop_inv_round [OF inv hd t] Cons.prems(2)
    obtain buf' hs where "get_loop getf sched pos (rev left @ rest) b = Some (True, buf', hs)"
      by auto
    then show ?thesis using t todo sc by simp
  qed simp
qed

end

section \<open>disk_fragment keeps the contract\<close>

text \<open>
  The class invariant: the file is exactly the run \<open>[m_start, m_pos)\<close>, the pointer is at its end,
  and the bytes are those of the remote object \<open>src\<close>.
\<close>

definition df_holds :: "(int \<Rightarrow> byte) \<Rightarrow> disk_fragment \<Rightarrow> bool" where
  "df_holds src d \<longleftrightarrow>
     df_pos d = df_start d + int (length (df_file d)) \<and> df_ptr d = length (df_file d) \<and>
     (\<forall>i < length (df_file d). df_file d ! i = src (df_start d + int i))"

lemma df_holds_wf [simp]: "df_holds src d \<Longrightarrow> wf_frag (df_me d)"
  by (simp add: df_holds_def wf_frag_def df_me_def)

lemma subtract_size_card:
  assumes "wf_frag f" "wf_frag s"
  shows "sum_list (map frag_size (pieces (subtract_fragment f s))) = card (positions f - positions s)"
proof -
  have "card (positions f - positions s) = card (positions f) - card (positions f \<inter> positions s)"
    by (simp add: card_Diff_subset_Int)
  also have "\<dots> = frag_size f - frag_size (cross_fragment f s)"
    by (simp only: positions_cross [symmetric] card_positions)
  finally show ?thesis using subtract_pieces_size [OF assms] by simp
qed

lemma cross_fields:
  "frag_start (cross_fragment a b) = max (frag_start a) (frag_start b)"
  "frag_end (cross_fragment a b) = max (max (frag_start a) (frag_start b)) (min (frag_end a) (frag_end b))"
  by (simp_all add: cross_fragment_def Let_def)

lemma disk_fragment_get_data:
  assumes h: "df_holds src d" and wf: "wf_frag f"
    and g: "disk_fragment_get d buf base f = (c, left, buf')" and c: "0 \<le> c"
    and base: "0 \<le> base" "base + int (frag_size f) \<le> int (length buf)"
  shows "length buf' = length buf \<and>
    (\<forall>k < length buf. buf' ! k =
       (if frag_start f + (int k - base) \<in> positions f \<inter> positions (df_me d)
        then src (frag_start f + (int k - base)) else buf ! k))"
proof -
  define cr where "cr = cross_fragment f (df_me d)"
  define at where "at = nat (base + frag_start cr - frag_start f)"
  define n where "n = nat (frag_end cr - frag_start cr)"
  define o1 where "o1 = nat (frag_start cr - df_start d)"
  define data where "data = slice o1 n (df_file d)"
  have ne: "frag_start cr < frag_end cr" and b': "buf' = blit buf at data"
    using g c unfolding disk_fragment_get_def Let_def
    by (auto simp: cr_def at_def n_def o1_def data_def split: if_splits)
  have lo: "frag_start f \<le> frag_start cr" "df_start d \<le> frag_start cr"
    and hi: "frag_end cr \<le> frag_end f" "frag_end cr \<le> df_pos d"
    using ne by (auto simp: cr_def cross_fields df_me_def)
  have fl: "df_pos d = df_start d + int (length (df_file d))" using h by (simp add: df_holds_def)
  have ld: "length data = n"
    using lo hi ne fl by (simp add: data_def n_def o1_def)
  have room: "at + n \<le> length buf"
    using lo hi ne base wf by (auto simp: at_def n_def frag_size_def wf_frag_def)
  have mem: "frag_start f + (int k - base) \<in> positions f \<inter> positions (df_me d) \<longleftrightarrow>
      at \<le> k \<and> k < at + n" for k
    using lo ne base unfolding positions_cross [symmetric] cr_def [symmetric]
    by (auto simp: positions_def at_def n_def)
  have val: "data ! (k - at) = src (frag_start f + (int k - base))" if k: "at \<le> k" "k < at + n" for k
  proof -
    have i: "o1 + (k - at) < length (df_file d)"
      using k lo hi ne fl base by (auto simp: o1_def at_def n_def)
    have "data ! (k - at) = df_file d ! (o1 + (k - at))"
      unfolding data_def using k i by (intro slice_nth) auto
    also have "\<dots> = src (df_start d + int (o1 + (k - at)))"
      using h i by (simp add: df_holds_def)
    also have "df_start d + int (o1 + (k - at)) = frag_start f + (int k - base)"
      using k lo base by (simp add: o1_def at_def of_nat_diff)
    finally show ?thesis .
  qed
  show ?thesis
    unfolding b' mem using room ld val by (auto simp: blit_nth)
qed

interpretation disk: range_store df_me disk_fragment_get df_holds
proof
  fix d buf base f
  show "(fst (disk_fragment_get d buf base f) < 0) = (positions f \<inter> positions (df_me d) = {})"
    unfolding positions_cross [symmetric] positions_empty_iff
    by (auto simp: disk_fragment_get_def Let_def)
next
  fix src d f buf base c left buf'
  assume h: "df_holds src d" and wf: "wf_frag f"
    and g: "disk_fragment_get d buf base f = (c, left, buf')"
  have l: "left = pieces (subtract_fragment f (df_me d))"
    using g by (auto simp: disk_fragment_get_def Let_def split: if_splits)
  show "(\<Union>p \<in> set left. positions p) = positions f - positions (df_me d) \<and>
      (\<forall>p \<in> set left. frag_start p < frag_end p) \<and>
      sum_list (map frag_size left) = card (positions f - positions (df_me d))"
    using h wf subtract_positions [of f "df_me d"] subtract_pieces_wf(1) [of f "df_me d"]
      subtract_size_card [of f "df_me d"] by (auto simp: l)
qed (rule disk_fragment_get_data)

lemma get_rangeD:
  assumes "get_range fsize pos = Inr (rtn, pos')"
  shows "0 \<le> frag_start pos'" "frag_start pos' < frag_end pos'" "frag_end pos' \<le> fsize"
    "frag_start pos' = frag_start pos" "frag_end pos' = min (frag_end pos) fsize"
    "rtn = (if frag_end pos > fsize then 1 else 0)"
  using assms by (auto simp: get_range_def Let_def min_def split: if_splits)

lemma initial_loop_inv:
  assumes "get_range fsize pos = Inr (rtn, pos')" "frag_size pos' \<le> length buf"
  shows "disk.loop_inv src pos' [pos'] buf"
  using get_rangeD [OF assms(1)] assms(2) by (auto simp: disk.loop_inv_def)

text \<open>
  C2: a read from the cache returns the bytes of the remote object.  When the disk fragments hold
  parts of \<open>src\<close> in every round, whatever the workers add in between, a call of \<open>inet_file::get\<close>
  with a large enough buffer that returns 0 or 1 has put \<open>src\<close> at every position of the range it
  reports, which is the requested range cut at the file size, and left the rest of the object's
  state alone but for the access log and time.
\<close>

theorem inet_file_get_correct:
  assumes held: "\<forall>(ds, cancel) \<in> set sched. \<forall>d \<in> set ds. df_holds src d"
    and room: "nat (frag_end pos - frag_start pos) \<le> length buf"
    and ret: "inet_file_get sched tick now buf pos s = Some (rc, pos', buf', s', hs)" "0 \<le> rc"
  shows "(\<forall>x \<in> positions pos'. buf' ! nat (x - frag_start pos') = src x) \<and>
    length buf' = length buf \<and>
    positions pos' = (if 0 \<le> frag_start pos then positions pos \<inter> {..< m_filesize s} else {}) \<and>
    rc = (if m_filesize s < frag_end pos \<and> positions pos' \<noteq> {} then 1 else 0) \<and>
    m_fragments s' = m_fragments s"
proof (cases "get_range (m_filesize s) pos")
  case (Inl e)
  then show ?thesis
    using ret
    by (auto simp: inet_file_get_def get_range_def Let_def log_access_def positions_def
        split: if_splits)
next
  case (Inr e)
  obtain rtn p where e: "e = (rtn, p)" by (cases e)
  have gr: "get_range (m_filesize s) pos = Inr (rtn, p)" using Inr e by simp
  note R = get_rangeD [OF gr]
  have sz: "frag_size p \<le> length buf" using room R by (auto simp: frag_size_def min_def)
  obtain h where l: "get_loop disk_fragment_get sched p [p] buf = Some (True, buf', h)"
    and o: "rc = rtn" "pos' = p" "m_fragments s' = m_fragments s"
    using ret gr by (auto simp: inet_file_get_def Let_def log_access_def
        split: option.splits bool.splits)
  have "length buf' = length buf \<and> (\<forall>x \<in> positions p. buf' ! nat (x - frag_start p) = src x)"
    by (rule disk.get_loop_correct [OF initial_loop_inv [OF gr sz] held l])
  then show ?thesis using R o by (auto simp: positions_def)
qed

theorem inet_file_get_correct_witness:
  "inet_file_get
     [([], False), ([\<lparr>df_start = 0, df_pos = 2, df_file = [10, 11], df_ptr = 2\<rparr>,
        \<lparr>df_start = 2, df_pos = 4, df_file = [12, 13], df_ptr = 2\<rparr>], False),
      ([\<lparr>df_start = 2, df_pos = 4, df_file = [12, 13], df_ptr = 2\<rparr>], False)]
     0 0 [0, 0] \<lparr>frag_start = 1, frag_end = 3\<rparr>
     \<lparr>m_fragments = [], m_access_info = [], m_filesize = 9, m_time = 0, config_entries = []\<rparr> \<noteq> None
   \<and> positions \<lparr>frag_start = 1, frag_end = 3\<rparr> \<inter> {..< (9::int)} = positions \<lparr>frag_start = 1, frag_end = 3\<rparr>"
proof -
  let ?s = "\<lparr>m_fragments = [], m_access_info = [], m_filesize = 9, m_time = 0, config_entries = []\<rparr>"
  let ?a = "\<lparr>df_start = 0, df_pos = 2, df_file = [10, 11], df_ptr = 2\<rparr> :: disk_fragment"
  let ?b = "\<lparr>df_start = 2, df_pos = 4, df_file = [12, 13], df_ptr = 2\<rparr> :: disk_fragment"
  let ?pos = "\<lparr>frag_start = 1, frag_end = 3\<rparr> :: fragment"
  let ?src = "\<lambda>x. word_of_int (10 + x) :: byte"
  let ?sched = "[([], False), ([?a, ?b], False), ([?b], False)]"
  have run: "inet_file_get ?sched 0 0 [0, 0] ?pos ?s =
      Some (0, ?pos, [11, 12], ?s\<lparr>m_access_info := [\<lparr>dbg_frag = ?pos, dbg_type = AccRead, dbg_tick = 0\<rparr>]\<rparr>,
        [(?pos, False), (?pos, True), (?pos, False), (\<lparr>frag_start = 2, frag_end = 3\<rparr>, False)])"
    by (simp add: inet_file_get_def get_range_def log_access_def disk_fragment_get_def df_me_def
        cross_fragment_def subtract_fragment_def pieces_def blit_def slice_def Let_def)
  have h: "\<forall>(ds, cancel) \<in> set ?sched. \<forall>d \<in> set ds. df_holds ?src d"
    by (auto simp: df_holds_def less_Suc_eq numeral_2_eq_2)
  show ?thesis
    using inet_file_get_correct [OF h _ run] run by simp
qed

text \<open>
  C3: a read whose bytes are on disk ends.  If in every round the disk fragments cover the clamped
  range, as many rounds as the range has bytes are enough for \<open>inet_file::get\<close> to return, and it
  returns success.
\<close>

theorem inet_file_get_returns:
  assumes "\<forall>(ds, cancel) \<in> set sched. (\<forall>d \<in> set ds. df_holds src d) \<and>
      positions pos \<inter> {..< m_filesize s} \<subseteq> (\<Union>d \<in> set ds. positions (df_me d))"
    and "nat (frag_end pos - frag_start pos) \<le> length buf"
    and "frag_size pos \<le> length sched" and "0 \<le> frag_start pos"
  shows "\<exists>rc pos' buf' s' hs. inet_file_get sched tick now buf pos s = Some (rc, pos', buf', s', hs) \<and>
    0 \<le> rc"
proof (cases "get_range (m_filesize s) pos")
  case (Inl e)
  then show ?thesis
    using assms(4)
    by (auto simp: inet_file_get_def get_range_def Let_def split: if_splits)
next
  case (Inr e)
  obtain rtn p where e: "e = (rtn, p)" by (cases e)
  have gr: "get_range (m_filesize s) pos = Inr (rtn, p)" using Inr e by simp
  note R = get_rangeD [OF gr]
  have sz: "frag_size p \<le> length buf" "frag_size p \<le> length sched"
    using assms(2,3) R by (auto simp: frag_size_def min_def split: if_splits)
  have "positions p = positions pos \<inter> {..< m_filesize s}" using R by (auto simp: positions_def)
  then have cov: "\<forall>(ds, cancel) \<in> set sched. (\<forall>d \<in> set ds. df_holds src d) \<and>
      positions p \<subseteq> (\<Union>d \<in> set ds. positions (df_me d))"
    using assms(1) by simp
  have "sum_list (map frag_size [p]) \<le> length sched" using sz(2) by simp
  from disk.get_loop_returns [OF initial_loop_inv [OF gr sz(1)] cov this]
  obtain buf' hs where "get_loop disk_fragment_get sched p [p] buf = Some (True, buf', hs)" by blast
  then show ?thesis using gr R(6) by (simp add: inet_file_get_def Let_def)
qed

theorem inet_file_get_returns_witness:
  "\<exists>rc pos' buf' s' hs. inet_file_get [([\<lparr>df_start = 0, df_pos = 1, df_file = [7], df_ptr = 1\<rparr>], False)]
     0 0 [0] \<lparr>frag_start = 0, frag_end = 1\<rparr>
     \<lparr>m_fragments = [], m_access_info = [], m_filesize = 9, m_time = 0, config_entries = []\<rparr> =
     Some (rc, pos', buf', s', hs) \<and> 0 \<le> rc"
  by (rule inet_file_get_returns [where src = "\<lambda>_. 7"])
    (auto simp: df_holds_def positions_def df_me_def frag_size_def)

section \<open>Read-ahead\<close>

lemma subtract_each_positions:
  assumes "\<forall>f \<in> set fs. wf_frag f" "wf_frag me"
  shows "(\<Union>p \<in> set (concat (map (\<lambda>f. pieces (subtract_fragment f me)) fs)). positions p) =
      (\<Union>f \<in> set fs. positions f) - positions me \<and>
    (\<forall>p \<in> set (concat (map (\<lambda>f. pieces (subtract_fragment f me)) fs)). wf_frag p)"
  using assms
proof (induction fs)
  case (Cons f fs)
  have "(\<Union>p \<in> set (pieces (subtract_fragment f me)). positions p) = positions f - positions me"
    "\<forall>p \<in> set (pieces (subtract_fragment f me)). wf_frag p"
    using Cons.prems subtract_positions [of f me] subtract_pieces_wf(1) [of f me]
    by (auto simp: wf_frag_def less_imp_le)
  with Cons show ?case by auto
qed simp

lemma subtract_all_positions:
  assumes "\<forall>f \<in> set fs. wf_frag f" "\<forall>m \<in> set mes. wf_frag m"
  shows "(\<Union>p \<in> set (subtract_all mes fs). positions p) =
    (\<Union>f \<in> set fs. positions f) - (\<Union>m \<in> set mes. positions m)"
  using assms
proof (induction mes arbitrary: fs)
  case (Cons m mes)
  let ?fs = "concat (map (\<lambda>f. pieces (subtract_fragment f m)) fs)"
  have s: "(\<Union>p \<in> set ?fs. positions p) = (\<Union>f \<in> set fs. positions f) - positions m"
    "\<forall>p \<in> set ?fs. wf_frag p"
    using subtract_each_positions [of fs m] Cons.prems by auto
  have "subtract_all (m # mes) fs = subtract_all mes ?fs" by (simp add: subtract_all_def)
  with Cons.IH [OF s(2)] Cons.prems s(1) show ?case by (simp only:) auto
qed (simp add: subtract_all_def)

text \<open>
  C4: read-ahead asks for exactly what is missing.  The ranges \<open>pre_read\<close> hints to the workers
  hold every position of the request that no disk fragment holds, and no other; each hint allows a
  new worker.
\<close>

theorem pre_read_hints_missing:
  assumes "wf_frag pos" "\<forall>d \<in> set (m_fragments s). df_holds src d"
  shows "(\<Union>(f, open_new) \<in> set (snd (inet_file_pre_read tick pos s)). positions f) =
      positions pos - (\<Union>d \<in> set (m_fragments s). positions (df_me d)) \<and>
    (\<forall>(f, open_new) \<in> set (snd (inet_file_pre_read tick pos s)). open_new)"
proof -
  have w: "\<forall>m \<in> set (map df_me (m_fragments s)). wf_frag m" using assms(2) by auto
  have "(\<Union>p \<in> set (subtract_all (map df_me (m_fragments s)) [pos]). positions p) =
      positions pos - (\<Union>d \<in> set (m_fragments s). positions (df_me d))"
    using subtract_all_positions [of "[pos]" "map df_me (m_fragments s)"] assms(1) w by simp
  then show ?thesis by (simp add: inet_file_pre_read_def)
qed

theorem pre_read_hints_missing_witness:
  "(\<Union>(f, open_new) \<in> set (snd (inet_file_pre_read 0 \<lparr>frag_start = 0, frag_end = 3\<rparr>
      \<lparr>m_fragments = [\<lparr>df_start = 1, df_pos = 2, df_file = [7], df_ptr = 1\<rparr>],
       m_access_info = [], m_filesize = 9, m_time = 0, config_entries = []\<rparr>)). positions f) = {0, 2}"
  using pre_read_hints_missing [of "\<lparr>frag_start = 0, frag_end = 3\<rparr>"
      "\<lparr>m_fragments = [\<lparr>df_start = 1, df_pos = 2, df_file = [7], df_ptr = 1\<rparr>],
       m_access_info = [], m_filesize = 9, m_time = 0, config_entries = []\<rparr>" "\<lambda>_. 7" 0]
  by (auto simp: df_holds_def positions_def df_me_def wf_frag_def)

section \<open>Storing downloaded data\<close>

lemma disk_fragment_put_holds:
  assumes "df_holds src d" "df_pos d = p" "n \<le> length buf"
    and "\<forall>i < n. buf ! i = src (p + int i)"
  shows "df_holds src (disk_fragment_put d buf n)"
    "positions (df_me (disk_fragment_put d buf n)) = positions (df_me d) \<union> {p ..< p + int n}"
  using assms
  by (auto simp: df_holds_def disk_fragment_put_def blit_append nth_append df_me_def positions_def)

lemma remaining2_no_shift:
  assumes "wf_frag pos" "wf_frag (df_me d)" "disk_fragment_remaining2 d pos ptr = (left, ptr')"
  shows "ptr' = ptr"
proof -
  obtain c o0 o1 where s: "subtract_fragment pos (df_me d) = (c, o0, o1)"
    by (cases "subtract_fragment pos (df_me d)")
  have "c > 0 \<Longrightarrow> frag_start o0 < frag_end o0"
    using subtract_pieces_wf(1) [OF assms(1,2), of o0] s by (cases c) (auto simp: pieces_def)
  then show ?thesis using assms(3) s by (auto simp: disk_fragment_remaining2_def)
qed

text \<open>What \<open>remaining2\<close> leaves: the request itself, nothing, or its first remaining piece.\<close>

lemma remaining2_cases:
  assumes "frag_start pos < frag_end pos" "wf_frag (df_me d)"
  shows "fst (disk_fragment_remaining2 d pos ptr) =
    (if df_pos d \<le> frag_start pos \<or> frag_end pos \<le> df_start d then pos
     else if frag_start pos < df_start d then \<lparr>frag_start = frag_start pos, frag_end = df_start d\<rparr>
     else \<lparr>frag_start = min (df_pos d) (frag_end pos), frag_end = frag_end pos\<rparr>)"
proof -
  obtain s e where p: "pos = \<lparr>frag_start = s, frag_end = e\<rparr>" by (cases pos)
  have se: "s < e" "df_start d \<le> df_pos d" using assms by (simp_all add: p wf_frag_def df_me_def)
  note D = disk_fragment_remaining2_def subtract_fragment_def cross_fragment_def df_me_def Let_def p
  consider (a) "df_pos d \<le> s" | (b) "s < df_pos d" "e \<le> df_start d"
    | (c) "s < df_start d" "df_start d < e" "df_pos d < e"
    | (c') "s < df_start d" "df_start d < e" "e \<le> df_pos d"
    | (d) "df_start d \<le> s" "s < df_pos d" "df_pos d < e"
    | (d') "df_start d \<le> s" "s < df_pos d" "e \<le> df_pos d" by linarith
  then show ?thesis
  proof cases
    case a with se show ?thesis by (simp add: D)
  next
    case b with se show ?thesis by (simp add: D)
  next
    case c with se show ?thesis by (simp add: D)
  next
    case c' with se show ?thesis by (simp add: D)
  next
    case d with se show ?thesis by (simp add: D)
  next
    case d' with se show ?thesis by (simp add: D)
  qed
qed

lemma feed_scan_result:
  assumes "frag_start pos < frag_end pos" "\<forall>d \<in> set ds. wf_frag (df_me d)"
    and "feed_scan ds pos left0 0 = (left, ptr, conflit)"
  shows "ptr = 0 \<and> (if conflit then \<exists>d \<in> set ds. left = fst (disk_fragment_remaining2 d pos 0) \<and> left \<noteq> pos
     else left = (if ds = [] then left0 else pos))"
  using assms
proof (induction ds arbitrary: left0)
  case (Cons d ds)
  obtain l p where r: "disk_fragment_remaining2 d pos 0 = (l, p)" by fastforce
  have p: "p = 0" using remaining2_no_shift [OF _ _ r] Cons.prems by (simp add: wf_frag_def)
  show ?case
  proof (cases "l = pos")
    case True
    then have "feed_scan ds pos pos 0 = (left, ptr, conflit)" using Cons.prems(3) r p by simp
    from Cons.IH [OF Cons.prems(1) _ this] Cons.prems(2) show ?thesis
      by (cases ds) (auto split: if_splits)
  next
    case False
    then show ?thesis using Cons.prems(3) r p by auto
  qed
qed simp

lemma feed_scan_left:
  assumes pos: "frag_start pos < frag_end pos" and wf: "\<forall>d \<in> set ds. wf_frag (df_me d)"
    and fresh: "\<forall>d \<in> set ds. frag_start pos \<notin> positions (df_me d)"
    and sc: "feed_scan ds pos pos 0 = (left, ptr, cf)"
  shows "ptr = 0" "frag_start left = frag_start pos \<and> frag_start pos < frag_end left \<and> frag_end left \<le> frag_end pos \<and>
    (frag_end left = frag_end pos \<or> (\<exists>d \<in> set ds. frag_end left = df_start d))"
proof -
  note S = feed_scan_result [OF pos wf sc]
  show "ptr = 0"
    using S by simp
  show "frag_start left = frag_start pos \<and> frag_start pos < frag_end left \<and> frag_end left \<le> frag_end pos \<and>
    (frag_end left = frag_end pos \<or> (\<exists>d \<in> set ds. frag_end left = df_start d))"
  proof (cases cf)
    case True
    then obtain d where d: "d \<in> set ds"
      and l: "left = fst (disk_fragment_remaining2 d pos 0)" "left \<noteq> pos" using S by auto
    have "frag_start pos \<notin> positions (df_me d)" using fresh d by simp
    then show ?thesis
      using l d remaining2_cases [OF pos, of d 0] wf
      by (auto simp: positions_def df_me_def split: if_splits)
  next
    case False with S pos show ?thesis by auto
  qed
qed

lemma feed_append_Some:
  assumes "feed_append ds left data = Some ds'"
  shows "\<exists>d xs ys. ds = xs @ d # ys \<and> df_pos d = frag_start left \<and>
    ds' = xs @ disk_fragment_put d data (nat (frag_end left - frag_start left)) # ys"
  using assms
proof (induction ds arbitrary: ds')
  case (Cons d ds)
  show ?case
  proof (cases "df_pos d = frag_start left")
    case True
    with Cons.prems have "ds' = [] @ disk_fragment_put d data (nat (frag_end left - frag_start left)) # ds"
      by simp
    with True show ?thesis by (metis append_Nil)
  next
    case False
    with Cons.prems obtain r where r: "feed_append ds left data = Some r" "ds' = d # r" by auto
    from Cons.IH [OF r(1)] obtain e xs ys where
      "ds = xs @ e # ys" "df_pos e = frag_start left"
      "r = xs @ disk_fragment_put e data (nat (frag_end left - frag_start left)) # ys" by blast
    with r(2) show ?thesis by (metis append_Cons)
  qed
qed simp



text \<open>
  The hypothesis of the previous property is needed, because \<open>remaining2\<close> never moves the buffer
  pointer (its test compares \<open>o[0].start\<close> with \<open>o[0].end\<close>, and pieces are never reversed).  Feeding
  a block whose first bytes are already on disk appends the block's first bytes where its last ones
  belong: with \<open>[0, 2)\<close> of the object 10, 11, 12 on disk, feeding \<open>[1, 3)\<close> stores 11 at position 2.
\<close>

theorem feed_overlap_corrupts:
  "let src = (\<lambda>x. word_of_int (10 + x));
       s = \<lparr>m_fragments = [\<lparr>df_start = 0, df_pos = 2, df_file = [10, 11], df_ptr = 2\<rparr>],
            m_access_info = [], m_filesize = 3, m_time = 0, config_entries = []\<rparr>;
       s' = snd (inet_file_feed [] [src 1, src 2] \<lparr>frag_start = 1, frag_end = 3\<rparr> s)
   in list_all (df_holds src) (m_fragments s) \<and>
      m_fragments s' = [\<lparr>df_start = 0, df_pos = 3, df_file = [10, 11, 11], df_ptr = 3\<rparr>] \<and>
      \<not> list_all (df_holds src) (m_fragments s')"
proof -
  let ?src = "\<lambda>x. word_of_int (10 + x) :: byte"
  let ?s = "\<lparr>m_fragments = [\<lparr>df_start = 0, df_pos = 2, df_file = [10, 11], df_ptr = 2\<rparr>],
            m_access_info = [], m_filesize = 3, m_time = 0, config_entries = []\<rparr>"
  have run: "m_fragments (snd (inet_file_feed [] [11, 12] \<lparr>frag_start = 1, frag_end = 3\<rparr> ?s)) =
      [\<lparr>df_start = 0, df_pos = 3, df_file = [10, 11, 11], df_ptr = 3\<rparr>]"
    by (simp add: inet_file_feed_def disk_fragment_remaining2_def subtract_fragment_def
        cross_fragment_def df_me_def disk_fragment_put_def blit_def Let_def)
  have ok: "df_holds ?src \<lparr>df_start = 0, df_pos = 2, df_file = [10, 11], df_ptr = 2\<rparr>"
    by (auto simp: df_holds_def less_Suc_eq numeral_2_eq_2)
  have bad: "\<not> df_holds ?src \<lparr>df_start = 0, df_pos = 3, df_file = [10, 11, 11], df_ptr = 3\<rparr>"
  proof
    assume "df_holds ?src \<lparr>df_start = 0, df_pos = 3, df_file = [10, 11, 11], df_ptr = 3\<rparr>"
    then have "2 < length [10, 11, 11 :: byte] \<longrightarrow> [10, 11, 11] ! 2 = ?src (0 + int 2)"
      unfolding df_holds_def disk_fragment.simps by blast
    then show False by simp
  qed
  show ?thesis using run ok bad by (simp add: Let_def)
qed

end
