(* ===== verification/NetWorker.thy ===== *)
theory NetWorker
  imports DiskCache
begin

text \<open>
  The network side of the download cache (\<open>hookdshow/full_cache.cpp\<close>): an \<open>inet_worker\<close> downloads
  forward from a position while it is hinted, an \<open>inet_worker_manager\<close> hints the workers and opens
  new ones.

  A worker's thread is a step relation.  Its steps are the exits and the read of \<open>run()\<close>; the other
  rules are what the manager and the other workers' threads may do to its state meanwhile.  What the
  connection returns and the time are chosen by the environment.  File positions (\<open>__int64\<close>) are
  \<^typ>\<open>int\<close>; tick counts keep their 32 bits, since the code relies on their wrap-around.
\<close>

section \<open>Constants\<close>

definition PRELOADING_SIZE :: int where "PRELOADING_SIZE = 1024 * 1024"
definition BLOCK_SIZE :: int where "BLOCK_SIZE = 64 * 1024"
definition WORKER_TIMEOUT :: u32 where "WORKER_TIMEOUT = 5000"
definition WORKER_COUNT :: nat where "WORKER_COUNT = 3"

section \<open>inet_worker\<close>

record inet_worker =
  w_pos :: int              \<comment> \<open>\<open>m_pos\<close>\<close>
  w_maxpos :: int           \<comment> \<open>\<open>m_maxpos\<close>\<close>
  w_last_inet_time :: u32   \<comment> \<open>\<open>m_last_inet_time\<close>\<close>
  w_exit_signaled :: bool   \<comment> \<open>\<open>m_exit_signaled\<close>\<close>

definition inet_worker_new :: "int \<Rightarrow> u32 \<Rightarrow> inet_worker" where
  "inet_worker_new start tick =
     \<lparr>w_pos = start, w_maxpos = start + PRELOADING_SIZE, w_last_inet_time = tick,
      w_exit_signaled = False\<rparr>"

text \<open>The constructor that takes over an open connection starts at position 0.\<close>

definition inet_worker_adopt :: "u32 \<Rightarrow> inet_worker" where
  "inet_worker_adopt tick =
     \<lparr>w_pos = 0, w_maxpos = PRELOADING_SIZE, w_last_inet_time = tick, w_exit_signaled = False\<rparr>"

definition inet_worker_signal_quit :: "inet_worker \<Rightarrow> inet_worker" where
  "inet_worker_signal_quit w = w\<lparr>w_exit_signaled := True\<rparr>"

text \<open>
  \<open>max(0, m_last_inet_time + WORKER_TIMEOUT - GetTickCount())\<close> is computed in unsigned arithmetic,
  where the maximum with 0 changes nothing, and the result is then read as an \<open>int\<close>.
\<close>

definition inet_worker_get_timeout_left :: "inet_worker \<Rightarrow> u32 \<Rightarrow> int" where
  "inet_worker_get_timeout_left w tick = sint (max 0 (w_last_inet_time w + WORKER_TIMEOUT - tick))"

definition inet_worker_hint :: "int \<Rightarrow> inet_worker \<Rightarrow> inet_worker" where
  "inet_worker_hint pos w =
     w\<lparr>w_maxpos := min (max (w_maxpos w) (pos + PRELOADING_SIZE)) (w_pos w + PRELOADING_SIZE * 2)\<rparr>"

definition inet_worker_responsible :: "inet_worker \<Rightarrow> int \<Rightarrow> bool" where
  "inet_worker_responsible w pos \<longleftrightarrow> pos \<ge> w_pos w \<and> pos < w_maxpos w"

section \<open>inet_worker_manager\<close>

text \<open>The position of the least element, the first one if there are several.\<close>

fun argmin :: "int list \<Rightarrow> nat" where
  "argmin [] = 0"
| "argmin [x] = 0"
| "argmin (x # y # ys) = (let k = argmin (y # ys) in if x \<le> (y # ys) ! k then 0 else Suc k)"

text \<open>\<open>hint(void *httppost)\<close>\<close>

definition manager_adopt :: "u32 \<Rightarrow> inet_worker list \<Rightarrow> inet_worker list" where
  "manager_adopt tick ws = ws @ [inet_worker_adopt tick]"

text \<open>
  \<open>hint(fragment, bool)\<close>: the return value and the active workers.  Among the first
  \<open>WORKER_COUNT\<close> workers \<open>qsort\<close> puts one with the least time left first (the first such one here).
\<close>

definition manager_hint ::
  "u32 \<Rightarrow> fragment \<Rightarrow> bool \<Rightarrow> inet_worker list \<Rightarrow> int \<times> inet_worker list" where
  "manager_hint tick pos open_new ws =
     (let ws1 = map (\<lambda>w. inet_worker_hint (frag_end pos) (inet_worker_hint (frag_start pos) w)) ws;
          someone = (\<exists>w \<in> set ws1. inet_worker_responsible w (frag_start pos))
      in if \<not> someone \<and> \<not> open_new then (-1, ws1)
         else if \<not> someone \<and> open_new
         then let ws2 = (if length ws1 \<ge> WORKER_COUNT
                         then let k = argmin (map (\<lambda>w. inet_worker_get_timeout_left w tick)
                                                (take WORKER_COUNT ws1))
                              in ws1[k := inet_worker_signal_quit (ws1 ! k)]
                         else ws1);
                  start = cdiv (frag_start pos) BLOCK_SIZE * BLOCK_SIZE
              in (0, ws2 @ [inet_worker_new start tick])
         else (0, ws1))"

text \<open>
  \<open>inet_file::setURL\<close>, given whether a manager exists, and the code and length the server answers:
  the return value, the file and the workers.
\<close>

definition inet_file_setURL ::
  "bool \<Rightarrow> int \<Rightarrow> int \<Rightarrow> u32 \<Rightarrow> inet_file \<Rightarrow> inet_worker list \<Rightarrow> int \<times> inet_file \<times> inet_worker list" where
  "inet_file_setURL has_manager code content_length tick s ws =
     (if has_manager then (-1, s, ws)
      else if m_filesize s = 0
      then (if code < 200 \<or> code > 299 then (-2, s, [])
            else if content_length \<le> 0 then (-3, s\<lparr>m_filesize := content_length\<rparr>, [])
            else (0, s\<lparr>m_filesize := content_length\<rparr>, manager_adopt tick []))
      else (0, s, []))"

text \<open>\<open>debug\<close>: recent read-aheads, the disk fragments, the workers' positions, recent reads.\<close>

definition recent :: "u32 \<Rightarrow> access_type \<Rightarrow> debug_info \<Rightarrow> bool" where
  "recent tick ty i \<longleftrightarrow> tick - dbg_tick i < WORKER_TIMEOUT \<and> dbg_type i = ty"

definition inet_file_debug :: "u32 \<Rightarrow> inet_file \<Rightarrow> inet_worker list \<Rightarrow> debug_info list" where
  "inet_file_debug tick s ws =
     filter (recent tick AccPreread) (m_access_info s) @
     map (\<lambda>d. \<lparr>dbg_frag = df_me d, dbg_type = AccDisk, dbg_tick = 0\<rparr>) (m_fragments s) @
     map (\<lambda>w. \<lparr>dbg_frag = \<lparr>frag_start = w_pos w, frag_end = w_pos w\<rparr>, dbg_type = AccNet,
               dbg_tick = 0\<rparr>) ws @
     filter (recent tick AccRead) (m_access_info s)"

section \<open>The worker thread\<close>

datatype stop_reason = HintTimeout | NetError | DiskWall

record worker_run =
  wr_worker :: inet_worker
  wr_file :: inet_file
  wr_fed :: "fragment list"           \<comment> \<open>what it has passed to \<open>feed\<close>, oldest first\<close>
  wr_stop :: "stop_reason option"

text \<open>
  One pass of the outer loop after the inner wait: \<open>read_content\<close> gave \<open>block\<close> at time \<open>tick\<close>.
\<close>

definition worker_read :: "byte list \<Rightarrow> u32 \<Rightarrow> byte list \<Rightarrow> worker_run \<Rightarrow> worker_run" where
  "worker_read block tick old r =
     (let w = (wr_worker r)\<lparr>w_last_inet_time := tick\<rparr>;
          frag = \<lparr>frag_start = w_pos w, frag_end = w_pos w + int (length block)\<rparr>
      in if block = [] \<or> w_exit_signaled w then r\<lparr>wr_worker := w, wr_stop := Some NetError\<rparr>
         else case inet_file_feed old block frag (wr_file r) of (rc, s') \<Rightarrow>
           if rc \<noteq> 0
           then r\<lparr>wr_worker := w, wr_file := s', wr_fed := wr_fed r @ [frag], wr_stop := Some DiskWall\<rparr>
           else r\<lparr>wr_worker := w\<lparr>w_pos := w_pos w + int (length block)\<rparr>, wr_file := s',
                  wr_fed := wr_fed r @ [frag]\<rparr>)"

text \<open>The inner loop's condition: there is nothing to do for now.\<close>

definition worker_idle :: "worker_run \<Rightarrow> bool" where
  "worker_idle r \<longleftrightarrow>
     w_pos (wr_worker r) \<ge> w_maxpos (wr_worker r) \<and> \<not> w_exit_signaled (wr_worker r)"

inductive worker_step :: "nat \<Rightarrow> worker_run \<Rightarrow> worker_run \<Rightarrow> bool" for n_active :: nat where
  hinted: "wr_stop r = None \<Longrightarrow>
    worker_step n_active r (r\<lparr>wr_worker := inet_worker_hint pos (wr_worker r)\<rparr>)"
| quit: "wr_stop r = None \<Longrightarrow>
    worker_step n_active r (r\<lparr>wr_worker := inet_worker_signal_quit (wr_worker r)\<rparr>)"
| others_feed: "wr_stop r = None \<Longrightarrow> worker_step n_active r (r\<lparr>wr_file := s'\<rparr>)"
| hint_timeout: "wr_stop r = None \<Longrightarrow> worker_idle r \<Longrightarrow>
    inet_worker_get_timeout_left (wr_worker r) tick \<le> 0 \<Longrightarrow>
    worker_step n_active r (r\<lparr>wr_stop := Some HintTimeout\<rparr>)"
| read: "wr_stop r = None \<Longrightarrow>
    \<not> worker_idle r \<or>
      inet_worker_get_timeout_left (wr_worker r) tick0 > 0 \<and> \<not> n_active > 1 \<Longrightarrow>
    int (length block) \<le> BLOCK_SIZE \<Longrightarrow>
    worker_step n_active r (worker_read block tick old r)"

inductive_cases worker_stepE: "worker_step n r r'"

inductive worker_reach :: "nat \<Rightarrow> worker_run \<Rightarrow> worker_run \<Rightarrow> bool" for n_active r0 where
  start: "worker_reach n_active r0 r0"
| step: "worker_reach n_active r0 r \<Longrightarrow> worker_step n_active r r' \<Longrightarrow> worker_reach n_active r0 r'"

section \<open>Hints\<close>

lemma hint_window:
  "w_maxpos w \<le> w_pos w + 2 * PRELOADING_SIZE \<Longrightarrow>
   w_maxpos w \<le> w_maxpos (inet_worker_hint p w) \<and>
   w_maxpos (inet_worker_hint p w) \<le> w_pos w + 2 * PRELOADING_SIZE"
  by (auto simp: inet_worker_hint_def PRELOADING_SIZE_def)

lemma argmin_less: "xs \<noteq> [] \<Longrightarrow> argmin xs < length xs"
  by (induction xs rule: argmin.induct) (auto simp: Let_def)

lemma argmin_le: "x \<in> set xs \<Longrightarrow> xs ! argmin xs \<le> x"
  by (induction xs arbitrary: x rule: argmin.induct) (force simp: Let_def)+

lemma block_start:
  "0 \<le> p \<Longrightarrow> cdiv p BLOCK_SIZE * BLOCK_SIZE \<le> p \<and> p < cdiv p BLOCK_SIZE * BLOCK_SIZE + BLOCK_SIZE"
  by (simp add: BLOCK_SIZE_def) (use minus_mod_eq_div_mult [of p 65536] pos_mod_bound [of 65536 p]
      pos_mod_sign [of 65536 p] in linarith)

text \<open>The worker that is told to quit is one of those with the least time left.\<close>

lemma argmin_timeout:
  assumes "WORKER_COUNT \<le> length ws" and k: "argmin (map (\<lambda>w. inet_worker_get_timeout_left w tick) (take WORKER_COUNT ws)) = k"
  shows "k < WORKER_COUNT"
    "\<forall>j < WORKER_COUNT. inet_worker_get_timeout_left (ws ! k) tick \<le> inet_worker_get_timeout_left (ws ! j) tick"
proof -
  let ?lefts = "map (\<lambda>w. inet_worker_get_timeout_left w tick) (take WORKER_COUNT ws)"
  have "length ?lefts = WORKER_COUNT" "?lefts \<noteq> []"
    using assms(1) by (auto simp: WORKER_COUNT_def)
  then show less: "k < WORKER_COUNT"
    using argmin_less [of ?lefts] k by simp
  have "?lefts ! k \<le> ?lefts ! j" if "j < WORKER_COUNT" for j
  proof -
    have "?lefts ! j \<in> set ?lefts"
      using that assms(1) by (intro nth_mem) simp
    from argmin_le [OF this] show ?thesis
      unfolding k .
  qed
  then show "\<forall>j < WORKER_COUNT. inet_worker_get_timeout_left (ws ! k) tick \<le> inet_worker_get_timeout_left (ws ! j) tick"
    using less assms(1) by simp
qed

text \<open>The three results of a hint that may open workers.\<close>

definition hinted :: "fragment \<Rightarrow> inet_worker list \<Rightarrow> inet_worker list" where
  "hinted pos ws = map (\<lambda>w. inet_worker_hint (frag_end pos) (inet_worker_hint (frag_start pos) w)) ws"

lemma hinted_simps [simp]:
  "length (hinted pos ws) = length ws" "map w_pos (hinted pos ws) = map w_pos ws"
  "j < length ws \<Longrightarrow> inet_worker_get_timeout_left (hinted pos ws ! j) tick = inet_worker_get_timeout_left (ws ! j) tick"
  by (simp_all add: hinted_def inet_worker_hint_def inet_worker_get_timeout_left_def)

lemma manager_hint_cases:
  obtains (found) "manager_hint tick pos True ws = (0, hinted pos ws)"
    "\<exists>w \<in> set (hinted pos ws). inet_worker_responsible w (frag_start pos)"
  | (new) "manager_hint tick pos True ws =
      (0, hinted pos ws @ [inet_worker_new (cdiv (frag_start pos) BLOCK_SIZE * BLOCK_SIZE) tick])" "length ws < WORKER_COUNT"
  | (full) k where "manager_hint tick pos True ws = (0, (hinted pos ws)[k := inet_worker_signal_quit (hinted pos ws ! k)] @
      [inet_worker_new (cdiv (frag_start pos) BLOCK_SIZE * BLOCK_SIZE) tick])"
    "k < WORKER_COUNT" "WORKER_COUNT \<le> length ws"
    "\<forall>j < WORKER_COUNT. inet_worker_get_timeout_left (ws ! k) tick \<le> inet_worker_get_timeout_left (ws ! j) tick"
proof (cases "\<exists>w \<in> set (hinted pos ws). inet_worker_responsible w (frag_start pos)")
  case True
  then show thesis
    using found unfolding manager_hint_def Let_def hinted_def [symmetric] by simp
next
  case nobody: False
  show thesis
  proof (cases "WORKER_COUNT \<le> length ws")
    case False
    then show thesis
      using nobody new unfolding manager_hint_def Let_def hinted_def [symmetric] by simp
  next
    case True
    obtain k where k: "argmin (map (\<lambda>w. inet_worker_get_timeout_left w tick) (take WORKER_COUNT (hinted pos ws))) = k"
      by blast
    have run: "manager_hint tick pos True ws = (0, (hinted pos ws)[k := inet_worker_signal_quit (hinted pos ws ! k)] @
        [inet_worker_new (cdiv (frag_start pos) BLOCK_SIZE * BLOCK_SIZE) tick])"
      using nobody True unfolding manager_hint_def Let_def hinted_def [symmetric] k by simp
    show thesis
      using full [OF run] argmin_timeout [OF _ k] True by simp
  qed
qed

text \<open>
  C6: a position that is hinted with permission to open workers has a worker responsible for it
  afterwards: an active one, or a new one that starts at the beginning of the position's 64 KiB
  block; in the latter case, when the pool is full, one of the first three workers is told to quit,
  and none of them has less time left.  Workers are never removed and their positions do not move.
\<close>

theorem manager_hint_responsible:
  assumes "0 \<le> frag_start pos"
  shows "let (rc, ws') = manager_hint tick pos True ws in
    rc = 0 \<and> (\<exists>w \<in> set ws'. inet_worker_responsible w (frag_start pos)) \<and>
    map w_pos (take (length ws) ws') = map w_pos ws \<and>
    (length ws' = length ws \<or>
     length ws' = Suc (length ws) \<and>
     w_pos (last ws') \<le> frag_start pos \<and> frag_start pos < w_pos (last ws') + BLOCK_SIZE \<and>
     (length ws < WORKER_COUNT \<or>
      (\<exists>k < WORKER_COUNT. w_exit_signaled (ws' ! k) \<and>
         (\<forall>j < WORKER_COUNT. inet_worker_get_timeout_left (ws ! k) tick
                              \<le> inet_worker_get_timeout_left (ws ! j) tick))))"
proof -
  let ?new = "inet_worker_new (cdiv (frag_start pos) BLOCK_SIZE * BLOCK_SIZE) tick"
  have new: "inet_worker_responsible ?new (frag_start pos)"
    using block_start [OF assms]
    by (simp add: inet_worker_responsible_def inet_worker_new_def PRELOADING_SIZE_def BLOCK_SIZE_def)
  have up: "w_pos ?new = cdiv (frag_start pos) BLOCK_SIZE * BLOCK_SIZE"
    by (simp add: inet_worker_new_def)
  show ?thesis
  proof (cases rule: manager_hint_cases [of tick pos ws])
    case found
    then show ?thesis
      by simp
  next
    case new_worker: new
    then show ?thesis
      using new up block_start [OF assms] by simp
  next
    case (full k)
    obtain ws' where ws': "(hinted pos ws)[k := inet_worker_signal_quit (hinted pos ws ! k)] @ [?new] = ws'"
      by blast
    have "map w_pos ((hinted pos ws)[k := inet_worker_signal_quit (hinted pos ws ! k)]) = map w_pos ws"
    proof -
      have "w_pos (inet_worker_signal_quit (hinted pos ws ! k)) = map w_pos (hinted pos ws) ! k"
        using full(2,3) by (simp add: inet_worker_signal_quit_def del: hinted_simps(2))
      then show ?thesis
        by (simp add: map_update del: nth_map)
    qed
    then have ws'_facts: "map w_pos (take (length ws) ws') = map w_pos ws" "length ws' = Suc (length ws)" "last ws' = ?new" "?new \<in> set ws'"
      by (simp_all flip: ws')
    have "w_exit_signaled (ws' ! k)"
      using full(2,3) by (simp add: nth_append inet_worker_signal_quit_def flip: ws')
    then have "\<exists>k < WORKER_COUNT. w_exit_signaled (ws' ! k) \<and>
        (\<forall>j < WORKER_COUNT. inet_worker_get_timeout_left (ws ! k) tick \<le> inet_worker_get_timeout_left (ws ! j) tick)"
      using full(2,4) by blast
    moreover have "\<exists>w \<in> set ws'. inet_worker_responsible w (frag_start pos)"
      using new ws'_facts(4) by blast
    moreover have "w_pos (last ws') \<le> frag_start pos" "frag_start pos < w_pos (last ws') + BLOCK_SIZE"
      unfolding ws'_facts(3) up using block_start [OF assms] by simp_all
    ultimately show ?thesis
      unfolding full(1) ws' Let_def prod.case using ws'_facts(1,2) by blast
  qed
qed

theorem manager_hint_responsible_witness:
  "\<exists>w \<in> set (snd (manager_hint 0 \<lparr>frag_start = 70000, frag_end = 70001\<rparr> True [])).
     inet_worker_responsible w 70000"
  using manager_hint_responsible [of "\<lparr>frag_start = 70000, frag_end = 70001\<rparr>" 0 "[]"]
  by (simp add: case_prod_unfold Let_def)

section \<open>Invariants of the worker thread\<close>

text \<open>The fragments tile the range from \<open>a\<close> to \<open>b\<close>, in order.\<close>

fun tiles :: "int \<Rightarrow> fragment list \<Rightarrow> int \<Rightarrow> bool" where
  "tiles a [] b \<longleftrightarrow> a = b"
| "tiles a (f # fs) b \<longleftrightarrow> frag_start f = a \<and> a < frag_end f \<and> tiles (frag_end f) fs b"

lemma tiles_snoc: "tiles a (fs @ [f]) c \<longleftrightarrow> tiles a fs (frag_start f) \<and> frag_start f < frag_end f \<and> frag_end f = c"
  by (induction fs arbitrary: a) auto

definition worker_inv :: "nat \<Rightarrow> int \<Rightarrow> worker_run \<Rightarrow> bool" where
  "worker_inv n_active a r \<longleftrightarrow>
     (\<exists>b. tiles a (wr_fed r) b \<and> w_pos (wr_worker r) \<le> b \<and>
        (wr_stop r \<noteq> Some DiskWall \<longrightarrow> b = w_pos (wr_worker r))) \<and>
     w_maxpos (wr_worker r) \<le> w_pos (wr_worker r) + 2 * PRELOADING_SIZE \<and>
     (n_active > 1 \<longrightarrow> \<not> w_exit_signaled (wr_worker r) \<longrightarrow>
        w_pos (wr_worker r) < w_maxpos (wr_worker r) + BLOCK_SIZE)"

lemma worker_read_inv:
  assumes "worker_inv n a r" "wr_stop r = None" "int (length block) \<le> BLOCK_SIZE"
    and "\<not> worker_idle r \<or> \<not> n > 1"
  shows "worker_inv n a (worker_read block tick old r)"
  using assms
  by (auto simp: worker_inv_def worker_read_def Let_def tiles_snoc worker_idle_def split: prod.splits)

lemma worker_step_inv:
  assumes "worker_step n r r'" "worker_inv n a r"
  shows "worker_inv n a r'"
  using assms
proof (cases rule: worker_step.cases)
  case (hinted pos)
  then show ?thesis
    using assms(2) hint_window [of "wr_worker r" pos]
    by (auto simp: worker_inv_def inet_worker_hint_def)
next
  case (read tick0 block tick old)
  then show ?thesis using assms(2) by (auto intro: worker_read_inv)
qed (auto simp: worker_inv_def inet_worker_signal_quit_def)

lemma worker_reach_inv: "worker_reach n r0 r \<Longrightarrow> worker_inv n a r0 \<Longrightarrow> worker_inv n a r"
  by (induction rule: worker_reach.induct) (auto intro: worker_step_inv)



text \<open>
  The code's \<open>max(0, ...)\<close> does not keep the time left from becoming negative: it acts on an unsigned
  value.  The loop's test \<open>get_timeout_left() <= 0\<close> still works, because of the sign.
\<close>

lemma timeout_left_negative: "inet_worker_get_timeout_left (inet_worker_new 0 0) 5001 = -1"
  by (simp add: inet_worker_get_timeout_left_def inet_worker_new_def WORKER_TIMEOUT_def)

end
