(* ===== verification/BigNumber.thy ===== *)
theory BigNumber
  imports Prelude
begin

text \<open>
  The multi-precision arithmetic under the signature check (\<open>libchecksum/basicRSA.cpp\<close>).  A number
  is an array of \<open>DWORD\<close> digits, least significant first; \<open>val\<close> is its value.  The routines write
  through pointers; the model returns the arrays they leave.  \<open>HIBITMASK\<close> and the other macros have
  the values of the little-endian branch of \<open>basicRSA.h\<close>.
\<close>

unbundle bit_operations_syntax

section \<open>Numbers and digits\<close>

fun val :: "u32 list \<Rightarrow> nat" where
  "val [] = 0"
| "val (x # xs) = unat x + 2 ^ 32 * val xs"

abbreviation (input) B32 :: nat where "B32 \<equiv> 4294967296"

definition MAXIMUMNR :: u32 where "MAXIMUMNR = 0xffffffff"
definition HIBITMASK :: u32 where "HIBITMASK = 0x80000000"
definition LOHALF :: "u32 \<Rightarrow> u32" where "LOHALF x = x AND 0xffff"
definition HIHALF :: "u32 \<Rightarrow> u32" where "HIHALF x = drop_bit 16 x AND 0xffff"
definition TOHIGH :: "u32 \<Rightarrow> u32" where "TOHIGH x = push_bit 16 x"

section \<open>Addition, comparison, size\<close>

text \<open>One turn of the loop of \<open>BigNumberAdd\<close>: the digit written and the next carry.\<close>

definition add_digit :: "u32 \<Rightarrow> u32 \<Rightarrow> u32 \<Rightarrow> u32 \<times> u32" where
  "add_digit k a b =
     (let c = a + k;
          k1 = (if c \<ge> k then 0 else 1);
          c1 = c + b
      in (c1, if c1 < b then k1 + 1 else k1))"

fun add_loop :: "u32 \<Rightarrow> u32 list \<Rightarrow> u32 list \<Rightarrow> u32 list \<times> u32" where
  "add_loop k (a # as) (b # bs) =
     (let (c, k1) = add_digit k a b; (cs, k2) = add_loop k1 as bs in (c # cs, k2))"
| "add_loop k _ _ = ([], k)"

definition BigNumberAdd :: "u32 list \<Rightarrow> u32 list \<Rightarrow> u32 list \<times> u32" where
  "BigNumberAdd A B = add_loop 0 A B"

text \<open>\<open>BigNumberCompare\<close> and \<open>BigNumberSizeof\<close> run from the most significant digit down.\<close>

fun BigNumberCompare :: "u32 list \<Rightarrow> u32 list \<Rightarrow> nat \<Rightarrow> int" where
  "BigNumberCompare a b 0 = 0"
| "BigNumberCompare a b (Suc n) =
     (if a ! n > b ! n then 1 else if a ! n < b ! n then -1 else BigNumberCompare a b n)"

fun BigNumberSizeof :: "u32 list \<Rightarrow> nat \<Rightarrow> nat" where
  "BigNumberSizeof A 0 = 0"
| "BigNumberSizeof A (Suc n) = (if A ! n \<noteq> 0 then Suc n else BigNumberSizeof A n)"

section \<open>Shifts\<close>

text \<open>The mask loops: \<open>x\<close> one bits at the top, or at the bottom, of a digit.\<close>

definition left_mask :: "nat \<Rightarrow> u32" where
  "left_mask x = (if x = 0 then 0 else foldl (\<lambda>m i. drop_bit 1 m OR m) HIBITMASK [1 ..< x])"

definition right_mask :: "nat \<Rightarrow> u32" where
  "right_mask x = (if x = 0 then 0 else foldl (\<lambda>m i. push_bit 1 m OR m) 1 [1 ..< x])"

fun shl_loop :: "nat \<Rightarrow> u32 \<Rightarrow> u32 list \<Rightarrow> u32 list \<times> u32" where
  "shl_loop x carry [] = ([], carry)"
| "shl_loop x carry (b # bs) =
     (let nextcarry = drop_bit (32 - x) (b AND left_mask x);
          (as, c) = shl_loop x nextcarry bs
      in ((push_bit x b OR carry) # as, c))"

text \<open>
  For a shift of 32 or more the code returns without writing; the destination \<open>a\<close> keeps its digits.
\<close>

definition BigNumberShiftLeft :: "u32 list \<Rightarrow> u32 list \<Rightarrow> nat \<Rightarrow> u32 list \<times> u32" where
  "BigNumberShiftLeft a b x = (if x \<ge> 32 then (a, 0) else shl_loop x 0 b)"

fun shr_digit :: "nat \<Rightarrow> u32 \<Rightarrow> u32 list \<times> u32 \<Rightarrow> u32 list \<times> u32" where
  "shr_digit x b (as, carry) =
     ((drop_bit x b OR carry) # as, push_bit (32 - x) (b AND right_mask x))"

definition BigNumberShiftRight :: "u32 list \<Rightarrow> u32 list \<Rightarrow> nat \<Rightarrow> u32 list \<times> u32" where
  "BigNumberShiftRight a b x = (if x \<ge> 32 then (a, 0) else foldr (shr_digit x) b ([], 0))"

section \<open>Multiplication\<close>

text \<open>The 64-bit product, as low and high digit.\<close>

definition BigNumberMultiplyHelper :: "u32 \<Rightarrow> u32 \<Rightarrow> u32 \<times> u32" where
  "BigNumberMultiplyHelper x y =
     (let p = (ucast x :: u64) * ucast y in (ucast p, ucast (drop_bit 32 p)))"

definition mul_digit :: "u32 \<Rightarrow> u32 \<Rightarrow> u32 \<Rightarrow> u32 \<Rightarrow> u32 \<times> u32" where
  "mul_digit k a b c =
     (let (t0, t1) = BigNumberMultiplyHelper a b;
          t0 = t0 + k;
          t1 = (if t0 < k then t1 + 1 else t1);
          t0 = t0 + c;
          t1 = (if t0 < c then t1 + 1 else t1)
      in (t0, t1))"

text \<open>The inner loop, over the digits of \<open>A\<close> and the window of \<open>C\<close> they are added to.\<close>

fun mul_row :: "u32 \<Rightarrow> u32 \<Rightarrow> u32 list \<Rightarrow> u32 list \<Rightarrow> u32 list" where
  "mul_row b k (a # as) (c # cs) =
     (let (c1, k1) = mul_digit k a b c in c1 # mul_row b k1 as cs)"
| "mul_row b k _ _ = [k]"

definition mul_step :: "u32 list \<Rightarrow> u32 list \<Rightarrow> u32 list \<Rightarrow> nat \<Rightarrow> u32 list" where
  "mul_step A B C j =
     (if B ! j = 0 then C[j + length A := 0]
      else blit C j (mul_row (B ! j) 0 A (slice j (length A) C)))"

definition BigNumberMultiply :: "u32 list \<Rightarrow> u32 list \<Rightarrow> u32 list" where
  "BigNumberMultiply A B = foldl (mul_step A B) (replicate (2 * length A) 0) [0 ..< length B]"

section \<open>Squaring\<close>

text \<open>
  A partial product as three digits \<open>(p[0], p[1], k)\<close>.  \<open>acc_low\<close> adds a digit to \<open>p[0]\<close> and carries
  up to \<open>k\<close>, \<open>acc_high\<close> adds one to \<open>p[1]\<close>; \<open>twice\<close> doubles a product of two digits.
\<close>

fun acc_low :: "u32 \<Rightarrow> u32 \<times> u32 \<times> u32 \<Rightarrow> u32 \<times> u32 \<times> u32" where
  "acc_low v (p0, p1, k) =
     (if p0 + v < v then (p0 + v, p1 + 1, if p1 + 1 = 0 then k + 1 else k) else (p0 + v, p1, k))"

fun acc_high :: "u32 \<Rightarrow> u32 \<times> u32 \<times> u32 \<Rightarrow> u32 \<times> u32 \<times> u32" where
  "acc_high v (p0, p1, k) = (p0, p1 + v, if p1 + v < v then k + 1 else k)"

definition twice :: "u32 \<times> u32 \<Rightarrow> u32 \<times> u32 \<times> u32" where
  "twice p =
     (case p of (p0, p1) \<Rightarrow>
        let cbit = (if p0 AND HIBITMASK \<noteq> 0 then 1 else 0);
            k = (if p1 AND HIBITMASK \<noteq> 0 then 1 else 0)
        in (push_bit 1 p0, push_bit 1 p1 OR cbit, k))"

text \<open>
  The state of \<open>BigNumberSquare\<close>: the result \<open>w\<close>, the two digits \<open>u\<close> carried along a row, and the
  carry of the previous row, pending at position \<open>cpos + 1\<close>.
\<close>

record square_state =
  sq_w :: "u32 list"
  sq_u0 :: u32
  sq_u1 :: u32
  sq_carry :: u32

definition sq_pending :: "nat \<Rightarrow> nat \<Rightarrow> u32 \<Rightarrow> u32 \<times> u32 \<times> u32 \<Rightarrow> (u32 \<times> u32 \<times> u32) \<times> u32" where
  "sq_pending pos cpos carry p = (if pos = cpos \<and> carry \<noteq> 0 then (acc_high carry p, 0) else (p, carry))"

definition sq_put :: "nat \<Rightarrow> nat \<Rightarrow> u32 \<times> u32 \<times> u32 \<Rightarrow> square_state \<Rightarrow> square_state" where
  "sq_put pos cpos p s =
     (let (q, c) = sq_pending pos cpos (sq_carry s) p; (p0, p1, k) = q
      in s\<lparr>sq_w := (sq_w s)[pos := p0], sq_u0 := p1, sq_u1 := k, sq_carry := c\<rparr>)"

definition sq_first :: "u32 list \<Rightarrow> nat \<Rightarrow> nat \<Rightarrow> square_state \<Rightarrow> square_state" where
  "sq_first x i cpos s =
     (let (p0, p1) = BigNumberMultiplyHelper (x ! i) (x ! i);
          wi = sq_w s ! (2 * i);
          p0 = p0 + wi;
          p1 = (if p0 < wi then p1 + 1 else p1)
      in sq_put (2 * i) cpos (p0, p1, 0) s)"

definition sq_inner :: "u32 list \<Rightarrow> nat \<Rightarrow> nat \<Rightarrow> nat \<Rightarrow> square_state \<Rightarrow> square_state" where
  "sq_inner x i cpos j s =
     sq_put (i + j) cpos
       (acc_low (sq_w s ! (i + j))
         (acc_high (sq_u1 s) (acc_low (sq_u0 s) (twice (BigNumberMultiplyHelper (x ! j) (x ! i)))))) s"

fun sq_row :: "u32 list \<Rightarrow> nat \<Rightarrow> nat \<times> square_state \<Rightarrow> nat \<times> square_state" where
  "sq_row x i (cpos, s) =
     (let t = length x;
          s1 = fold (sq_inner x i cpos) [i + 1 ..< t] (sq_first x i cpos s)
      in (i + t, s1\<lparr>sq_carry := sq_u1 s1, sq_w := (sq_w s1)[i + t := sq_u0 s1]\<rparr>))"

definition BigNumberSquare :: "u32 list \<Rightarrow> u32 list" where
  "BigNumberSquare x =
     (let t = length x;
          s0 = \<lparr>sq_w = replicate (2 * t) 0, sq_u0 = 0, sq_u1 = 0, sq_carry = 0\<rparr>
      in sq_w (snd (fold (sq_row x) [0 ..< t] (2 * t - 1, s0))))"

section \<open>Values\<close>

lemma val_append: "val (xs @ ys) = val xs + 2 ^ (32 * length xs) * val ys"
  by (induction xs) (simp_all add: algebra_simps power_add)

lemma val_replicate_0 [simp]: "val (replicate n 0) = 0"
  by (induction n) simp_all

lemma unat_bound: "unat (x :: u32) < 4294967296"
  using unsigned_less [where w = x and 'a = nat] by simp

lemma val_bound: "val xs < 2 ^ (32 * length xs)"
proof (induction xs)
  case (Cons x xs)
  have "val (x # xs) < 4294967296 * (val xs + 1)" using unat_bound [of x] by simp
  also have "\<dots> \<le> 4294967296 * 2 ^ (32 * length xs)" using Cons by (intro mult_left_mono) simp_all
  finally show ?case by (simp add: power_add)
qed simp

lemma val_inj: "length xs = length ys \<Longrightarrow> val xs = val ys \<longleftrightarrow> xs = ys"
proof (induction xs ys rule: list_induct2)
  case (Cons x xs y ys)
  have "unat x + 4294967296 * val xs = unat y + 4294967296 * val ys \<longleftrightarrow>
      unat x = unat y \<and> val xs = val ys"
  proof
    assume e: "unat x + 4294967296 * val xs = unat y + 4294967296 * val ys"
    have "unat x = (unat x + 4294967296 * val xs) mod 4294967296" using unat_bound [of x] by simp
    also have "\<dots> = unat y" unfolding e using unat_bound [of y] by simp
    finally show "unat x = unat y \<and> val xs = val ys" using e by simp
  qed simp
  then show ?case using Cons by (simp add: word_unat_eq_iff)
qed simp

lemma val_take_drop: "k \<le> length xs \<Longrightarrow> val xs = val (take k xs) + 2 ^ (32 * k) * val (drop k xs)"
  by (metis append_take_drop_id length_take min.absorb2 val_append)

lemma val_snoc: "val (xs @ [x]) = val xs + 2 ^ (32 * length xs) * unat x"
  by (simp add: val_append)

lemma val_take_Suc: "k < length xs \<Longrightarrow> val (take (Suc k) xs) = val (take k xs) + 2 ^ (32 * k) * unat (xs ! k)"
  by (simp add: take_Suc_conv_app_nth val_append)

subsection \<open>Digit arithmetic\<close>

lemma unat_add_wrap: "unat ((x :: u32) + y) = (unat x + unat y) mod 4294967296"
  by (simp add: unat_word_ariths)

lemma mod_B32:
  "X < B32 \<Longrightarrow> Y < B32 \<Longrightarrow> (X + Y) mod B32 = (if X + Y < B32 then X + Y else X + Y - B32)"
  by (simp add: le_mod_geq)

lemma unat_add_if: "unat ((x :: u32) + y) =
    (if unat x + unat y < B32 then unat x + unat y else unat x + unat y - B32)"
  unfolding unat_add_wrap by (rule mod_B32) (rule unat_bound)+

lemma add_wraps: "(x :: u32) + y < y \<longleftrightarrow> B32 \<le> unat x + unat y"
  using unat_bound [of x] unat_bound [of y] unfolding word_less_nat_alt unat_add_if
  by (simp only: split: if_split) arith

lemma add_carry: "unat ((x :: u32) + y) + B32 * (if x + y < y then 1 else 0) = unat x + unat y"
  unfolding add_wraps unat_add_if by simp

lemma unat_sub_if:
  "unat ((x :: u32) - y) = (if unat x < unat y then B32 + unat x - unat y else unat x - unat y)"
  using unat_bound [of x] unat_bound [of y]
  by (simp add: unat_sub_if_size word_size) arith

lemma unat_MAXIMUMNR [simp]: "unat MAXIMUMNR = 4294967295"
  by (simp add: MAXIMUMNR_def)

lemma unat_MAX_minus: "unat (MAXIMUMNR - y) = 4294967295 - unat y"
  using unat_bound [of y] unfolding unat_sub_if unat_MAXIMUMNR by simp

lemma sub_borrows: "(x :: u32) - y > MAXIMUMNR - y \<longleftrightarrow> unat x < unat y"
  using unat_bound [of x] unat_bound [of y]
  unfolding word_less_nat_alt unat_sub_if [of x y] unat_MAX_minus
  by (simp only: split: if_split) arith

lemma sub_borrow:
  "unat ((x :: u32) - y) + unat y = unat x + B32 * (if x - y > MAXIMUMNR - y then 1 else 0)"
  unfolding sub_borrows unat_sub_if using unat_bound [of x] unat_bound [of y]
  by (simp only: split: if_split) arith

lemma unat_inc: "unat (x :: u32) + 1 < 4294967296 \<Longrightarrow> unat (x + 1) = unat x + 1"
  by (simp add: unat_add_wrap)

lemma mult_helper:
  assumes "BigNumberMultiplyHelper x y = (p0, p1)"
  shows "unat p0 + 4294967296 * unat p1 = unat x * unat y"
proof -
  let ?o = "(ucast x :: u64) * ucast y"
  have b: "unat x * unat y < 2 ^ 64"
  proof -
    have "unat x * unat y \<le> 4294967295 * 4294967295"
      using unat_bound [of x] unat_bound [of y] by (intro mult_mono) simp_all
    then show ?thesis by simp
  qed
  have o: "unat ?o = unat x * unat y"
    using b unat_bound [of x] unat_bound [of y]
    by (simp add: unat_word_ariths unsigned_ucast_eq take_bit_eq_mod mod_mult_eq)
  define h where "h = drop_bit 32 ?o"
  have h: "unat h = unat ?o div 2 ^ 32"
    unfolding h_def unsigned_drop_bit_eq unfolding drop_bit_eq_div o using b
    by (simp add: take_bit_nat_eq_self)
  have "unat h < 2 ^ 32" unfolding h o using b by (simp add: less_mult_imp_div_less)
  moreover have "p0 = ucast ?o" "p1 = ucast h"
    using assms by (simp_all add: BigNumberMultiplyHelper_def Let_def h_def)
  ultimately have "unat p0 = unat ?o mod 2 ^ 32" "unat p1 = unat h"
    by (simp_all add: unsigned_ucast_eq take_bit_eq_mod)
  then show ?thesis unfolding h o by simp
qed

subsection \<open>Addition, comparison, size\<close>

lemma add_digit_val:
  assumes "add_digit k a b = (c, k1)" "unat k \<le> 1"
  shows "unat c + B32 * unat k1 = unat a + unat b + unat k \<and> unat k1 \<le> 1"
proof -
  define x where "x = a + k"
  have c: "c = x + b" and k1: "k1 = (if c < b then (if k \<le> x then 0 else 1) + 1 else if k \<le> x then 0 else 1)"
    using assms(1) by (auto simp: add_digit_def Let_def x_def)
  have 1: "unat x + B32 * (if x < k then 1 else 0) = unat a + unat k"
    unfolding x_def by (rule add_carry)
  have 2: "unat c + B32 * (if c < b then 1 else 0) = unat x + unat b"
    unfolding c by (rule add_carry)
  have "unat x + B32 \<le> B32 \<Longrightarrow> unat x + unat b < B32" using unat_bound [of b] by simp
  moreover have "x < k \<Longrightarrow> unat x = 0" using 1 assms(2) unat_bound [of a] by simp
  ultimately have "unat k1 = (if x < k then 1 else 0) + (if c < b then 1 else 0) \<and> unat k1 \<le> 1"
    using 2 unat_bound [of b] unfolding k1 by (cases "x < k"; cases "c < b") (auto simp: not_le)
  then show ?thesis using 1 2 by simp
qed

lemma add_loop_val:
  assumes "length as = length bs" "unat k \<le> 1" "add_loop k as bs = (cs, k1)"
  shows "length cs = length as \<and> unat k1 \<le> 1 \<and>
    val cs + 2 ^ (32 * length as) * unat k1 = val as + val bs + unat k"
  using assms
proof (induction as bs arbitrary: k cs rule: list_induct2)
  case (Cons a as b bs)
  obtain c k2 where d: "add_digit k a b = (c, k2)" by (rule prod.exhaust)
  obtain cs2 k3 where l: "add_loop k2 as bs = (cs2, k3)" by (rule prod.exhaust)
  have cs: "cs = c # cs2" "k1 = k3" using Cons.prems(2) d l by auto
  note D = add_digit_val [OF d Cons.prems(1)]
  from Cons.IH [OF conjunct2 [OF D] l [folded cs(2)]] D show ?case
    unfolding cs(1) by (auto simp: power_add algebra_simps)
qed simp

lemma BigNumberAdd_val:
  "length A = length B \<Longrightarrow> BigNumberAdd A B = (C, k) \<Longrightarrow>
   length C = length A \<and> val C + 2 ^ (32 * length A) * unat k = val A + val B"
  using add_loop_val [of A B 0 C k] by (simp add: BigNumberAdd_def)

lemma BigNumberCompare_val:
  "n \<le> length a \<Longrightarrow> n \<le> length b \<Longrightarrow>
   BigNumberCompare a b n = sgn (int (val (take n a)) - int (val (take n b)))"
proof (induction n)
  case (Suc n)
  let ?p = "2 ^ (32 * n) :: nat"
  have a: "val (take (Suc n) a) = val (take n a) + ?p * unat (a ! n)"
    and b: "val (take (Suc n) b) = val (take n b) + ?p * unat (b ! n)"
    using Suc.prems by (simp_all only: val_take_Suc Suc_le_eq)
  have la: "val (take n a) < ?p" and lb: "val (take n b) < ?p"
    using val_bound [of "take n a"] val_bound [of "take n b"] Suc.prems by simp_all
  consider "unat (b ! n) < unat (a ! n)" | "unat (a ! n) < unat (b ! n)" | "a ! n = b ! n"
    by (metis linorder_neqE_nat word_unat_eq_iff)
  then show ?case
  proof cases
    case 1
    then have "?p * (unat (b ! n) + 1) \<le> ?p * unat (a ! n)" by (intro mult_left_mono) simp_all
    then have "val (take (Suc n) b) < val (take (Suc n) a)" unfolding a b using lb by simp
    then show ?thesis using 1 by (simp add: word_less_nat_alt)
  next
    case 2
    then have "?p * (unat (a ! n) + 1) \<le> ?p * unat (b ! n)" by (intro mult_left_mono) simp_all
    then have "val (take (Suc n) a) < val (take (Suc n) b)" unfolding a b using la by simp
    then show ?thesis using 2 by (simp add: word_less_nat_alt sgn_if)
  next
    case 3
    then show ?thesis using Suc a b by simp
  qed
qed simp

lemma BigNumberSizeof_le: "BigNumberSizeof A n \<le> n"
  by (induction n) auto

lemma BigNumberSizeof_top: "BigNumberSizeof A n = Suc k \<Longrightarrow> A ! k \<noteq> 0"
  by (induction n) (auto split: if_splits)

lemma BigNumberSizeof_val:
  "n \<le> length A \<Longrightarrow> val (take (BigNumberSizeof A n) A) = val (take n A)"
  by (induction n) (auto simp: val_take_Suc)

lemma BigNumberSizeof_0: "n \<le> length A \<Longrightarrow> BigNumberSizeof A n = 0 \<longleftrightarrow> val (take n A) = 0"
  by (induction n) (auto simp: val_take_Suc word_unat_eq_iff split: if_splits)

lemma BigNumberSizeof_zeros:
  "BigNumberSizeof A n \<le> k \<Longrightarrow> k < n \<Longrightarrow> A ! k = 0"
  by (induction n) (auto split: if_splits simp: less_Suc_eq)

lemma val_take_Sizeof: "val (take (BigNumberSizeof A (length A)) A) = val A"
  using BigNumberSizeof_val [of "length A" A] by simp

subsection \<open>Shifts\<close>

lemma bit_HIBITMASK: "bit HIBITMASK n \<longleftrightarrow> n = 31"
proof -
  have e: "HIBITMASK = push_bit 31 1" by (simp add: HIBITMASK_def push_bit_eq_mult)
  show ?thesis unfolding e bit_push_bit_iff bit_1_iff by auto
qed

lemma bit_left_mask: "0 < x \<Longrightarrow> x < 32 \<Longrightarrow> bit (left_mask x) n \<longleftrightarrow> 32 - x \<le> n \<and> n < 32"
proof (induction x arbitrary: n)
  case (Suc x)
  show ?case
  proof (cases x)
    case 0
    then show ?thesis by (auto simp: left_mask_def bit_HIBITMASK)
  next
    case (Suc y)
    then have "left_mask (Suc x) = drop_bit 1 (left_mask x) OR left_mask x"
      by (simp add: left_mask_def)
    then show ?thesis
      using Suc.IH [of n] Suc.IH [of "1 + n"] Suc \<open>Suc x < 32\<close>
      by (auto simp: bit_or_iff bit_drop_bit_eq)
  qed
qed simp

lemma bit_right_mask: "x < 32 \<Longrightarrow> bit (right_mask x) n \<longleftrightarrow> n < x"
proof (induction x arbitrary: n)
  case (Suc x)
  show ?case
  proof (cases x)
    case 0
    then show ?thesis by (auto simp: right_mask_def bit_1_iff)
  next
    case (Suc y)
    then have e: "right_mask (Suc x) = push_bit 1 (right_mask x) OR right_mask x"
      by (simp add: right_mask_def)
    show ?thesis
      unfolding e bit_or_iff bit_push_bit_iff
      using Suc.IH [of n] Suc.IH [of "n - 1"] Suc \<open>Suc x < 32\<close> by auto
  qed
qed (simp add: right_mask_def)

lemma left_carry:
  assumes "x < 32"
  shows "drop_bit (32 - x) (b AND left_mask x) = drop_bit (32 - x) (b :: u32)"
proof (cases "x = 0")
  case True
  then show ?thesis by (intro bit_word_eqI) (auto simp: bit_drop_bit_eq left_mask_def bit_and_iff
      dest: bit_imp_le_length)
next
  case False
  then show ?thesis
    using bit_left_mask [of x] bit_imp_le_length [of b] assms
    by (intro bit_word_eqI) (fastforce simp: bit_drop_bit_eq bit_and_iff)
qed

lemma right_carry: "x < 32 \<Longrightarrow> push_bit (32 - x) (b AND right_mask x) = push_bit (32 - x) (b :: u32)"
  by (intro bit_word_eqI) (auto simp: bit_push_bit_iff bit_and_iff bit_right_mask)

lemma bit_below: "unat (c :: u32) < 2 ^ x \<Longrightarrow> bit c n \<Longrightarrow> n < x"
proof -
  assume "unat c < 2 ^ x" "bit c n"
  then have "bit (take_bit x (unat c)) n"
    using bit_imp_le_length [of c n] by (simp add: take_bit_nat_eq_self bit_unsigned_iff)
  then show "n < x" by (simp add: bit_take_bit_iff)
qed

lemma shift_or_add:
  "unat (c :: u32) < 2 ^ x \<Longrightarrow> push_bit x b OR c = push_bit x b + c"
  by (rule disjunctive_add [symmetric]) (auto simp: bit_push_bit_iff dest: bit_below)

lemma unat_power_lower_mod: "unat ((2 :: u32) ^ x) = 2 ^ x mod B32"
  using unat_of_nat [of "2 ^ x", where ?'a = 32] by simp

lemma unat_push_bit32: "unat (push_bit x (b :: u32)) = (unat b * 2 ^ x) mod B32"
  unfolding push_bit_eq_mult unat_word_ariths
  by (simp add: mod_mult_right_eq unat_power_lower_mod)

lemma unat_drop_bit32: "unat (drop_bit x (b :: u32)) = unat b div 2 ^ x"
proof -
  have "take_bit 32 (unat b) = unat b" using unat_bound [of b] by (simp add: take_bit_nat_eq_self)
  then show ?thesis unfolding unsigned_drop_bit_eq by (simp add: drop_bit_eq_div)
qed

lemma split_digit:
  assumes "x \<le> 32"
  shows "unat b * 2 ^ x = B32 * (unat b div 2 ^ (32 - x)) + (unat (b :: u32) mod 2 ^ (32 - x)) * 2 ^ x"
    "(unat b mod 2 ^ (32 - x)) * 2 ^ x + 2 ^ x \<le> B32"
proof -
  have p: "(2 :: nat) ^ (32 - x) * 2 ^ x = B32"
    unfolding power_add [symmetric] using assms by simp
  have "unat b * 2 ^ x = (2 ^ (32 - x) * (unat b div 2 ^ (32 - x)) + unat b mod 2 ^ (32 - x)) * 2 ^ x"
    by simp
  then show "unat b * 2 ^ x = B32 * (unat b div 2 ^ (32 - x)) + (unat b mod 2 ^ (32 - x)) * 2 ^ x"
    unfolding add_mult_distrib p [symmetric] by (simp add: mult.commute mult.left_commute)
  have "(unat b mod 2 ^ (32 - x) + 1) * 2 ^ x \<le> 2 ^ (32 - x) * 2 ^ x"
    by (intro mult_right_mono) (simp_all add: Suc_leI)
  then show "(unat b mod 2 ^ (32 - x)) * 2 ^ x + 2 ^ x \<le> B32" unfolding p by simp
qed

lemma shl_digit:
  assumes "x < 32" "unat (c :: u32) < 2 ^ x"
  shows "unat (push_bit x b OR c) + B32 * unat (drop_bit (32 - x) (b :: u32)) = 2 ^ x * unat b + unat c"
    "unat (drop_bit (32 - x) b) < 2 ^ x"
proof -
  let ?m = "unat b mod 2 ^ (32 - x)"
  have s: "unat b * 2 ^ x = B32 * (unat b div 2 ^ (32 - x)) + ?m * 2 ^ x"
    and l: "?m * 2 ^ x + 2 ^ x \<le> B32"
    using split_digit [of x b] assms(1) by simp_all
  have "?m * 2 ^ x < B32" using l by (smt (verit) le_eq_less_or_eq less_add_same_cancel1 less_le_trans zero_less_numeral zero_less_power)
  then have "unat (push_bit x b) = ?m * 2 ^ x"
    unfolding unat_push_bit32 s by simp
  then have "unat (push_bit x b OR c) = ?m * 2 ^ x + unat c"
    unfolding shift_or_add [OF assms(2)] unat_add_if using l assms(2) by simp
  then show "unat (push_bit x b OR c) + B32 * unat (drop_bit (32 - x) b) = 2 ^ x * unat b + unat c"
    unfolding unat_drop_bit32 using s by (simp add: mult.commute)
  have "unat b < 2 ^ x * 2 ^ (32 - x)"
    unfolding power_add [symmetric] using unat_bound [of b] assms(1) by simp
  then show "unat (drop_bit (32 - x) b) < 2 ^ x"
    unfolding unat_drop_bit32 by (simp add: less_mult_imp_div_less)
qed

lemma shl_loop_val:
  assumes "x < 32" "unat c < 2 ^ x" "shl_loop x c bs = (as, k)"
  shows "length as = length bs \<and> unat k < 2 ^ x \<and>
    val as + 2 ^ (32 * length bs) * unat k = 2 ^ x * val bs + unat c"
  using assms(2,3)
proof (induction bs arbitrary: c as)
  case (Cons b bs)
  obtain as2 k2 where l: "shl_loop x (drop_bit (32 - x) b) bs = (as2, k2)" by (rule prod.exhaust)
  have as: "as = (push_bit x b OR c) # as2" "k2 = k"
    using Cons.prems(2) unfolding shl_loop.simps left_carry [OF assms(1)] Let_def l by simp_all
  note d = shl_digit [OF assms(1) Cons.prems(1), of b]
  from Cons.IH [OF d(2) l [unfolded as(2)]] d(1) show ?case
    unfolding as by (simp add: power_add algebra_simps)
qed simp

lemma ShiftLeft_val:
  assumes "x < 32" "BigNumberShiftLeft a b x = (as, k)"
  shows "length as = length b" "unat k < 2 ^ x" "val as + 2 ^ (32 * length b) * unat k = 2 ^ x * val b"
  using shl_loop_val [OF assms(1), of 0 b as k] assms by (simp_all add: BigNumberShiftLeft_def)

lemma shr_digit_val:
  assumes "x < 32" "unat c = (V mod 2 ^ x) * 2 ^ (32 - x)"
  shows "unat (drop_bit x b OR c) + B32 * (V div 2 ^ x) = (unat (b :: u32) + B32 * V) div 2 ^ x"
    "unat (push_bit (32 - x) b) = ((unat b + B32 * V) mod 2 ^ x) * 2 ^ (32 - x)"
proof -
  let ?p = "2 ^ (32 - x) :: nat" and ?q = "2 ^ x :: nat"
  have p: "B32 = ?q * ?p"
    unfolding power_add [symmetric] using assms(1) by simp
  have "32 - x \<le> 32" by simp
  note s = split_digit [OF this, of b]
  have x: "32 - (32 - x) = x" using assms(1) by simp
  have "0 < ?p" by simp
  then have less: "(unat b mod ?q) * ?p < B32" using s(2) unfolding x by linarith
  have "unat (push_bit (32 - x) b) = (unat b mod ?q) * ?p"
    unfolding unat_push_bit32 s(1) x using less by simp
  then show "unat (push_bit (32 - x) b) = ((unat b + B32 * V) mod ?q) * ?p"
    unfolding p by (simp add: mult.assoc)
  have V: "B32 * V = ?q * (B32 * (V div ?q)) + ?q * (?p * (V mod ?q))"
  proof -
    have "B32 * V = B32 * (?q * (V div ?q) + V mod ?q)" by simp
    then show ?thesis unfolding add_mult_distrib2 p by (simp add: algebra_simps)
  qed
  have d: "(unat b + B32 * V) div ?q = unat b div ?q + (B32 * (V div ?q) + ?p * (V mod ?q))"
    unfolding V add_mult_distrib2 [symmetric] by (subst div_mult_self2) simp_all
  have "unat (drop_bit x b) < ?p"
    unfolding unat_drop_bit32 using unat_bound [of b] p by (simp add: less_mult_imp_div_less mult.commute)
  moreover have "\<not> bit c n" if "n < 32 - x" for n
  proof -
    have "unat c = push_bit (32 - x) (V mod ?q)" by (simp add: assms(2) push_bit_eq_mult)
    then have "\<not> bit (unat c) n" using that by (simp add: bit_push_bit_iff)
    then show ?thesis using that by (simp add: bit_unsigned_iff)
  qed
  ultimately have "drop_bit x b OR c = drop_bit x b + c"
    by (intro disjunctive_add [symmetric]) (metis bit_below)
  moreover have "unat (drop_bit x b) + unat c < B32"
  proof -
    have "(V mod ?q + 1) * ?p \<le> ?q * ?p" by (intro mult_right_mono) (simp_all add: Suc_leI)
    then show ?thesis using \<open>unat (drop_bit x b) < ?p\<close> unfolding p assms(2) by simp
  qed
  ultimately have "unat (drop_bit x b OR c) = unat b div ?q + ?p * (V mod ?q)"
    by (simp add: unat_add_if unat_drop_bit32 assms(2) mult.commute)
  then show "unat (drop_bit x b OR c) + B32 * (V div ?q) = (unat b + B32 * V) div ?q"
    unfolding d by simp
qed

lemma shr_val:
  assumes "x < 32" "foldr (shr_digit x) b ([], 0) = (as, c)"
  shows "length as = length b \<and> val as = val b div 2 ^ x \<and> unat c = (val b mod 2 ^ x) * 2 ^ (32 - x)"
  using assms(2)
proof (induction b arbitrary: as c)
  case (Cons b bs)
  obtain as2 k2 where l: "foldr (shr_digit x) bs ([], 0) = (as2, k2)" by (rule prod.exhaust)
  have as: "as = (drop_bit x b OR k2) # as2" "c = push_bit (32 - x) b"
    using Cons.prems unfolding foldr.simps o_apply l shr_digit.simps right_carry [OF assms(1)]
    by simp_all
  note I = Cons.IH [OF l]
  note d = shr_digit_val [OF assms(1), of k2 "val bs" b]
  show ?case unfolding as using I d by simp
qed simp

lemma ShiftRight_val:
  assumes "x < 32" "BigNumberShiftRight a b x = (as, c)"
  shows "length as = length b" "val as = val b div 2 ^ x"
  using shr_val [OF assms(1), of b as c] assms by (simp_all add: BigNumberShiftRight_def)

subsection \<open>Multiplication\<close>

lemma digit_lim: "r + B32 * t = s \<Longrightarrow> s < B32 * B32 \<Longrightarrow> t < B32"
  by linarith

lemma mul_digit_val:
  assumes "mul_digit k a b c = (r, k1)"
  shows "unat r + B32 * unat k1 = unat a * unat b + unat c + unat k"
proof -
  obtain p0 p1 where p: "BigNumberMultiplyHelper a b = (p0, p1)" by (rule prod.exhaust)
  note pv = mult_helper [OF p]
  define x where "x = p0 + k"
  define t where "t = (if x < k then p1 + 1 else p1)"
  have r: "r = x + c" and k1: "k1 = (if x + c < c then t + 1 else t)"
    using assms [symmetric] unfolding mul_digit_def p prod.case Let_def x_def t_def by (simp_all only: prod.inject)
  have 1: "unat x + B32 * (if x < k then 1 else 0) = unat p0 + unat k"
    unfolding x_def by (rule add_carry)
  have 2: "unat r + B32 * (if x + c < c then 1 else 0) = unat x + unat c"
    unfolding r by (rule add_carry)
  have ab: "unat a * unat b \<le> 4294967295 * 4294967295"
    using unat_bound [of a] unat_bound [of b] by (intro mult_mono) simp_all
  have total: "unat r + B32 * (unat p1 + (if x < k then 1 else 0) + (if x + c < c then 1 else 0)) =
      unat a * unat b + unat c + unat k"
    using 1 2 pv by (simp only: add_mult_distrib2)
  have "unat a * unat b + unat c + unat k < B32 * B32"
    using ab unat_bound [of c] unat_bound [of k] by simp
  then have lim: "unat p1 + (if x < k then 1 else 0) + (if x + c < c then 1 else 0) < B32"
    by (rule digit_lim [OF total])
  have "unat t = unat p1 + (if x < k then 1 else 0)"
    unfolding t_def using lim by (cases "x < k") (simp_all add: unat_inc)
  then have "unat k1 = unat p1 + (if x < k then 1 else 0) + (if x + c < c then 1 else 0)"
    unfolding k1 using lim by (cases "x + c < c") (simp_all add: unat_inc)
  then show ?thesis using total by simp
qed

lemma mul_row_val:
  "length as = length cs \<Longrightarrow>
   length (mul_row b k as cs) = Suc (length as) \<and>
   val (mul_row b k as cs) = unat b * val as + val cs + unat k"
proof (induction as cs arbitrary: k rule: list_induct2)
  case (Cons a as c cs)
  obtain c1 k1 where d: "mul_digit k a b c = (c1, k1)" by (rule prod.exhaust)
  show ?case
    using Cons.IH [of k1] mul_digit_val [OF d] by (simp add: d algebra_simps)
qed simp

lemma val_blit:
  assumes "i + length b \<le> length a"
  shows "val (blit a i b) + 2 ^ (32 * i) * val (slice i (length b) a) = val a + 2 ^ (32 * i) * val b"
proof -
  have a: "a = take i a @ slice i (length b) a @ drop (i + length b) a"
    unfolding slice_def by (metis add.commute append_take_drop_id drop_drop)
  have li: "length (take i a) = i" "length (slice i (length b) a) = length b"
    using assms by (simp_all)
  have "val a = val (take i a) + 2 ^ (32 * i) * (val (slice i (length b) a) +
      2 ^ (32 * length b) * val (drop (i + length b) a))"
    by (subst a) (simp only: val_append li)
  moreover have "val (blit a i b) = val (take i a) + 2 ^ (32 * i) * (val b +
      2 ^ (32 * length b) * val (drop (i + length b) a))"
    unfolding blit_def by (simp only: val_append li)
  ultimately show ?thesis by (simp add: algebra_simps)
qed

lemma val_zeros: "list_all (\<lambda>x. x = 0) xs \<Longrightarrow> val xs = 0"
  by (induction xs) auto

lemma mul_step_val:
  assumes "length C = length A + length B" "j < length B" "drop (j + length A) C = replicate (length B - j) 0"
    "val C = val A * val (take j B)"
  shows "length (mul_step A B C j) = length C \<and>
    drop (Suc j + length A) (mul_step A B C j) = replicate (length B - Suc j) 0 \<and>
    val (mul_step A B C j) = val A * val (take (Suc j) B)"
proof -
  let ?m = "length A"
  have Bj: "val (take (Suc j) B) = val (take j B) + 2 ^ (32 * j) * unat (B ! j)"
    using assms(2) by (rule val_take_Suc)
  have nz: "C ! (j + ?m) = 0"
    using assms(1-3) nth_via_drop [of "j + ?m" C] Suc_diff_Suc [OF assms(2)]
    by (metis replicate_Suc)
  have dz: "drop (Suc j + ?m) C = replicate (length B - Suc j) 0"
    using arg_cong [OF assms(3), of tl] Suc_diff_Suc [OF assms(2), symmetric]
    by (simp add: tl_drop [symmetric] drop_Suc)
  show ?thesis
  proof (cases "B ! j = 0")
    case True
    have "mul_step A B C j = C[j + ?m := C ! (j + ?m)]" using True nz by (simp add: mul_step_def)
    then have "mul_step A B C j = C" by simp
    then show ?thesis using True dz Bj assms(4) by simp
  next
    case False
    define row where "row = mul_row (B ! j) 0 A (slice j ?m C)"
    have ls: "length (slice j ?m C) = ?m" using assms(1,2) by simp
    have row: "length row = Suc ?m" "val row = unat (B ! j) * val A + val (slice j ?m C)"
      using mul_row_val [OF ls [symmetric]] by (simp_all add: row_def)
    have e: "mul_step A B C j = blit C j row" using False by (simp add: mul_step_def row_def)
    have fits: "j + length row \<le> length C" using assms(1,2) row(1) by simp
    have "slice j (Suc ?m) C = slice j ?m C @ [C ! (j + ?m)]"
      unfolding slice_def using assms(1,2) by (simp add: take_Suc_conv_app_nth)
    then have "val (slice j (length row) C) = val (slice j ?m C)"
      by (simp add: row(1) val_append nz)
    then have v: "val (blit C j row) = val A * val (take (Suc j) B)"
      using val_blit [OF fits] unfolding row(2) Bj assms(4) by (simp add: algebra_simps)
    have "drop (Suc j + ?m) (blit C j row) = drop (Suc j + ?m) C"
      unfolding blit_def using fits row(1) assms(1,2) by simp
    then show ?thesis unfolding e using v dz fits by simp
  qed
qed

lemma BigNumberMultiply_val:
  assumes "length A = length B"
  shows "length (BigNumberMultiply A B) = 2 * length A" "val (BigNumberMultiply A B) = val A * val B"
proof -
  let ?C = "\<lambda>j. foldl (mul_step A B) (replicate (2 * length A) 0) [0 ..< j]"
  have "j \<le> length B \<Longrightarrow> length (?C j) = length A + length B \<and>
      drop (j + length A) (?C j) = replicate (length B - j) 0 \<and> val (?C j) = val A * val (take j B)" for j
  proof (induction j)
    case 0
    then show ?case using assms by simp
  next
    case (Suc j)
    then show ?case using mul_step_val [of "?C j" A B j] by simp
  qed
  from this [of "length B"] assms
  show "length (BigNumberMultiply A B) = 2 * length A" "val (BigNumberMultiply A B) = val A * val B"
    by (simp_all add: BigNumberMultiply_def)
qed

subsection \<open>Squaring\<close>

fun val3 :: "u32 \<times> u32 \<times> u32 \<Rightarrow> nat" where
  "val3 (p0, p1, k) = unat p0 + B32 * unat p1 + B32 * B32 * unat k"

fun top3 :: "u32 \<times> u32 \<times> u32 \<Rightarrow> nat" where
  "top3 (p0, p1, k) = unat k"

lemma wraps_to_0: "(x :: u32) + 1 = 0 \<longleftrightarrow> unat x + 1 = B32"
  using unat_bound [of x] by (simp add: word_unat_eq_iff unat_add_if)

lemma acc_low_val:
  assumes "top3 p < 100"
  shows "val3 (acc_low v p) = val3 p + unat v \<and> top3 (acc_low v p) \<le> top3 p + 1"
proof -
  obtain p0 p1 k where p: "p = (p0, p1, k)" by (cases p)
  have k: "unat (k + 1) = unat k + 1" using assms p by (simp add: unat_inc)
  note c = add_carry [of p0 v]
  have o: "unat (p1 + 1) + B32 * (if p1 + 1 = 0 then 1 else 0) = unat p1 + 1"
    unfolding wraps_to_0 using unat_bound [of p1] by (simp add: unat_add_if)
  show ?thesis
  proof (cases "p0 + v < v")
    case True
    then show ?thesis using c o k unfolding p by (cases "p1 + 1 = 0") simp_all
  next
    case False
    then show ?thesis using c unfolding p by simp
  qed
qed

lemma acc_high_val:
  assumes "top3 p < 100"
  shows "val3 (acc_high v p) = val3 p + B32 * unat v \<and> top3 (acc_high v p) \<le> top3 p + 1"
proof -
  obtain p0 p1 k where p: "p = (p0, p1, k)" by (cases p)
  have k: "unat (k + 1) = unat k + 1" using assms p by (simp add: unat_inc)
  note c = add_carry [of p1 v]
  show ?thesis using c k unfolding p by (cases "p1 + v < v") simp_all
qed

lemma and_HIBITMASK: "(p AND HIBITMASK \<noteq> 0) \<longleftrightarrow> bit p 31"
proof -
  have "p AND HIBITMASK = (if bit p 31 then HIBITMASK else 0)"
    by (rule bit_word_eqI) (auto simp: bit_and_iff bit_HIBITMASK)
  moreover have "HIBITMASK \<noteq> 0" by (simp add: HIBITMASK_def)
  ultimately show ?thesis by simp
qed

lemma top_bit: "(if bit (p :: u32) 31 then 1 else 0) = unat (drop_bit 31 p)"
proof -
  have "unat p div 2147483648 < 2" using unat_bound [of p] by simp
  moreover have "bit p 31 = odd (unat p div 2147483648)"
  proof -
    have "bit p 31 = bit (unat p) 31" by (simp add: bit_unsigned_iff)
    then show ?thesis by (simp add: bit_iff_odd)
  qed
  ultimately show ?thesis unfolding unat_drop_bit32 by (auto simp: less_2_cases_iff)
qed

lemma twice_val: "val3 (twice (p0, p1)) = 2 * (unat p0 + B32 * unat p1) \<and> top3 (twice (p0, p1)) \<le> 1"
proof -
  define c where "c = (if bit p0 31 then 1 else 0 :: u32)"
  define k where "k = (if bit p1 31 then 1 else 0 :: u32)"
  have t: "twice (p0, p1) = (push_bit 1 p0 OR 0, push_bit 1 p1 OR c, k)"
    by (simp add: twice_def and_HIBITMASK Let_def c_def k_def)
  have ck: "unat c = unat (drop_bit 31 p0)" "unat k = unat (drop_bit 31 p1)"
    unfolding top_bit [symmetric] by (simp_all add: c_def k_def)
  have lim: "unat c < 2 ^ 1" "unat (0 :: u32) < 2 ^ 1" by (simp_all add: c_def)
  have "unat (push_bit 1 p0 OR 0) + B32 * unat c = 2 * unat p0"
    unfolding ck using shl_digit(1) [OF _ lim(2), of p0] by simp
  moreover have "unat (push_bit 1 p1 OR c) + B32 * unat k = 2 * unat p1 + unat c"
    unfolding ck(2) using shl_digit(1) [OF _ lim(1), of p1] by simp
  moreover have "unat k \<le> 1" by (simp add: k_def)
  ultimately show ?thesis unfolding t by simp
qed

lemma sq_pending_val:
  assumes "top3 p < 100" "sq_pending pos cpos carry p = (q, c)"
  shows "2 ^ (32 * pos) * val3 q + 2 ^ (32 * (cpos + 1)) * unat c =
    2 ^ (32 * pos) * val3 p + 2 ^ (32 * (cpos + 1)) * unat carry"
    "pos = cpos \<Longrightarrow> c = 0" "carry = 0 \<Longrightarrow> c = 0"
  using assms acc_high_val [of p carry]
  by (auto simp: sq_pending_def add_mult_distrib2 power_add split: if_splits)

text \<open>What the state of a row stands for when position \<open>pos\<close> is next.\<close>

definition sq_total :: "nat \<Rightarrow> nat \<Rightarrow> square_state \<Rightarrow> nat" where
  "sq_total pos cpos s =
     val (sq_w s) + 2 ^ (32 * pos) * (unat (sq_u0 s) + B32 * unat (sq_u1 s)) +
     2 ^ (32 * (cpos + 1)) * unat (sq_carry s)"

lemma val_update:
  "i < length w \<Longrightarrow> val (w[i := d]) + 2 ^ (32 * i) * unat (w ! i) = val w + 2 ^ (32 * i) * unat d"
proof (induction w arbitrary: i)
  case (Cons x w)
  show ?case
  proof (cases i)
    case (Suc k)
    then show ?thesis using Cons.IH [of k] Cons.prems by (simp add: power_add algebra_simps)
  qed simp
qed simp

lemma sq_put_total:
  assumes "top3 p < 100" "pos < length (sq_w s)"
  shows "sq_total (pos + 1) cpos (sq_put pos cpos p s) + 2 ^ (32 * pos) * unat (sq_w s ! pos) =
      val (sq_w s) + 2 ^ (32 * pos) * val3 p + 2 ^ (32 * (cpos + 1)) * unat (sq_carry s)"
    "length (sq_w (sq_put pos cpos p s)) = length (sq_w s)"
    "drop (pos + 1) (sq_w (sq_put pos cpos p s)) = drop (pos + 1) (sq_w s)"
    "pos = cpos \<Longrightarrow> sq_carry (sq_put pos cpos p s) = 0"
    "sq_carry s = 0 \<Longrightarrow> sq_carry (sq_put pos cpos p s) = 0"
proof -
  obtain q c where q: "sq_pending pos cpos (sq_carry s) p = (q, c)" by (rule prod.exhaust)
  obtain p0 p1 k where q3: "q = (p0, p1, k)" by (cases q)
  have e: "sq_put pos cpos p s = s\<lparr>sq_w := (sq_w s)[pos := p0], sq_u0 := p1, sq_u1 := k, sq_carry := c\<rparr>"
    by (simp add: sq_put_def q q3)
  have sel: "sq_w (sq_put pos cpos p s) = (sq_w s)[pos := p0]" "sq_u0 (sq_put pos cpos p s) = p1"
    "sq_u1 (sq_put pos cpos p s) = k" "sq_carry (sq_put pos cpos p s) = c"
    unfolding e by simp_all
  note v = sq_pending_val [OF assms(1) q]
  have w: "val ((sq_w s)[pos := p0]) + 2 ^ (32 * pos) * unat (sq_w s ! pos) =
      val (sq_w s) + 2 ^ (32 * pos) * unat p0"
    using assms(2) by (rule val_update)
  have "2 ^ (32 * pos) * val3 q = 2 ^ (32 * pos) * unat p0 + 2 ^ (32 * (pos + 1)) * (unat p1 + B32 * unat k)"
    unfolding q3 by (simp add: power_add add_mult_distrib2)
  then show "sq_total (pos + 1) cpos (sq_put pos cpos p s) + 2 ^ (32 * pos) * unat (sq_w s ! pos) =
      val (sq_w s) + 2 ^ (32 * pos) * val3 p + 2 ^ (32 * (cpos + 1)) * unat (sq_carry s)"
    using v(1) w unfolding sq_total_def sel by linarith
  show "length (sq_w (sq_put pos cpos p s)) = length (sq_w s)"
    "drop (pos + 1) (sq_w (sq_put pos cpos p s)) = drop (pos + 1) (sq_w s)" by (simp_all add: e)
  show "pos = cpos \<Longrightarrow> sq_carry (sq_put pos cpos p s) = 0"
    "sq_carry s = 0 \<Longrightarrow> sq_carry (sq_put pos cpos p s) = 0" using v(2,3) unfolding sel by simp_all
qed

lemma sq_inner_digit:
  "val3 (acc_low w (acc_high u1 (acc_low u0 (twice (BigNumberMultiplyHelper a b))))) =
     2 * (unat a * unat b) + unat u0 + B32 * unat u1 + unat w \<and>
   top3 (acc_low w (acc_high u1 (acc_low u0 (twice (BigNumberMultiplyHelper a b))))) < 100"
proof -
  obtain p0 p1 where p: "BigNumberMultiplyHelper a b = (p0, p1)" by (rule prod.exhaust)
  note t = twice_val [of p0 p1] and m = mult_helper [OF p]
  have 1: "top3 (twice (p0, p1)) < 100" using t by simp
  note a1 = acc_low_val [OF 1, of u0]
  have 2: "top3 (acc_low u0 (twice (p0, p1))) < 100" using a1 t by simp
  note a2 = acc_high_val [OF 2, of u1]
  have 3: "top3 (acc_high u1 (acc_low u0 (twice (p0, p1)))) < 100" using a1 a2 t by simp
  note a3 = acc_low_val [OF 3, of w]
  show ?thesis unfolding p using a1 a2 a3 t m by simp
qed

lemma sq_inner_total:
  assumes "i + j < length (sq_w s)"
  shows "sq_total (i + j + 1) cpos (sq_inner x i cpos j s) =
    sq_total (i + j) cpos s + 2 ^ (32 * (i + j)) * (2 * (unat (x ! j) * unat (x ! i)))"
proof -
  note d = sq_inner_digit [of "sq_w s ! (i + j)" "sq_u1 s" "sq_u0 s" "x ! j" "x ! i"]
  show ?thesis
    using sq_put_total(1) [OF conjunct2 [OF d] assms, of cpos] conjunct1 [OF d]
    by (simp add: sq_inner_def sq_total_def [of "i + j"] add_mult_distrib2)
qed

lemma sq_inner_frame:
  assumes "i + j < length (sq_w s)"
  shows "length (sq_w (sq_inner x i cpos j s)) = length (sq_w s)"
    "drop (i + j + 1) (sq_w (sq_inner x i cpos j s)) = drop (i + j + 1) (sq_w s)"
    "i + j = cpos \<Longrightarrow> sq_carry (sq_inner x i cpos j s) = 0"
    "sq_carry s = 0 \<Longrightarrow> sq_carry (sq_inner x i cpos j s) = 0"
  using sq_put_total(2-5) [OF conjunct2 [OF sq_inner_digit] assms] by (simp_all add: sq_inner_def)

lemma sq_inner_fold:
  assumes "i < j" "j \<le> length x" "length (sq_w s) = 2 * length x" "i < length x"
  shows "let s' = fold (sq_inner x i cpos) [j ..< length x] s in
    sq_total (i + length x) cpos s' =
      sq_total (i + j) cpos s + 2 * (unat (x ! i) * 2 ^ (32 * i) * (2 ^ (32 * j) * val (drop j x))) \<and>
    length (sq_w s') = 2 * length x \<and> drop (i + length x) (sq_w s') = drop (i + length x) (sq_w s) \<and>
    (sq_carry s = 0 \<or> (j < length x \<and> cpos + 1 = i + length x) \<longrightarrow> sq_carry s' = 0)"
  using assms
proof (induction "length x - j" arbitrary: j s)
  case 0
  then show ?case by simp
next
  case (Suc n)
  then have j: "j < length x" by simp
  define s1 where "s1 = sq_inner x i cpos j s"
  have b: "i + j < length (sq_w s)" using j Suc.prems(3,4) by simp
  have f: "fold (sq_inner x i cpos) [j ..< length x] s = fold (sq_inner x i cpos) [Suc j ..< length x] s1"
    using j by (simp add: upt_conv_Cons s1_def)
  have w1: "length (sq_w s1) = 2 * length x" using sq_inner_frame(1) [OF b] Suc.prems(3) by (simp add: s1_def)
  have "drop (i + length x) (sq_w s1) = drop (i + length x) (sq_w s)"
  proof -
    have "length x - j - 1 + (i + j + 1) = i + length x" using j by simp
    then have "drop (i + length x) v = drop (length x - j - 1) (drop (i + j + 1) v)" for v :: "u32 list"
      by (simp only: drop_drop)
    then show ?thesis using sq_inner_frame(2) [OF b] by (simp only: s1_def)
  qed
  moreover have "drop j x = x ! j # drop (Suc j) x" using j by (simp add: Cons_nth_drop_Suc)
  moreover note Suc.hyps(1) [of "Suc j" s1] w1 sq_inner_total [OF b, of cpos x]
    sq_inner_frame(3) [OF b, of cpos x] sq_inner_frame(4) [OF b, of x cpos]
  moreover have "Suc j < length x \<or> (cpos + 1 = i + length x \<longrightarrow> i + j = cpos)" using j by auto
  ultimately show ?case
    using Suc.hyps(2) Suc.prems j unfolding f Let_def s1_def [symmetric]
    by (auto simp: power_add algebra_simps)
qed

lemma sq_first_total:
  assumes "2 * i < length (sq_w s)"
  shows "sq_total (2 * i + 1) cpos (sq_first x i cpos s) =
      val (sq_w s) + 2 ^ (32 * (2 * i)) * (unat (x ! i) * unat (x ! i)) + 2 ^ (32 * (cpos + 1)) * unat (sq_carry s)"
    "length (sq_w (sq_first x i cpos s)) = length (sq_w s)"
    "drop (2 * i + 1) (sq_w (sq_first x i cpos s)) = drop (2 * i + 1) (sq_w s)"
    "2 * i = cpos \<Longrightarrow> sq_carry (sq_first x i cpos s) = 0"
    "sq_carry s = 0 \<Longrightarrow> sq_carry (sq_first x i cpos s) = 0"
proof -
  obtain p0 p1 where p: "BigNumberMultiplyHelper (x ! i) (x ! i) = (p0, p1)" by (rule prod.exhaust)
  let ?w = "sq_w s ! (2 * i)"
  define q where "q = (p0 + ?w, if p0 + ?w < ?w then p1 + 1 else p1, 0 :: u32)"
  have e: "sq_first x i cpos s = sq_put (2 * i) cpos q s" by (simp add: sq_first_def p q_def Let_def)
  have "unat (x ! i) * unat (x ! i) \<le> 4294967295 * 4294967295"
    using unat_bound [of "x ! i"] by (intro mult_mono) simp_all
  then have "unat p1 + 1 < B32" using mult_helper [OF p] by linarith
  then have v: "val3 q = unat (x ! i) * unat (x ! i) + unat ?w" and t: "top3 q < 100"
    using add_carry [of p0 ?w] mult_helper [OF p] by (auto simp: q_def unat_inc)
  note P = sq_put_total [OF t assms]
  show "sq_total (2 * i + 1) cpos (sq_first x i cpos s) =
      val (sq_w s) + 2 ^ (32 * (2 * i)) * (unat (x ! i) * unat (x ! i)) + 2 ^ (32 * (cpos + 1)) * unat (sq_carry s)"
    using P(1) [of cpos] unfolding e v by (simp add: add_mult_distrib2)
  show "length (sq_w (sq_first x i cpos s)) = length (sq_w s)"
    "drop (2 * i + 1) (sq_w (sq_first x i cpos s)) = drop (2 * i + 1) (sq_w s)"
    "2 * i = cpos \<Longrightarrow> sq_carry (sq_first x i cpos s) = 0"
    "sq_carry s = 0 \<Longrightarrow> sq_carry (sq_first x i cpos s) = 0"
    unfolding e using P(2-5) [of cpos] by simp_all
qed

lemma square_row: "(a * b + r)\<^sup>2 = (b * b) * (a * a) + 2 * (a * b * r) + (r :: nat)\<^sup>2"
  by (simp add: power2_eq_square algebra_simps)

lemma power_even_square: "(2 :: nat) ^ (32 * (2 * i)) = 2 ^ (32 * i) * 2 ^ (32 * i)"
  by (simp add: power_add [symmetric])

lemma sq_row_val:
  assumes "i < length x" "length (sq_w s) = 2 * length x" "drop (i + length x) (sq_w s) = replicate (length x - i) 0"
    "sq_carry s = 0 \<or> cpos + 1 = i + length x"
    "val (sq_w s) + 2 ^ (32 * (cpos + 1)) * unat (sq_carry s) + (2 ^ (32 * i) * val (drop i x))\<^sup>2 = (val x)\<^sup>2"
  shows "\<exists>s'. sq_row x i (cpos, s) = (i + length x, s') \<and> length (sq_w s') = 2 * length x \<and>
    drop (Suc i + length x) (sq_w s') = replicate (length x - Suc i) 0 \<and>
    val (sq_w s') + 2 ^ (32 * (i + length x + 1)) * unat (sq_carry s') +
      (2 ^ (32 * Suc i) * val (drop (Suc i) x))\<^sup>2 = (val x)\<^sup>2"
proof -
  let ?t = "length x"
  define f where "f = sq_first x i cpos s"
  define r where "r = fold (sq_inner x i cpos) [Suc i ..< ?t] f"
  have b: "2 * i < length (sq_w s)" using assms(1,2) by simp
  note F = sq_first_total [OF b, where cpos = cpos and x = x, folded f_def]
  have lf: "length (sq_w f) = 2 * ?t" using F(2) assms(2) by simp
  have c: "sq_carry f = 0 \<or> (Suc i < ?t \<and> cpos + 1 = i + ?t)"
    using assms(1,4) F(4,5) by (cases "Suc i < ?t") auto
  have R: "sq_total (i + ?t) cpos r = sq_total (i + Suc i) cpos f +
      2 * (unat (x ! i) * 2 ^ (32 * i) * (2 ^ (32 * Suc i) * val (drop (Suc i) x)))"
    "length (sq_w r) = 2 * ?t" "drop (i + ?t) (sq_w r) = drop (i + ?t) (sq_w f)" "sq_carry r = 0"
    using sq_inner_fold [of i "Suc i" x f cpos] assms(1) lf c unfolding r_def Let_def by auto
  have df: "drop (i + ?t) (sq_w f) = drop (i + ?t) (sq_w s)"
  proof -
    have "(?t - Suc i) + (2 * i + 1) = i + ?t" using assms(1) by simp
    then have "drop (i + ?t) v = drop (?t - Suc i) (drop (2 * i + 1) v)" for v :: "u32 list"
      by (simp only: drop_drop)
    then show ?thesis by (simp only: F(3))
  qed
  have dr: "drop (i + ?t) (sq_w r) = 0 # replicate (?t - Suc i) 0"
    unfolding R(3) df assms(3) using assms(1) by (metis Suc_diff_Suc replicate_Suc)
  have z: "sq_w r ! (i + ?t) = 0" by (rule nth_via_drop [OF dr])
  define s' where "s' = r\<lparr>sq_carry := sq_u1 r, sq_w := (sq_w r)[i + ?t := sq_u0 r]\<rparr>"
  have e: "sq_row x i (cpos, s) = (i + ?t, s')"
    by (simp add: s'_def r_def f_def Let_def)
  have "val ((sq_w r)[i + ?t := sq_u0 r]) = val (sq_w r) + 2 ^ (32 * (i + ?t)) * unat (sq_u0 r)"
    using val_update [of "i + ?t" "sq_w r" "sq_u0 r"] z R(2) assms(1) by simp
  then have "val (sq_w s') + 2 ^ (32 * (i + ?t + 1)) * unat (sq_carry s') = sq_total (i + ?t) cpos r"
    by (simp add: s'_def sq_total_def R(4) power_add add_mult_distrib2)
  moreover have "sq_total (i + Suc i) cpos f = val (sq_w s) +
      2 ^ (32 * (cpos + 1)) * unat (sq_carry s) + 2 ^ (32 * (2 * i)) * (unat (x ! i) * unat (x ! i))"
    using F(1) by (simp add: mult_2 [symmetric])
  moreover have "2 ^ (32 * i) * val (drop i x) = unat (x ! i) * 2 ^ (32 * i) + 2 ^ (32 * Suc i) * val (drop (Suc i) x)"
    using assms(1) by (simp add: Cons_nth_drop_Suc [symmetric] power_add add_mult_distrib2)
  then have "(2 ^ (32 * i) * val (drop i x))\<^sup>2 = 2 ^ (32 * (2 * i)) * (unat (x ! i) * unat (x ! i)) +
      2 * (unat (x ! i) * 2 ^ (32 * i) * (2 ^ (32 * Suc i) * val (drop (Suc i) x))) +
      (2 ^ (32 * Suc i) * val (drop (Suc i) x))\<^sup>2"
    by (simp only: square_row power_even_square)
  ultimately have "val (sq_w s') + 2 ^ (32 * (i + ?t + 1)) * unat (sq_carry s') +
      (2 ^ (32 * Suc i) * val (drop (Suc i) x))\<^sup>2 = (val x)\<^sup>2"
    using R(1) assms(5) by linarith
  moreover have "drop (Suc i + ?t) (sq_w s') = replicate (?t - Suc i) 0"
  proof -
    have "drop (Suc i + ?t) (sq_w s') = drop (Suc i + ?t) (sq_w r)" by (simp add: s'_def)
    also have "\<dots> = tl (drop (i + ?t) (sq_w r))" by (simp add: drop_Suc tl_drop)
    finally show ?thesis unfolding dr by simp
  qed
  ultimately show ?thesis using e R(2) by (auto simp: s'_def)
qed

lemma BigNumberSquare_val: "length (BigNumberSquare x) = 2 * length x" "val (BigNumberSquare x) = (val x)\<^sup>2"
proof -
  let ?t = "length x"
  let ?f = "\<lambda>i. fold (sq_row x) [0 ..< i]
    (2 * ?t - 1, \<lparr>sq_w = replicate (2 * ?t) 0, sq_u0 = 0, sq_u1 = 0, sq_carry = 0\<rparr>)"
  have inv: "i \<le> ?t \<Longrightarrow> \<exists>cpos s. ?f i = (cpos, s) \<and> length (sq_w s) = 2 * ?t \<and>
      drop (i + ?t) (sq_w s) = replicate (?t - i) 0 \<and> (sq_carry s = 0 \<or> cpos + 1 = i + ?t) \<and>
      (i = ?t \<and> 0 < ?t \<longrightarrow> cpos + 1 = 2 * ?t) \<and>
      val (sq_w s) + 2 ^ (32 * (cpos + 1)) * unat (sq_carry s) + (2 ^ (32 * i) * val (drop i x))\<^sup>2 = (val x)\<^sup>2" for i
  proof (induction i)
    case (Suc i)
    then obtain cpos s where s: "?f i = (cpos, s)" "length (sq_w s) = 2 * ?t"
      "drop (i + ?t) (sq_w s) = replicate (?t - i) 0" "sq_carry s = 0 \<or> cpos + 1 = i + ?t"
      "val (sq_w s) + 2 ^ (32 * (cpos + 1)) * unat (sq_carry s) + (2 ^ (32 * i) * val (drop i x))\<^sup>2 = (val x)\<^sup>2"
      by auto
    have "i < ?t" using Suc.prems by simp
    then obtain s' where "sq_row x i (cpos, s) = (i + ?t, s')" "length (sq_w s') = 2 * ?t"
      "drop (Suc i + ?t) (sq_w s') = replicate (?t - Suc i) 0"
      "val (sq_w s') + 2 ^ (32 * (i + ?t + 1)) * unat (sq_carry s') +
        (2 ^ (32 * Suc i) * val (drop (Suc i) x))\<^sup>2 = (val x)\<^sup>2"
      using sq_row_val [of i x s cpos] s by blast
    then show ?case using s(1) by (intro exI [of _ "i + ?t"] exI [of _ s']) simp
  qed simp
  from inv [of ?t] obtain cpos s where s: "?f ?t = (cpos, s)" "length (sq_w s) = 2 * ?t"
    "0 < ?t \<longrightarrow> cpos + 1 = 2 * ?t" "val (sq_w s) + 2 ^ (32 * (cpos + 1)) * unat (sq_carry s) = (val x)\<^sup>2"
    "sq_carry s = 0 \<or> cpos + 1 = ?t + ?t"
    by auto
  have e: "BigNumberSquare x = sq_w s" using s(1) by (simp add: BigNumberSquare_def Let_def)
  have "sq_carry s = 0"
  proof (rule ccontr)
    assume n: "sq_carry s \<noteq> 0"
    then have c: "cpos + 1 = 2 * ?t" using s(5) by simp
    have "0 < unat (sq_carry s)" using n by (simp add: unat_gt_0)
    then have "2 ^ (32 * (2 * ?t)) * 1 \<le> 2 ^ (32 * (2 * ?t)) * unat (sq_carry s)"
      by (intro mult_left_mono) simp_all
    also have "\<dots> \<le> (val x)\<^sup>2" using s(4) unfolding c by simp
    also have "\<dots> < (2 ^ (32 * ?t))\<^sup>2" using val_bound [of x] by (simp add: power_strict_mono)
    also have "\<dots> = 2 ^ (32 * (2 * ?t))" by (simp add: power_mult [symmetric] mult.commute)
    finally show False by simp
  qed
  then show "length (BigNumberSquare x) = 2 * ?t" "val (BigNumberSquare x) = (val x)\<^sup>2"
    using e s(2,4) by simp_all
qed

end
