(* ===== verification/BigDivision.thy ===== *)
theory BigDivision
  imports BigNumber
begin

text \<open>
  Division with remainder of \<open>libchecksum/basicRSA.cpp\<close>: the 64-by-32 bit division done in half
  digits, the division by one digit, and the long division (Knuth's algorithm D).
\<close>

unbundle bit_operations_syntax

section \<open>Quotient digits\<close>

text \<open>
  Knuth's correction of a quotient digit estimated from the leading digits: the estimate \<open>qh\<close> with
  remainder \<open>rh\<close> is lowered at most twice.  \<open>corrected\<close> is the value both the half-digit division
  and the long division arrive at.
\<close>

definition corrected :: "nat \<Rightarrow> nat \<Rightarrow> nat \<Rightarrow> nat \<Rightarrow> nat \<Rightarrow> nat \<Rightarrow> nat" where
  "corrected b v1 v0 u qh rh =
     (if rh * b + u < qh * v0
      then if rh + v1 < b \<and> (rh + v1) * b + u < (qh - 1) * v0 then qh - 2 else qh - 1
      else qh)"

lemma too_big_iff:
  assumes "0 < v1 * b + v0" "R = qh * v1 + rh"
  shows "rh * b + u < qh * v0 \<longleftrightarrow> (R * b + u) div (v1 * b + v0) < (qh :: nat)"
proof -
  have "(R * b + u) div (v1 * b + v0) < qh \<longleftrightarrow> R * b + u < qh * (v1 * b + v0)"
    using assms(1) by (simp add: div_less_iff_less_mult)
  also have "\<dots> \<longleftrightarrow> rh * b + u < qh * v0"
    unfolding assms(2) by (simp add: algebra_simps)
  finally show ?thesis by simp
qed

lemma estimate_near:
  assumes "R = qh * v1 + rh" "qh \<le> b + 2" "v0 < b" "b \<le> 2 * v1"
  shows "qh - 2 \<le> (R * b + u) div (v1 * b + (v0 :: nat))"
proof -
  have v: "0 < v1 * b + v0" using assms(3,4) by (cases b) auto
  have "(qh - 2) * (v1 * b + v0) \<le> R * b + u"
  proof (cases "qh \<le> 2")
    case False
    have "(qh - 2) * v0 \<le> b * b" using assms(2,3) by (intro mult_mono) simp_all
    also have "\<dots> \<le> 2 * v1 * b" using assms(4) by (intro mult_right_mono) simp_all
    finally have "(qh - 2) * v0 \<le> 2 * v1 * b" .
    moreover have "(qh - 2) * v1 * b + 2 * v1 * b = qh * v1 * b"
    proof -
      obtain k where "qh = k + 2" using False by (metis add.commute le_Suc_ex nat_le_linear)
      then show ?thesis by (simp add: algebra_simps)
    qed
    ultimately have "(qh - 2) * (v1 * b + v0) \<le> qh * v1 * b"
      by (simp add: add_mult_distrib2 mult.assoc)
    then show ?thesis unfolding assms(1) by (simp add: add_mult_distrib)
  qed simp
  then show ?thesis using v by (simp add: less_eq_div_iff_mult_less_eq)
qed

lemma corrected_min:
  assumes "R = qh * v1 + rh" "qh \<le> b + 2" "v0 < b" "b \<le> 2 * v1" "u < b"
  shows "corrected b v1 v0 u qh rh = min qh ((R * b + u) div (v1 * b + v0))"
proof -
  let ?q = "(R * b + u) div (v1 * b + v0)"
  have v: "0 < v1 * b + v0" using assms(3,4) by (cases b) auto
  note big = too_big_iff [OF v assms(1), of u]
  show ?thesis
  proof (cases "rh * b + u < qh * v0")
    case False
    then show ?thesis using big by (simp add: corrected_def)
  next
    case True
    then have less: "?q < qh" using big by simp
    then have "R = (qh - 1) * v1 + (rh + v1)"
      using assms(1) by (cases qh) simp_all
    note big1 = too_big_iff [OF v this, of u]
    show ?thesis
    proof (cases "rh + v1 < b")
      case True
      then show ?thesis
        using \<open>rh * b + u < qh * v0\<close> less big1 estimate_near [OF assms(1-4), of u]
        by (auto simp: corrected_def)
    next
      case False
      have "(qh - 1) * v0 \<le> (b + 1) * (b - 1)" using assms(2,3) by (intro mult_mono) simp_all
      also have "\<dots> \<le> b * b" using assms(3) by (cases b) simp_all
      also have "\<dots> \<le> (rh + v1) * b" using False by (intro mult_right_mono) simp_all
      finally have "\<not> (rh + v1) * b + u < (qh - 1) * v0" by simp
      then show ?thesis
        using \<open>rh * b + u < qh * v0\<close> less big1 by (auto simp: corrected_def)
    qed
  qed
qed

section \<open>Division\<close>

subsection \<open>Definitions\<close>

definition mulsub_digit :: "u32 \<Rightarrow> u32 \<Rightarrow> u32 \<Rightarrow> u32 \<Rightarrow> u32 \<times> u32" where
  "mulsub_digit q k w v =
     (let (t0, t1) = BigNumberMultiplyHelper q v;
          w1 = w - k;
          k1 = (if w1 > MAXIMUMNR - k then 1 else 0);
          w2 = w1 - t0;
          k2 = (if w2 > MAXIMUMNR - t0 then k1 + 1 else k1)
      in (w2, k2 + t1))"

fun mulsub_loop :: "u32 \<Rightarrow> u32 \<Rightarrow> u32 list \<Rightarrow> u32 list \<Rightarrow> u32 list \<times> u32" where
  "mulsub_loop q k (w # ws) (v # vs) =
     (let (w1, k1) = mulsub_digit q k w v; (ws1, k2) = mulsub_loop q k1 ws vs in (w1 # ws1, k2))"
| "mulsub_loop q k _ _ = ([], k)"

text \<open>The digits \<open>w - q * v\<close> and the digit \<open>wn\<close> above them.\<close>

definition BigNumberMultSub :: "u32 \<Rightarrow> u32 list \<Rightarrow> u32 list \<Rightarrow> u32 \<Rightarrow> u32 list \<times> u32" where
  "BigNumberMultSub wn w v q =
     (if q = 0 then (w, wn) else (let (w1, k) = mulsub_loop q 0 w v in (w1, wn - k)))"

fun BigNumberMultSubHelper :: "u32 \<times> u32 \<Rightarrow> u32 \<Rightarrow> u32 \<Rightarrow> u32 \<Rightarrow> u32 \<times> u32" where
  "BigNumberMultSubHelper (uu0, uu1) qhat v1 v0 =
     (let p0 = qhat * v0;
          p1 = qhat * v1;
          t = p0 + TOHIGH (LOHALF p1);
          uu0 = uu0 - t;
          uu1 = (if uu0 > MAXIMUMNR - t then uu1 - 1 else uu1)
      in (uu0, uu1 - HIHALF p1))"

text \<open>
  \<open>half_quotient\<close> and \<open>half_step\<close> are the code that \<open>BigNumberDivideHelper\<close> repeats for its two half
  digits: the estimate with its corrections, and the remainder.
\<close>

definition half_quotient :: "u32 \<Rightarrow> u32 \<Rightarrow> u32 \<Rightarrow> u32 \<Rightarrow> u32" where
  "half_quotient v1 v0 uu0 u =
     (let qhat = uu0 div v1;
          rhat = uu0 - qhat * v1;
          t = TOHIGH rhat OR u
      in if qhat = 0x10000 \<or> qhat * v0 > t
         then (let qhat = qhat - 1;
                   rhat = rhat + v1;
                   t = TOHIGH rhat OR u
               in if rhat < 0x10000 \<and> qhat * v0 > t then qhat - 1 else qhat)
         else qhat)"

definition half_step :: "u32 \<Rightarrow> u32 \<Rightarrow> u32 \<Rightarrow> u32 \<times> u32" where
  "half_step v uu0 u =
     (let v0 = LOHALF v; v1 = HIHALF v;
          qhat = half_quotient v1 v0 uu0 u;
          (a, b) = BigNumberMultSubHelper (TOHIGH (LOHALF uu0) OR u, HIHALF uu0) qhat v1 v0
      in if HIHALF b \<noteq> 0 then (qhat - 1, a + v) else (qhat, a))"

definition top_step :: "u32 \<Rightarrow> u32 \<Rightarrow> u32 \<times> u32" where
  "top_step v u1 =
     (let v0 = LOHALF v; v1 = HIHALF v; u2 = LOHALF u1; u3 = HIHALF u1;
          qhat = (if u3 < v1 then 0 else 1);
          qhat = (if qhat > 0 \<and> v0 > (TOHIGH (u3 - v1) OR u2) then qhat - 1 else qhat)
      in if qhat > 0
         then (let (a, b) = BigNumberMultSubHelper (u1, 0) qhat v1 v0
               in if HIHALF b \<noteq> 0 then (qhat - 1, a + v) else (qhat, a))
         else (qhat, u1))"

text \<open>The result is (the returned digit, \<open>*q\<close>, \<open>*r\<close>).\<close>

definition BigNumberDivideHelper :: "u32 \<Rightarrow> u32 \<Rightarrow> u32 \<Rightarrow> u32 \<times> u32 \<times> u32" where
  "BigNumberDivideHelper u0 u1 v =
     (if v AND HIBITMASK = 0 then (MAXIMUMNR, 0, 0)
      else let (q2, a) = top_step v u1;
               (qa, b) = half_step v a (HIHALF u0);
               (qb, c) = half_step v b (LOHALF u0)
           in (q2, TOHIGH qa OR LOHALF qb, c))"

subsection \<open>Half digits\<close>

lemma mask16: "(0xffff :: u32) = mask 16"
  by (simp add: mask_eq_exp_minus_1)

lemma unat_LOHALF: "unat (LOHALF x) = unat x mod 65536"
proof -
  have l: "LOHALF x = take_bit 16 x" by (simp only: LOHALF_def mask16 take_bit_eq_mask)
  show ?thesis unfolding l unsigned_take_bit_eq by (simp add: take_bit_eq_mod)
qed

lemma unat_HIHALF: "unat (HIHALF x) = unat x div 65536"
proof -
  have h: "HIHALF x = take_bit 16 (drop_bit 16 x)" by (simp only: HIHALF_def mask16 take_bit_eq_mask)
  have "unat x div 65536 < 65536" using unat_bound [of x] by simp
  then show ?thesis unfolding h unsigned_take_bit_eq unat_drop_bit32 by (simp add: take_bit_nat_eq_self)
qed

lemma LOHALF_less: "unat (LOHALF x) < 65536"
  by (simp add: unat_LOHALF)

lemma HIHALF_less: "unat (HIHALF x) < 65536"
  using unat_bound [of x] by (simp add: unat_HIHALF)

lemma halves: "unat (HIHALF x) * 65536 + unat (LOHALF x) = unat x"
  by (simp add: unat_HIHALF unat_LOHALF)

lemma halves_word: "v = HIHALF v * 65536 + LOHALF v"
proof -
  have "(of_nat (unat v) :: u32) = of_nat (unat (HIHALF v) * 65536 + unat (LOHALF v))"
    by (simp only: halves)
  then show ?thesis by simp
qed

lemma unat_TOHIGH: "unat (TOHIGH x) = (unat x * 65536) mod B32"
  by (simp add: TOHIGH_def unat_push_bit32)

lemma TOHIGH_or:
  assumes "unat u < 65536" "unat x < 65536"
  shows "unat (TOHIGH x OR u) = unat x * 65536 + unat u"
proof -
  have u: "unat u < 2 ^ 16" using assms(1) by simp
  have "unat (TOHIGH x) = unat x * 65536" unfolding unat_TOHIGH using assms(2) by simp
  then show ?thesis
    unfolding TOHIGH_def shift_or_add [OF u] unat_add_if using assms by simp
qed

lemma TOHIGH_LOHALF_or:
  "unat u < 65536 \<Longrightarrow> unat (TOHIGH (LOHALF x) OR u) = unat (LOHALF x) * 65536 + unat u"
  by (rule TOHIGH_or) (simp_all add: LOHALF_less)

lemma unat_mult_small: "unat (x :: u32) * unat y < B32 \<Longrightarrow> unat (x * y) = unat x * unat y"
  by (simp add: unat_word_ariths)

lemma half_quotient_exact:
  assumes "32768 \<le> unat v1" "unat v1 < 65536" "unat v0 < 65536" "unat u < 65536"
    "unat uu0 < unat v1 * 65536 + unat v0"
  shows "unat (half_quotient v1 v0 uu0 u) =
    (unat uu0 * 65536 + unat u) div (unat v1 * 65536 + unat v0)"
proof -
  define qh rh where "qh = uu0 div v1" and "rh = uu0 - qh * v1"
  let ?R = "unat uu0" and ?v = "unat v1 * 65536 + unat v0"
  have Q: "unat qh = ?R div unat v1" by (simp add: qh_def unat_div)
  have "unat rh = ?R mod unat v1"
  proof -
    have "rh = uu0 mod v1" by (simp add: rh_def qh_def minus_div_mult_eq_mod)
    then show ?thesis by (simp add: unat_mod)
  qed
  then have rh: "unat rh < unat v1" and R: "?R = unat qh * unat v1 + unat rh"
    using assms(1) by (simp_all add: Q)
  have q2: "unat qh \<le> 65536 + 1"
  proof -
    have "?R < (65536 + 2) * unat v1" using assms(1,3,5) by simp
    then have "?R div unat v1 < 65536 + 2" by (simp add: less_mult_imp_div_less)
    then show ?thesis by (simp add: Q)
  qed
  have small: "unat (x * v0) = unat x * unat v0" if "unat x \<le> 65536 + 1" for x :: u32
  proof -
    have "unat x * unat v0 \<le> (65536 + 1) * (65536 - 1)" using that assms(3) by (intro mult_mono) simp_all
    then show ?thesis by (intro unat_mult_small) simp
  qed
  have t: "unat (TOHIGH rh OR u) = unat rh * 65536 + unat u"
    using rh assms(2,4) by (intro TOHIGH_or) simp_all
  have N: "(?R * 65536 + unat u) div ?v < 65536"
    using assms(4,5) by (intro less_mult_imp_div_less) simp
  have v: "0 < ?v" using assms(1) by simp
  have big: "unat rh * 65536 + unat u < unat qh * unat v0 \<longleftrightarrow> (?R * 65536 + unat u) div ?v < unat qh"
    by (rule too_big_iff [OF v R])
  have first: "(qh = 0x10000 \<or> TOHIGH rh OR u < qh * v0) \<longleftrightarrow>
      unat rh * 65536 + unat u < unat qh * unat v0"
  proof -
    have "qh = 0x10000 \<Longrightarrow> unat qh = 65536" by simp
    then show ?thesis using N small [OF q2] big by (auto simp: word_less_nat_alt t)
  qed
  define r1 where "r1 = rh + v1"
  have r1: "unat r1 = unat rh + unat v1"
    unfolding r1_def using rh assms(2) by (simp add: unat_add_if)
  have "corrected 65536 (unat v1) (unat v0) (unat u) (unat qh) (unat rh) = unat (half_quotient v1 v0 uu0 u)"
  proof (cases "unat rh * 65536 + unat u < unat qh * unat v0")
    case False
    then show ?thesis
      using first by (simp add: half_quotient_def corrected_def Let_def qh_def [symmetric] rh_def [symmetric])
  next
    case True
    have q1: "unat (qh - 1) = unat qh - 1" using True by (cases "unat qh") (simp_all add: unat_sub_if)
    have second: "(r1 < 0x10000 \<and> TOHIGH r1 OR u < (qh - 1) * v0) \<longleftrightarrow>
        unat rh + unat v1 < 65536 \<and> (unat rh + unat v1) * 65536 + unat u < (unat qh - 1) * unat v0"
    proof (cases "unat r1 < 65536")
      case True
      then show ?thesis
        using TOHIGH_or [OF assms(4) True] small [of "qh - 1"] q1 q2 r1 by (simp add: word_less_nat_alt)
    qed (simp add: word_less_nat_alt r1)
    have "unat (qh - 1 - 1) = unat qh - 2" if "(unat rh + unat v1) * 65536 + unat u < (unat qh - 1) * unat v0"
      using that q1 by (cases "unat (qh - 1)") (simp_all add: unat_sub_if)
    then show ?thesis
      using True first second q1
      by (simp add: half_quotient_def corrected_def Let_def qh_def [symmetric] rh_def [symmetric] r1_def [symmetric])
  qed
  moreover have "corrected 65536 (unat v1) (unat v0) (unat u) (unat qh) (unat rh) =
      min (unat qh) ((?R * 65536 + unat u) div ?v)"
    using corrected_min [OF R, of 65536 "unat v0" "unat u"] q2 assms(1,3,4) by simp
  moreover have "(?R * 65536 + unat u) div ?v \<le> unat qh"
  proof -
    have "?R * 65536 + unat u < (unat qh + 1) * ?v"
    proof -
      have "?R + 1 \<le> (unat qh + 1) * unat v1" using R rh by simp
      then have "(?R + 1) * 65536 \<le> (unat qh + 1) * unat v1 * 65536" by (rule mult_right_mono) simp
      then have "?R * 65536 + 65536 \<le> (unat qh + 1) * (unat v1 * 65536)" by (simp add: algebra_simps)
      then show ?thesis using assms(4) by (simp add: add_mult_distrib2)
    qed
    then have "(?R * 65536 + unat u) div ?v < unat qh + 1" by (simp add: less_mult_imp_div_less)
    then show ?thesis by simp
  qed
  ultimately show ?thesis by simp
qed

text \<open>
  \<open>BigNumberMultSubHelper\<close> drops the carry of \<open>p0 + TOHIGH (LOHALF p1)\<close>, so its high digit can be one
  too large; the low digit is right, and the high half of the high digit is zero when the quotient
  is exact, which is all its callers use.
\<close>

lemma TOHIGH_LOHALF: "TOHIGH (LOHALF x) = x * 65536"
proof -
  have "TOHIGH (LOHALF x) = push_bit 16 x"
    unfolding TOHIGH_def LOHALF_def mask16
    by (rule bit_word_eqI) (auto simp: bit_push_bit_iff bit_and_iff bit_mask_iff)
  then show ?thesis by (simp add: push_bit_eq_mult)
qed

lemma half_sub_linear:
  fixes b a h c t :: nat
  assumes "h * B32 + (c * B32 + t) \<le> b * B32 + a" "b * B32 + a < h * B32 + (c * B32 + t) + B32"
    "a < B32" "t < B32" "c \<le> 1"
  shows "h + (if a < t then 1 else 0) \<le> b \<and> b \<le> h + (if a < t then 1 else 0) + 1"
  using assms by (cases "a < t") simp_all

lemma half_sub:
  fixes N :: nat
  assumes "N = b * B32 + a" "a < B32" "p0 < B32" "p1 < B32"
    "p1 * 65536 + p0 \<le> N" "N < p1 * 65536 + p0 + B32"
    "t = (p0 + (p1 mod 65536) * 65536) mod B32"
  shows "p1 div 65536 + (if a < t then 1 else 0) \<le> b \<and> b \<le> p1 div 65536 + (if a < t then 1 else 0) + 1"
proof -
  define h l where "h = p1 div 65536" and "l = p1 mod 65536"
  have p1: "p1 = h * 65536 + l" and l: "l < 65536" by (simp_all add: h_def l_def)
  define T where "T = p0 + l * 65536"
  define c where "c = T div B32"
  have T: "T = c * B32 + t" "t < B32"
    using assms(7) by (simp_all add: c_def T_def l_def)
  have "T < 2 * B32" using l assms(3) by (simp add: T_def)
  then have c: "c \<le> 1" unfolding c_def by (simp add: div_le_mono less_mult_imp_div_less flip: less_Suc_eq_le)
  have e: "p1 * 65536 + p0 = h * B32 + (c * B32 + t)"
    unfolding T(1) [symmetric] T_def p1 by simp
  show ?thesis
    using half_sub_linear [of h c t b a] assms(1,2,5,6) T(2) c unfolding e h_def [symmetric] by simp
qed

lemma half_step_exact:
  assumes "32768 \<le> unat (HIHALF v)" "unat uu0 < unat v" "unat u < 65536" "half_step v uu0 u = (q, r)"
  shows "unat q = (unat uu0 * 65536 + unat u) div unat v" "unat r = (unat uu0 * 65536 + unat u) mod unat v"
    "unat q < 65536"
proof -
  let ?N = "unat uu0 * 65536 + unat u" and ?v1 = "HIHALF v" and ?v0 = "LOHALF v"
  define qh where "qh = half_quotient ?v1 ?v0 uu0 u"
  have v: "unat v = unat ?v1 * 65536 + unat ?v0" by (simp add: halves)
  have Q: "unat qh = ?N div unat v"
    unfolding qh_def v
    by (rule half_quotient_exact) (use assms halves [of v] HIHALF_less LOHALF_less in simp_all)
  have vpos: "0 < unat v" using assms(2) by simp
  have q16: "unat qh < 65536" unfolding Q using assms(2,3) by (intro less_mult_imp_div_less) simp
  define A where "A = TOHIGH (LOHALF uu0) OR u"
  have A: "unat A = unat (LOHALF uu0) * 65536 + unat u"
    unfolding A_def by (rule TOHIGH_LOHALF_or [OF assms(3)])
  have Aw: "A = uu0 * 65536 + u"
    unfolding A_def using shift_or_add [of u 16 "LOHALF uu0"] assms(3)
    by (simp add: TOHIGH_def [symmetric] TOHIGH_LOHALF)
  define p0 p1 where "p0 = qh * ?v0" and "p1 = qh * ?v1"
  define t where "t = p0 + TOHIGH (LOHALF p1)"
  have small: "unat (qh * x) = unat qh * unat x" if "unat x < 65536" for x
  proof -
    have "unat qh * unat x \<le> 65535 * 65535" using that q16 by (intro mult_mono) simp_all
    then show ?thesis by (intro unat_mult_small) simp
  qed
  have P: "unat p0 = unat qh * unat ?v0" "unat p1 = unat qh * unat ?v1"
    unfolding p0_def p1_def by (simp_all only: small HIHALF_less LOHALF_less)
  have qv: "unat p1 * 65536 + unat p0 = unat qh * unat v"
    unfolding P v by (simp add: algebra_simps)
  have div: "unat qh * unat v \<le> ?N" "?N - unat qh * unat v = ?N mod unat v"
    unfolding Q by (simp_all add: minus_div_mult_eq_mod)
  have rem: "?N mod unat v < unat v" using vpos by simp
  have t': "unat t = (unat p0 + unat p1 mod 65536 * 65536) mod B32"
  proof -
    have "unat (TOHIGH (LOHALF p1)) = unat p1 mod 65536 * 65536"
      unfolding unat_TOHIGH unat_LOHALF by (rule mod_less) (use pos_mod_bound in simp)
    then show ?thesis unfolding t_def unat_add_wrap by simp
  qed
  have N: "?N = unat (HIHALF uu0) * B32 + unat A"
    unfolding A halves [of uu0, symmetric] by simp
  have "unat p1 div 65536 + (if unat A < unat t then 1 else 0) \<le> unat (HIHALF uu0) \<and>
      unat (HIHALF uu0) \<le> unat p1 div 65536 + (if unat A < unat t then 1 else 0) + 1"
  proof (rule half_sub [OF N unat_bound unat_bound unat_bound _ _ t'])
    show "unat p1 * 65536 + unat p0 \<le> ?N" using div by (simp add: qv)
    show "?N < unat p1 * 65536 + unat p0 + B32" using div rem unat_bound [of v] unfolding qv by linarith
  qed
  note H = this
  define B where "B = (if A - t > MAXIMUMNR - t then HIHALF uu0 - 1 else HIHALF uu0) - HIHALF p1"
  have "unat B \<le> 1"
  proof (cases "unat A < unat t")
    case True
    then have "1 \<le> unat (HIHALF uu0)" using H by simp
    then have "unat (HIHALF uu0 - 1) = unat (HIHALF uu0) - 1" by (simp add: unat_sub_if)
    then show ?thesis
      using H True unfolding B_def sub_borrows by (simp add: unat_sub_if unat_HIHALF [of p1]) arith
  next
    case False
    then show ?thesis
      using H unfolding B_def sub_borrows by (simp add: unat_sub_if unat_HIHALF [of p1]) arith
  qed
  then have hb: "HIHALF B = 0" by (simp add: word_unat_eq_iff unat_HIHALF)
  have msh: "BigNumberMultSubHelper (A, HIHALF uu0) qh ?v1 ?v0 = (A - t, B)"
    by (simp add: Let_def t_def p0_def p1_def B_def)
  have res: "q = qh" "r = A - t"
    using assms(4) unfolding half_step_def Let_def qh_def [symmetric] A_def [symmetric] msh
    by (simp_all add: hb)
  show "unat q = ?N div unat v" "unat q < 65536" using res(1) Q q16 by simp_all
  have "t = qh * v"
  proof -
    have "v = ?v1 * 65536 + ?v0" by (rule halves_word)
    moreover have "t = qh * (?v1 * 65536 + ?v0)"
      unfolding t_def p0_def p1_def TOHIGH_LOHALF by (simp add: algebra_simps)
    ultimately show ?thesis by simp
  qed
  then have "r = of_nat (?N - unat qh * unat v)"
    unfolding res(2) Aw using div(1) by (simp add: of_nat_diff)
  then show "unat r = ?N mod unat v"
    unfolding div(2) using rem unat_bound [of v] by (simp add: unat_of_nat)
qed

lemma top_step_exact:
  assumes "32768 \<le> unat (HIHALF v)" "top_step v u1 = (q, a)"
  shows "unat q = unat u1 div unat v" "unat a = unat u1 mod unat v"
proof -
  let ?v1 = "HIHALF v" and ?v0 = "LOHALF v" and ?u3 = "HIHALF u1" and ?u2 = "LOHALF u1"
  have v: "unat v = unat ?v1 * 65536 + unat ?v0" and u: "unat u1 = unat ?u3 * 65536 + unat ?u2"
    by (simp_all only: halves)
  have v2: "unat u1 < 2 * unat v" using unat_bound [of u1] assms(1) v by simp
  have fits: "(?u3 < ?v1 \<or> ?v0 > (TOHIGH (?u3 - ?v1) OR ?u2)) \<longleftrightarrow> unat u1 < unat v"
  proof (cases "unat ?u3 < unat ?v1")
    case True
    then show ?thesis using LOHALF_less [of u1] unfolding u v by (simp add: word_less_nat_alt)
  next
    case False
    then have d: "unat (?u3 - ?v1) = unat ?u3 - unat ?v1" by (simp add: unat_sub_if)
    have s: "unat (?u3 - ?v1) < 65536" unfolding d using HIHALF_less [of u1] by simp
    show ?thesis
      using False TOHIGH_or [OF LOHALF_less [of u1] s] d unfolding u v
      by (auto simp: word_less_nat_alt algebra_simps)
  qed
  show "unat q = unat u1 div unat v" "unat a = unat u1 mod unat v"
  proof -
    have hh: "HIHALF ?v1 = 0" using HIHALF_less [of v] by (simp add: word_unat_eq_iff unat_HIHALF [of ?v1])
    have t: "?v0 + TOHIGH (LOHALF ?v1) = v"
      unfolding TOHIGH_LOHALF by (subst (3) halves_word) (simp only: add.commute)
    have "unat q = unat u1 div unat v \<and> unat a = unat u1 mod unat v"
    proof (cases "unat u1 < unat v")
      case True
      then have "top_step v u1 = (0, u1)" using fits by (auto simp: top_step_def Let_def)
      then show ?thesis using True assms(2) by simp
    next
      case False
      then have "BigNumberMultSubHelper (u1, 0) 1 ?v1 ?v0 = (u1 - v, 0)"
        using t sub_borrows [of v u1] by (simp add: Let_def hh)
      moreover have "HIHALF 0 = 0" by (simp add: word_unat_eq_iff unat_HIHALF)
      ultimately have "top_step v u1 = (1, u1 - v)" using fits False by (simp add: top_step_def Let_def)
      then show ?thesis using False v2 assms(2) by (auto simp: unat_sub_if le_div_geq le_mod_geq)
    qed
    then show "unat q = unat u1 div unat v" "unat a = unat u1 mod unat v" by simp_all
  qed
qed

lemma high_bit: "bit v 31 \<longleftrightarrow> 32768 \<le> unat (HIHALF v)"
proof -
  have "bit v 31 \<longleftrightarrow> odd (unat v div 2147483648)"
    using bit_unsigned_iff [where w = v and n = 31 and 'a = nat] by (simp add: bit_iff_odd)
  moreover have "unat v div 2147483648 < 2" using unat_bound [of v] by simp
  ultimately have "bit v 31 \<longleftrightarrow> 1 \<le> unat v div 2147483648" by (auto simp: less_2_cases_iff)
  then show ?thesis unfolding unat_HIHALF by (simp add: less_eq_div_iff_mult_less_eq)
qed

text \<open>\<open>BigNumberDivideHelper\<close> divides two digits by a normalised one, with a 33-bit quotient.\<close>

lemma DivideHelper_exact:
  assumes "bit v 31" "BigNumberDivideHelper u0 u1 v = (q2, q, r)"
  shows "unat q2 = unat u1 div unat v"
    "unat q2 * B32 + unat q = (unat u1 * B32 + unat u0) div unat v"
    "unat r = (unat u1 * B32 + unat u0) mod unat v"
proof -
  have hv: "32768 \<le> unat (HIHALF v)" using assms(1) high_bit by simp
  then have vpos: "0 < unat v" using halves [of v] by simp
  have nz: "v AND HIBITMASK \<noteq> 0" using assms(1) by (simp only: and_HIBITMASK)
  obtain q3 a where t: "top_step v u1 = (q3, a)" by (rule prod.exhaust)
  obtain qa b where b: "half_step v a (HIHALF u0) = (qa, b)" by (rule prod.exhaust)
  obtain qb c where c: "half_step v b (LOHALF u0) = (qb, c)" by (rule prod.exhaust)
  have qr: "q = TOHIGH qa OR LOHALF qb" "r = c" "q3 = q2"
    using assms(2) nz unfolding BigNumberDivideHelper_def by (simp_all add: t b c)
  note a = t [unfolded qr(3)]
  note A = top_step_exact [OF hv a]
  have al: "unat a < unat v" using A(2) vpos by simp
  note B = half_step_exact [OF hv al HIHALF_less b]
  have bl: "unat b < unat v" using B(2) vpos by simp
  note C = half_step_exact [OF hv bl LOHALF_less c]
  have "unat q = unat qa * 65536 + unat qb"
    unfolding qr using TOHIGH_or [OF LOHALF_less [of qb] B(3)] C(3) by (simp add: unat_LOHALF)
  moreover have "unat u1 = unat q2 * unat v + unat a" using A by simp
  moreover have "unat a * 65536 + unat (HIHALF u0) = unat qa * unat v + unat b" using B by simp
  moreover have "unat b * 65536 + unat (LOHALF u0) = unat qb * unat v + unat c" using C by simp
  ultimately have e: "unat u1 * B32 + unat u0 = (unat q2 * B32 + unat q) * unat v + unat c"
    unfolding halves [of u0, symmetric] by (simp add: add_mult_distrib)
  have "unat c < unat v" using C(2) vpos by simp
  then show "unat q2 * B32 + unat q = (unat u1 * B32 + unat u0) div unat v"
    "unat r = (unat u1 * B32 + unat u0) mod unat v"
    unfolding e qr(2) by simp_all
  show "unat q2 = unat u1 div unat v" by (rule A(1))
qed

subsection \<open>Division by one digit\<close>

text \<open>The loop that finds the position of the highest one bit of a digit.\<close>

fun top_bit_loop :: "nat \<Rightarrow> nat \<Rightarrow> u32 \<Rightarrow> u32 \<Rightarrow> nat" where
  "top_bit_loop 0 shift bitmask v = shift"
| "top_bit_loop (Suc n) shift bitmask v =
     (if v AND bitmask \<noteq> 0 then shift else top_bit_loop n (shift + 1) (drop_bit 1 bitmask) v)"

definition normal_shift :: "u32 \<Rightarrow> nat" where
  "normal_shift v = top_bit_loop 32 0 HIBITMASK v"

fun dw_digit :: "u32 \<Rightarrow> u32 \<Rightarrow> u32 list \<times> u32 \<Rightarrow> u32 list \<times> u32" where
  "dw_digit v d (qs, r) = (case BigNumberDivideHelper d r v of (_, q, r1) \<Rightarrow> (q # qs, r1))"

definition BigNumberDividedw :: "u32 list \<Rightarrow> u32 list \<Rightarrow> u32 \<Rightarrow> u32 list \<times> u32" where
  "BigNumberDividedw q u v =
     (if length u = 0 \<or> v = 0 then (q, 0)
      else let shift = normal_shift v;
               (uu, overflow) = BigNumberShiftLeft q u shift;
               (q1, r) = foldr (dw_digit (push_bit shift v)) uu ([], overflow)
           in (q1, drop_bit shift r))"

lemma bit_mask_hi: "bit (drop_bit k HIBITMASK) n \<longleftrightarrow> n + k = 31"
  by (auto simp: bit_drop_bit_eq bit_HIBITMASK)

lemma and_drop_HIBITMASK: "k < 32 \<Longrightarrow> v AND drop_bit k HIBITMASK \<noteq> 0 \<longleftrightarrow> bit v (31 - k)"
proof -
  assume k: "k < 32"
  have "v AND drop_bit k HIBITMASK = (if bit v (31 - k) then drop_bit k HIBITMASK else 0)"
  proof (rule bit_word_eqI)
    fix n
    have "n + k = 31 \<longleftrightarrow> n = 31 - k" using k by auto
    then show "bit (v AND drop_bit k HIBITMASK) n \<longleftrightarrow> bit (if bit v (31 - k) then drop_bit k HIBITMASK else 0) n"
      by (auto simp: bit_and_iff bit_mask_hi)
  qed
  moreover have "drop_bit k HIBITMASK \<noteq> 0"
  proof
    assume "drop_bit k HIBITMASK = 0"
    then have "\<not> bit (drop_bit k HIBITMASK) (31 - k)" by simp
    then show False using k by (simp add: bit_mask_hi)
  qed
  ultimately show ?thesis by simp
qed

lemma even_less_2: "x < 2 \<Longrightarrow> \<not> odd x \<Longrightarrow> x = (0 :: nat)"
  by (auto simp: less_2_cases_iff)

lemma top_bit_loop_spec:
  assumes "n + k = 32" "unat v < 2 ^ (32 - k)" "v \<noteq> (0 :: u32)"
    "s = top_bit_loop n k (drop_bit k HIBITMASK) v"
  shows "s < 32 \<and> bit v (31 - s) \<and> unat v < 2 ^ (32 - s)"
  using assms
proof (induction n arbitrary: k)
  case 0
  then show ?case by (simp add: unat_eq_0)
next
  case (Suc n)
  then have k: "k < 32" by simp
  show ?case
  proof (cases "bit v (31 - k)")
    case True
    then have "s = k" using Suc.prems(4) and_drop_HIBITMASK [OF k] by simp
    then show ?thesis using True k Suc.prems(2) by simp
  next
    case False
    then have e: "s = top_bit_loop n (k + 1) (drop_bit (k + 1) HIBITMASK) v"
      using Suc.prems(4) and_drop_HIBITMASK [OF k, of v] by (simp add: add.commute)
    have "\<not> odd (unat v div 2 ^ (31 - k))"
      using False bit_unsigned_iff [where w = v and n = "31 - k" and 'a = nat] by (simp add: bit_iff_odd)
    moreover have "unat v < 2 * 2 ^ (31 - k)"
    proof -
      have "32 - k = Suc (31 - k)" using k by simp
      then show ?thesis using Suc.prems(2) by simp
    qed
    then have "unat v div 2 ^ (31 - k) < 2" by (rule less_mult_imp_div_less)
    ultimately have "unat v div 2 ^ (31 - k) = 0" by (intro even_less_2) simp_all
    then have l: "unat v < 2 ^ (31 - k)" by (simp add: div_eq_0_iff)
    have p: "32 - (k + 1) = 31 - k" by simp
    show ?thesis
      by (rule Suc.IH [OF _ _ assms(3) e, unfolded p]) (use l Suc.prems(1) in simp_all)
  qed
qed

lemma normal_shift_spec:
  assumes "v \<noteq> 0"
  shows "normal_shift v < 32" "bit (push_bit (normal_shift v) v) 31"
    "unat (push_bit (normal_shift v) v) = unat v * 2 ^ normal_shift v"
    "unat v < 2 ^ (32 - normal_shift v)"
proof -
  let ?s = "normal_shift v"
  have s: "?s < 32 \<and> bit v (31 - ?s) \<and> unat v < 2 ^ (32 - ?s)"
    by (rule top_bit_loop_spec [of 32 0]) (use assms unat_bound [of v] in \<open>simp_all add: normal_shift_def\<close>)
  then show "?s < 32" "bit (push_bit ?s v) 31" "unat v < 2 ^ (32 - ?s)"
    by (simp_all add: bit_push_bit_iff)
  have "unat v * 2 ^ ?s < 2 ^ (32 - ?s) * 2 ^ ?s" using s by simp
  also have "\<dots> = B32" unfolding power_add [symmetric] using s by simp
  finally show "unat (push_bit ?s v) = unat v * 2 ^ ?s" unfolding unat_push_bit32 by simp
qed

lemma dw_digits:
  assumes "bit v 31" "unat r < unat v" "foldr (dw_digit v) u ([], r) = (qs, r1)"
  shows "length qs = length u \<and> val qs * unat v + unat r1 = val u + 2 ^ (32 * length u) * unat r \<and> unat r1 < unat v"
  using assms(3)
proof (induction u arbitrary: qs r1)
  case Nil
  then show ?case using assms(2) by simp
next
  case (Cons d u)
  obtain qs2 r2 where l: "foldr (dw_digit v) u ([], r) = (qs2, r2)" by (rule prod.exhaust)
  obtain q2 q r3 where d: "BigNumberDivideHelper d r2 v = (q2, q, r3)" by (metis prod_cases3)
  have e: "qs = q # qs2" "r1 = r3" using Cons.prems l d by auto
  note I = Cons.IH [OF l]
  note D = DivideHelper_exact [OF assms(1) d]
  have "unat q2 = 0" using D(1) I by simp
  then have "unat q * unat v + unat r3 = unat r2 * B32 + unat d" using D(2,3) by simp
  then have "val qs * unat v + unat r1 = val (d # u) + 2 ^ (32 * length (d # u)) * unat r"
    unfolding e using I by (simp add: power_add algebra_simps)
  then show ?case using I D(3) assms(2) e by simp
qed

lemma Dividedw_val:
  assumes "u \<noteq> []" "v \<noteq> 0" "BigNumberDividedw q u v = (q1, r)"
  shows "length q1 = length u" "val u = val q1 * unat v + unat r" "unat r < unat v"
proof -
  let ?s = "normal_shift v" and ?v = "push_bit (normal_shift v) v"
  note N = normal_shift_spec [OF assms(2)]
  obtain uu ov where sh: "BigNumberShiftLeft q u ?s = (uu, ov)" by (rule prod.exhaust)
  obtain r1 where d: "foldr (dw_digit ?v) uu ([], ov) = (q1, r1)" and r: "r = drop_bit ?s r1"
    using assms sh by (auto simp: BigNumberDividedw_def Let_def split: prod.splits)
  note S = ShiftLeft_val [OF N(1) sh]
  have "1 \<le> unat v" using assms(2) by (simp add: unat_gt_0 Suc_le_eq)
  then have "2 ^ ?s \<le> unat ?v" unfolding N(3) by simp
  then have ov: "unat ov < unat ?v" using S(2) by linarith
  note D = dw_digits [OF N(2) ov d]
  show "length q1 = length u" using D S(1) by simp
  have e: "val q1 * unat v * 2 ^ ?s + unat r1 = 2 ^ ?s * val u"
    using D S(1,3) unfolding N(3) by (simp add: algebra_simps)
  have "unat r1 = 2 ^ ?s * unat r"
  proof -
    have "2 ^ ?s dvd unat r1"
      using e by (metis dvd_add_right_iff dvd_triv_left dvd_triv_right)
    then show ?thesis unfolding r unat_drop_bit32 by simp
  qed
  then have "2 ^ ?s * (val q1 * unat v + unat r) = 2 ^ ?s * val u" "2 ^ ?s * unat r < 2 ^ ?s * unat v"
    using e conjunct2 [OF conjunct2 [OF D]] unfolding N(3) by (simp_all add: algebra_simps)
  then show "val u = val q1 * unat v + unat r" "unat r < unat v" by simp_all
qed

subsection \<open>Long division\<close>

text \<open>The C function returns 0 or 1.\<close>

definition BigNumberQhatTooBigHelper :: "u32 \<Rightarrow> u32 \<Rightarrow> u32 \<Rightarrow> u32 \<Rightarrow> bool" where
  "BigNumberQhatTooBigHelper qhat rhat vn2 ujn2 =
     (let (t0, t1) = BigNumberMultiplyHelper qhat vn2
      in if t1 < rhat then False else if t1 > rhat then True else t0 > ujn2)"

text \<open>The estimate of a quotient digit, with its corrections.\<close>

definition estimate_digit :: "u32 \<Rightarrow> u32 \<Rightarrow> u32 \<Rightarrow> u32 \<Rightarrow> u32 \<Rightarrow> u32" where
  "estimate_digit t0 t1 vtop vn2 ujn2 =
     (let (overflow, qhat, rhat) = BigNumberDivideHelper t0 t1 vtop;
          qhatOK = (overflow \<noteq> 0 \<and> t0 + vtop < vtop);
          (qhat, rhat) = (if overflow \<noteq> 0 then (MAXIMUMNR, t0 + vtop) else (qhat, rhat))
      in if qhat \<noteq> 0 \<and> \<not> qhatOK \<and> BigNumberQhatTooBigHelper qhat rhat vn2 ujn2
         then (let rhat = rhat + vtop; qhat = qhat - 1
               in if \<not> rhat < vtop \<and> BigNumberQhatTooBigHelper qhat rhat vn2 ujn2 then qhat - 1 else qhat)
         else qhat)"

type_synonym div_state = "u32 list \<times> u32 \<times> u32 list"

definition div_step :: "u32 list \<Rightarrow> nat \<Rightarrow> nat \<Rightarrow> div_state \<Rightarrow> div_state" where
  "div_step v n j s =
     (case s of (uu, t1, q) \<Rightarrow>
        let t0 = uu ! (j + n - 1);
            qhat = estimate_digit t0 t1 (v ! (n - 1)) (v ! (n - 2)) (uu ! (j + n - 2));
            (ww, overflow) = BigNumberMultSub t1 (slice j n uu) (take n v) qhat;
            (ww, qj) = (if overflow \<noteq> 0 then (fst (BigNumberAdd ww (take n v)), qhat - 1) else (ww, qhat));
            uu = blit uu j ww
        in (uu, uu ! (j + n - 1), q[j := qj]))"

text \<open>
  The result is (the returned code, \<open>q\<close>, \<open>r\<close>, \<open>v\<close>); the code shifts \<open>v\<close> in place and shifts it back.
\<close>

definition BigNumberDivide :: "u32 list \<Rightarrow> u32 list \<Rightarrow> int \<times> u32 list \<times> u32 list \<times> u32 list" where
  "BigNumberDivide u v =
     (let zero = replicate (length u) 0;
          n = BigNumberSizeof v (length v);
          su = BigNumberSizeof u (length u)
      in if n = 0 then (-1, zero, zero, v)
         else if n = 1
           then (let (q, r) = BigNumberDividedw zero u (v ! 0) in (0, q, zero[0 := r], v))
         else if su < n then (0, zero, u, v)
         else if su = n \<and> BigNumberCompare u v n < 0 then (0, zero, u, v)
         else if su = n \<and> BigNumberCompare u v n = 0 then (0, zero[0 := 1], zero, v)
         else
           (let m = su - n;
                shift = normal_shift (v ! (n - 1));
                (vs, _) = BigNumberShiftLeft (take n v) (take n v) shift;
                (rs, overflow) = BigNumberShiftLeft (take su zero) (take su u) shift;
                (uu, _, q) = fold (div_step vs n) (rev [0 ..< Suc m]) (rs @ drop su zero, overflow, zero);
                uu = blit uu n (replicate m 0);
                (r, _) = BigNumberShiftRight (take n uu) (take n uu) shift;
                (v1, _) = BigNumberShiftRight vs vs shift
            in (0, q, blit uu 0 r, v1 @ drop n v)))"

subsection \<open>A quotient digit is right\<close>

lemma bit31_iff: "bit (v :: u32) 31 \<longleftrightarrow> 2147483648 \<le> unat v"
  unfolding high_bit unat_HIHALF by (simp add: less_eq_div_iff_mult_less_eq)

lemma digits_less_iff:
  assumes "a0 < B32" "b0 < B32"
  shows "a1 * B32 + a0 < b1 * B32 + (b0 :: nat) \<longleftrightarrow> a1 < b1 \<or> a1 = b1 \<and> a0 < b0"
  using assms by (cases "a1 < b1"; cases "a1 = b1") auto

lemma TooBig_iff:
  "BigNumberQhatTooBigHelper qhat rhat vn2 ujn2 \<longleftrightarrow>
   unat rhat * B32 + unat ujn2 < unat qhat * unat vn2"
proof -
  obtain t0 t1 where t: "BigNumberMultiplyHelper qhat vn2 = (t0, t1)" by (rule prod.exhaust)
  have e: "unat qhat * unat vn2 = unat t1 * B32 + unat t0" using mult_helper [OF t] by simp
  have "t1 = rhat \<longleftrightarrow> unat rhat = unat t1" by (auto simp: word_unat_eq_iff)
  then show ?thesis
    unfolding e digits_less_iff [OF unat_bound unat_bound]
    by (auto simp: BigNumberQhatTooBigHelper_def t word_less_nat_alt)
qed

lemma estimate_upper:
  assumes "R = qh * v1 + rh" "rh < v1" "u < b"
  shows "(R * b + u) div (v1 * b + v0) \<le> (qh :: nat)"
proof -
  have "R + 1 \<le> (qh + 1) * v1" using assms(1,2) by simp
  then have "(R + 1) * b \<le> (qh + 1) * v1 * b" by (rule mult_right_mono) simp
  then have "R * b + b \<le> (qh + 1) * (v1 * b)" by (simp add: algebra_simps)
  then have "R * b + u < (qh + 1) * (v1 * b + v0)" using assms(3) by (simp add: add_mult_distrib2)
  then have "(R * b + u) div (v1 * b + v0) < qh + 1" by (rule less_mult_imp_div_less)
  then show ?thesis by simp
qed

text \<open>The corrections, given the estimate with its remainder.\<close>

lemma correction_word:
  assumes "bit vtop 31" "unat R1 * B32 + unat R0 = unat qhat * unat vtop + unat rhat"
  shows "unat (if qhat \<noteq> 0 \<and> BigNumberQhatTooBigHelper qhat rhat vn2 ujn2
      then (if \<not> rhat + vtop < vtop \<and> BigNumberQhatTooBigHelper (qhat - 1) (rhat + vtop) vn2 ujn2
            then qhat - 1 - 1 else qhat - 1) else qhat) =
    min (unat qhat) (((unat R1 * B32 + unat R0) * B32 + unat ujn2) div (unat vtop * B32 + unat vn2))"
    (is "unat ?e = _")
proof -
  have q: "unat qhat \<le> B32 + 2" using unat_bound [of qhat] by simp
  have vt: "B32 \<le> 2 * unat vtop" using assms(1) bit31_iff [of vtop] by simp
  have "corrected B32 (unat vtop) (unat vn2) (unat ujn2) (unat qhat) (unat rhat) = unat ?e"
  proof (cases "BigNumberQhatTooBigHelper qhat rhat vn2 ujn2")
    case False
    then show ?thesis using TooBig_iff by (simp add: corrected_def)
  next
    case True
    then have big: "unat rhat * B32 + unat ujn2 < unat qhat * unat vn2" by (simp only: TooBig_iff)
    then have pos: "0 < unat qhat" by (cases "unat qhat") simp_all
    then have q1: "unat (qhat - 1) = unat qhat - 1" "qhat \<noteq> 0" by (auto simp: unat_sub_if)
    have fit: "\<not> rhat + vtop < vtop \<longleftrightarrow> unat rhat + unat vtop < B32" by (simp add: add_wraps not_le)
    have second: "\<not> rhat + vtop < vtop \<and> BigNumberQhatTooBigHelper (qhat - 1) (rhat + vtop) vn2 ujn2 \<longleftrightarrow>
        unat rhat + unat vtop < B32 \<and> (unat rhat + unat vtop) * B32 + unat ujn2 < (unat qhat - 1) * unat vn2"
      unfolding fit TooBig_iff q1 by (auto simp: unat_add_if)
    have "unat (qhat - 1 - 1) = unat qhat - 2"
      if "(unat rhat + unat vtop) * B32 + unat ujn2 < (unat qhat - 1) * unat vn2"
      using that q1 by (cases "unat (qhat - 1)") (simp_all add: unat_sub_if)
    then show ?thesis using True big second q1 by (simp add: corrected_def)
  qed
  then show ?thesis
    using corrected_min [OF assms(2) q unat_bound vt unat_bound, of vn2 ujn2] by simp
qed

lemma not_too_big_overflow:
  assumes "B32 \<le> rh" "qh < B32" "v0 < B32"
  shows "\<not> rh * B32 + u < qh * (v0 :: nat)"
proof -
  have "qh * v0 \<le> B32 * B32" using assms(2,3) by (intro mult_mono) simp_all
  also have "\<dots> \<le> rh * B32" using assms(1) by simp
  finally show ?thesis by simp
qed

lemma estimate_digit_exact:
  assumes "bit vtop 31" "unat t1 * B32 + unat t0 \<le> unat vtop * B32 + unat vn2"
  shows "unat (estimate_digit t0 t1 vtop vn2 ujn2) =
    min 4294967295 (((unat t1 * B32 + unat t0) * B32 + unat ujn2) div (unat vtop * B32 + unat vn2))"
proof -
  let ?R = "unat t1 * B32 + unat t0" and ?q3 = "((unat t1 * B32 + unat t0) * B32 + unat ujn2) div (unat vtop * B32 + unat vn2)"
  obtain ov qh rh where d: "BigNumberDivideHelper t0 t1 vtop = (ov, qh, rh)" by (metis prod_cases3)
  note D = DivideHelper_exact [OF assms(1) d]
  have vpos: "0 < unat vtop" using assms(1) bit31_iff [of vtop] by simp
  show ?thesis
  proof (cases "unat t1 < unat vtop")
    case True
    then have "unat ov = 0" using D(1) by simp
    then have ov: "ov = 0" by (simp add: unat_eq_0)
    have R: "?R = unat qh * unat vtop + unat rh" using D(2,3) ov by simp
    have "unat rh < unat vtop" using D(3) vpos by simp
    then have "?q3 \<le> unat qh" by (rule estimate_upper [OF R _ unat_bound])
    then have "min 4294967295 ?q3 = min (unat qh) ?q3" using unat_bound [of qh] by simp
    then show ?thesis
      unfolding correction_word [OF assms(1) R, of vn2 ujn2, symmetric]
      unfolding estimate_digit_def d ov by (simp add: Let_def)
  next
    case False
    have t1: "unat t1 = unat vtop"
    proof (rule ccontr)
      assume "unat t1 \<noteq> unat vtop"
      with False have "(unat vtop + 1) * B32 \<le> unat t1 * B32" by (intro mult_right_mono) simp_all
      then show False using assms(2) unat_bound [of vn2] by simp
    qed
    then have "unat ov = 1" using D(1) vpos by simp
    then have ov: "ov \<noteq> 0" by auto
    have R: "?R = 4294967295 * unat vtop + (unat t0 + unat vtop)" unfolding t1 by simp
    show ?thesis
    proof (cases "t0 + vtop < vtop")
      case True
      then have "B32 \<le> unat t0 + unat vtop" by (simp add: add_wraps)
      then have "\<not> (unat t0 + unat vtop) * B32 + unat ujn2 < 4294967295 * unat vn2"
        by (rule not_too_big_overflow) (simp_all add: unat_bound)
      then have "4294967295 \<le> ?q3"
        using too_big_iff [OF _ R, of B32 "unat vn2" "unat ujn2"] vpos by simp
      then show ?thesis using True ov by (simp add: estimate_digit_def d Let_def)
    next
      case False
      then have "unat (t0 + vtop) = unat t0 + unat vtop" using add_carry [of t0 vtop] by simp
      then have R': "?R = unat MAXIMUMNR * unat vtop + unat (t0 + vtop)" using R by simp
      show ?thesis
        unfolding correction_word [OF assms(1) R', of vn2 ujn2, symmetric, unfolded unat_MAXIMUMNR]
        unfolding estimate_digit_def d using False ov by (simp add: Let_def MAXIMUMNR_def)
    qed
  qed
qed

lemma mulsub_digit_val:
  assumes "mulsub_digit q k w v = (r, k1)"
  shows "unat r + unat q * unat v + unat k = unat w + B32 * unat k1"
proof -
  obtain p0 p1 where p: "BigNumberMultiplyHelper q v = (p0, p1)" by (rule prod.exhaust)
  note pv = mult_helper [OF p]
  define x where "x = w - k"
  define c where "c = (if x > MAXIMUMNR - k then 1 else 0 :: u32)"
  define d where "d = (if x - p0 > MAXIMUMNR - p0 then c + 1 else c)"
  have r: "r = x - p0" and k1: "k1 = d + p1"
    using assms [symmetric] unfolding mulsub_digit_def p prod.case Let_def x_def c_def d_def
    by (simp_all only: prod.inject)
  have 1: "unat x + unat k = unat w + B32 * (if x > MAXIMUMNR - k then 1 else 0)"
    unfolding x_def by (rule sub_borrow)
  have 2: "unat r + unat p0 = unat x + B32 * (if x - p0 > MAXIMUMNR - p0 then 1 else 0)"
    unfolding r by (rule sub_borrow)
  have d: "unat d = (if x > MAXIMUMNR - k then 1 else 0) + (if x - p0 > MAXIMUMNR - p0 then 1 else 0)"
    unfolding d_def c_def by simp
  have total: "unat r + unat q * unat v + unat k = unat w + B32 * (unat d + unat p1)"
    unfolding d using 1 2 pv by (simp only: add_mult_distrib2)
  have "unat q * unat v \<le> 4294967295 * 4294967295"
    using unat_bound [of q] unat_bound [of v] by (intro mult_mono) simp_all
  then have "unat w + B32 * (unat d + unat p1) < B32 * B32"
    unfolding total [symmetric] using unat_bound [of r] unat_bound [of k] by simp
  then have "unat d + unat p1 < B32" by (rule digit_lim [OF refl])
  then have "unat k1 = unat d + unat p1" unfolding k1 unat_add_if by simp
  then show ?thesis using total by simp
qed

lemma mulsub_loop_val:
  assumes "length ws = length vs" "mulsub_loop q k ws vs = (rs, k1)"
  shows "length rs = length ws \<and>
    val rs + unat q * val vs + unat k = val ws + 2 ^ (32 * length ws) * unat k1"
  using assms
proof (induction ws vs arbitrary: k rs rule: list_induct2)
  case (Cons w ws v vs)
  obtain r k2 where d: "mulsub_digit q k w v = (r, k2)" by (rule prod.exhaust)
  obtain rs2 k3 where l: "mulsub_loop q k2 ws vs = (rs2, k3)" by (rule prod.exhaust)
  have e: "rs = r # rs2" "k3 = k1" using Cons.prems d l by auto
  from Cons.IH [OF l [unfolded e(2)]] mulsub_digit_val [OF d] show ?case
    unfolding e(1) by (simp add: power_add algebra_simps)
qed simp

text \<open>Subtracting an exact multiple, or one too many.\<close>

lemma MultSub_digit:
  assumes "length w = length v" "unat wn * 2 ^ (32 * length w) + val w = W" "0 < val v"
    "W div val v < B32" "BigNumberMultSub wn w v qh = (w1, wn1)"
  shows "unat qh = W div val v \<Longrightarrow> wn1 = 0 \<and> length w1 = length w \<and> val w1 = W mod val v"
    "unat qh = W div val v + 1 \<Longrightarrow> wn1 \<noteq> 0 \<and> length w1 = length w \<and>
      val (fst (BigNumberAdd w1 v)) = W mod val v \<and> length (fst (BigNumberAdd w1 v)) = length w"
proof -
  let ?B = "2 ^ (32 * length w) :: nat"
  have "\<exists>k. length w1 = length w \<and> val w1 + unat qh * val v = val w + ?B * unat k \<and> wn1 = wn - k"
  proof (cases "qh = 0")
    case True
    then show ?thesis using assms(5) by (intro exI [of _ 0]) (auto simp: BigNumberMultSub_def)
  next
    case False
    obtain ws k where l: "mulsub_loop qh 0 w v = (ws, k)" by (rule prod.exhaust)
    then show ?thesis using mulsub_loop_val [OF assms(1) l] assms(5) False
      by (intro exI [of _ k]) (auto simp: BigNumberMultSub_def)
  qed
  then obtain k where k: "length w1 = length w" "val w1 + unat qh * val v = val w + ?B * unat k" "wn1 = wn - k"
    by blast
  have b1: "val w1 < ?B" using val_bound [of w1] k(1) by simp
  have bv: "val v < ?B" using val_bound [of v] assms(1) by simp
  have W: "W = W div val v * val v + W mod val v" and rem: "W mod val v < val v" using assms(3) by simp_all
  show "wn1 = 0 \<and> length w1 = length w \<and> val w1 = W mod val v" if "unat qh = W div val v"
  proof -
    have e: "val w1 + ?B * unat wn = W mod val v + ?B * unat k"
      using k(2) assms(2) W unfolding that mult.commute [of "unat wn"] by linarith
    have "unat wn = (val w1 + ?B * unat wn) div ?B" using b1 by simp
    also have "\<dots> = unat k" unfolding e using rem bv by simp
    finally have "wn = k" by (simp add: word_unat_eq_iff)
    then show ?thesis using e k by simp
  qed
  show "wn1 \<noteq> 0 \<and> length w1 = length w \<and> val (fst (BigNumberAdd w1 v)) = W mod val v \<and>
      length (fst (BigNumberAdd w1 v)) = length w" if q: "unat qh = W div val v + 1"
  proof -
    have e: "val w1 + val v + ?B * unat wn = W mod val v + ?B * unat k"
      using k(2) assms(2) W unfolding q mult.commute [of "unat wn"] add_mult_distrib by linarith
    have "unat wn \<noteq> unat k" using e rem by (metis add.commute add_right_cancel le_add2 not_le)
    then have nz: "wn1 \<noteq> 0" using k(3) by auto
    obtain c kk where a: "BigNumberAdd w1 v = (c, kk)" by (rule prod.exhaust)
    have l1: "length w1 = length v" using k(1) assms(1) by simp
    note A = BigNumberAdd_val [OF l1 a]
    have bc: "val c < ?B" using val_bound [of c] A k(1) by simp
    have "val c + ?B * (unat kk + unat wn) = W mod val v + ?B * unat k"
      using A e k(1) by (simp add: algebra_simps)
    then have "(val c + ?B * (unat kk + unat wn)) mod ?B = (W mod val v + ?B * unat k) mod ?B" by simp
    then have "val c = W mod val v" using bc rem bv by simp
    then show ?thesis using nz A k(1) a by simp
  qed
qed

text \<open>Three leading digits over two: the estimate is the digit or one more.\<close>

lemma le_of_mult_less: "a * P < (b + 1) * P \<Longrightarrow> a \<le> (b :: nat)"
  unfolding mult_less_cancel2 by simp

lemma quotient_digit:
  fixes W3 V2 P :: nat
  assumes "Wl < P" "Vl < P" "B32 \<le> V2" "W = W3 * P + Wl" "V = V2 * P + Vl" "W < B32 * V"
    "qh = min 4294967295 (W3 div V2)"
  shows "qh = W div V \<or> qh = W div V + 1"
proof -
  have V: "0 < V" "B32 * P \<le> V"
    using assms(1,3) unfolding assms(5) by (simp_all add: trans_le_add1)
  have Q: "W div V \<le> 4294967295"
    using less_mult_imp_div_less [of W B32 V] assms(6) by simp
  have "W div V * V \<le> W" by simp
  then have "W div V * V2 * P \<le> W" unfolding assms(5) by (simp add: add_mult_distrib2 mult.assoc)
  then have "W div V * V2 * P < (W3 + 1) * P" unfolding assms(4) using assms(1) by simp
  then have "W div V * V2 \<le> W3" by (rule le_of_mult_less)
  then have "W div V \<le> W3 div V2" using assms(3) by (simp add: less_eq_div_iff_mult_less_eq)
  then have lower: "W div V \<le> qh" unfolding assms(7) using Q by simp
  have "qh * V2 \<le> W3 div V2 * V2" unfolding assms(7) by (intro mult_right_mono) simp_all
  also have "\<dots> \<le> W3" by simp
  finally have "qh * V2 * P \<le> W3 * P" by (rule mult_right_mono) simp
  moreover have "qh * Vl \<le> 4294967295 * P" unfolding assms(7) using assms(2) by (intro mult_mono) simp_all
  ultimately have "qh * V \<le> W + 4294967295 * P"
    unfolding assms(4,5) add_mult_distrib2 mult.assoc [symmetric] by linarith
  also have "\<dots> < W + V" using V(2) assms(1) by simp
  also have "\<dots> = (W div V + 1) * V + W mod V" by simp
  also have "\<dots> < (W div V + 1) * V + V" using V(1) by (simp only: add_less_cancel_left mod_less_divisor)
  also have "\<dots> = (W div V + 2) * V" by (simp add: add_mult_distrib)
  finally have "qh < W div V + 2" unfolding mult_less_cancel2 by simp
  then show ?thesis using lower by linarith
qed

lemma val_top2:
  assumes "2 \<le> n" "n \<le> length x"
  shows "val (take n x) = (unat (x ! (n - 1)) * B32 + unat (x ! (n - 2))) * 2 ^ (32 * (n - 2)) + val (take (n - 2) x)"
proof -
  have "n = Suc (Suc (n - 2))" using assms(1) by simp
  then obtain k where n: "n = Suc (Suc k)" by blast
  show ?thesis
    using val_take_Suc [of "Suc k" x] val_take_Suc [of k x] assms(2) unfolding n
    by (simp add: power_add algebra_simps)
qed

lemma div_step_digit:
  assumes n: "2 \<le> n" "n \<le> length v" and fits: "j + n \<le> length uu" "j < length q"
    and top: "bit (v ! (n - 1)) 31"
    and W: "W = unat t * 2 ^ (32 * n) + val (slice j n uu)" and V: "V = val (take n v)" and less: "W < B32 * V"
    and run: "div_step v n j (uu, t, q) = (uu1, t1, q1)"
  shows "length uu1 = length uu" "take j uu1 = take j uu" "val (slice j n uu1) = W mod V"
    "t1 = uu1 ! (j + n - 1)" "q1 = q[j := q1 ! j]" "unat (q1 ! j) = W div V"
    "drop (j + n) uu1 = drop (j + n) uu"
proof -
  define w where "w = slice j n uu"
  have lw: "length w = n" using fits(1) by (simp add: w_def)
  have nth: "w ! (n - 1) = uu ! (j + n - 1)" "w ! (n - 2) = uu ! (j + n - 2)"
    using n(1) fits(1) by (simp_all add: w_def slice_nth)
  define qh where "qh = estimate_digit (w ! (n - 1)) t (v ! (n - 1)) (v ! (n - 2)) (w ! (n - 2))"
  let ?P = "2 ^ (32 * (n - 2)) :: nat"
  let ?V2 = "unat (v ! (n - 1)) * B32 + unat (v ! (n - 2))"
  let ?R = "unat t * B32 + unat (w ! (n - 1))"
  have Vs: "V = ?V2 * ?P + val (take (n - 2) v)" unfolding V by (rule val_top2 [OF n])
  have pow: "(2 :: nat) ^ (32 * n) = B32 * B32 * ?P"
  proof -
    have "n = 2 + (n - 2)" using n(1) by simp
    then have "(2 :: nat) ^ (32 * n) = 2 ^ (64 + 32 * (n - 2))" by (metis add_mult_distrib2 mult_2_right numeral_Bit0)
    then show ?thesis by (simp add: power_add)
  qed
  have "val w = (unat (w ! (n - 1)) * B32 + unat (w ! (n - 2))) * ?P + val (take (n - 2) w)"
    using val_top2 [OF n(1), of w] lw by simp
  then have Ws: "W = (?R * B32 + unat (w ! (n - 2))) * ?P + val (take (n - 2) w)"
    unfolding W w_def [symmetric] pow by (simp add: algebra_simps)
  have lo: "val (take (n - 2) w) < ?P" "val (take (n - 2) v) < ?P"
    using val_bound [of "take (n - 2) w"] val_bound [of "take (n - 2) v"] lw n by simp_all
  have vt: "2147483648 \<le> unat (v ! (n - 1))" using top bit31_iff by simp
  have "?R * (B32 * ?P) \<le> W" unfolding Ws by (simp add: algebra_simps)
  also have "W < B32 * ((?V2 + 1) * ?P)" using less lo(2) unfolding Vs by (simp add: algebra_simps)
  finally have "?R * (B32 * ?P) < (?V2 + 1) * (B32 * ?P)" by (simp add: algebra_simps)
  then have R: "?R \<le> ?V2" by (rule le_of_mult_less)
  have "unat qh = min 4294967295 ((?R * B32 + unat (w ! (n - 2))) div ?V2)"
    unfolding qh_def by (rule estimate_digit_exact [OF top R])
  then have q: "unat qh = W div V \<or> unat qh = W div V + 1"
    by (intro quotient_digit [OF lo _ Ws Vs less]) (use vt in simp_all)
  obtain w1 wn1 where ms: "BigNumberMultSub t w (take n v) qh = (w1, wn1)" by (rule prod.exhaust)
  have lv: "length w = length (take n v)" using lw n by simp
  have V0: "0 < val (take n v)" using less unfolding V by (cases "val (take n v)") simp_all
  have QB: "W div val (take n v) < B32" using less unfolding V by (rule less_mult_imp_div_less)
  have W': "unat t * 2 ^ (32 * length w) + val w = W" unfolding lw unfolding W w_def ..
  note M = MultSub_digit [OF lv W' V0 QB ms, folded V]
  define r where "r = (if wn1 \<noteq> 0 then (fst (BigNumberAdd w1 (take n v)), qh - 1) else (w1, qh))"
  have r: "length (fst r) = n" "val (fst r) = W mod V" "unat (snd r) = W div V"
    using q M lw unfolding r_def by (auto simp: unat_sub_if)
  have e: "(uu1, t1, q1) = (blit uu j (fst r), blit uu j (fst r) ! (j + n - 1), q[j := snd r])"
    using run unfolding div_step_def prod.case Let_def nth [symmetric] qh_def [symmetric] w_def [symmetric] ms
    by (auto simp: r_def split: if_splits)
  then show "length uu1 = length uu" "take j uu1 = take j uu" "t1 = uu1 ! (j + n - 1)" "q1 = q[j := q1 ! j]"
    "unat (q1 ! j) = W div V" "drop (j + n) uu1 = drop (j + n) uu"
    using r fits by (simp_all add: blit_def)
  show "val (slice j n uu1) = W mod V"
    using e r blit_slice_same [of j "fst r" uu] fits(1) by simp
qed

subsection \<open>The whole division\<close>

text \<open>The value still to be divided when the digits from \<open>j\<close> on are done.\<close>

definition div_rest :: "nat \<Rightarrow> nat \<Rightarrow> u32 list \<Rightarrow> u32 \<Rightarrow> nat" where
  "div_rest n j uu t = unat t * 2 ^ (32 * (j + n - 1)) + val (take (j + n - 1) uu)"

definition div_inv :: "u32 list \<Rightarrow> nat \<Rightarrow> nat \<Rightarrow> nat \<Rightarrow> nat \<Rightarrow> nat \<Rightarrow> div_state \<Rightarrow> bool" where
  "div_inv v n m U usize j s \<longleftrightarrow>
     (case s of (uu, t, q) \<Rightarrow>
        length uu = usize \<and> length q = usize \<and>
        drop (m + n) uu = replicate (usize - (m + n)) 0 \<and>
        val (drop j q) * val (take n v) * 2 ^ (32 * j) + div_rest n j uu t = U \<and>
        div_rest n j uu t < val (take n v) * 2 ^ (32 * j) \<and>
        (j \<le> m \<longrightarrow> t = uu ! (j + n - 1)))"

lemma digit_row: "(x + b * y) * v * p + (r * p + t) = (x * v + r) * p + b * y * v * p + (t :: nat)"
  by (simp add: algebra_simps)

lemma div_inv_step:
  assumes n: "2 \<le> n" "n \<le> length v" "bit (v ! (n - 1)) 31" and j: "j \<le> m" "m + n \<le> usize"
    and inv: "div_inv v n m U usize (Suc j) s"
  shows "div_inv v n m U usize j (div_step v n j s)"
proof -
  obtain uu t q where s: "s = (uu, t, q)" by (cases s)
  obtain uu1 t1 q1 where run: "div_step v n j (uu, t, q) = (uu1, t1, q1)" by (metis prod_cases3)
  let ?V = "val (take n v)" and ?P = "2 ^ (32 * j) :: nat"
  have I: "length uu = usize" "length q = usize"
    "val (drop (Suc j) q) * ?V * 2 ^ (32 * Suc j) + div_rest n (Suc j) uu t = U"
    "div_rest n (Suc j) uu t < ?V * 2 ^ (32 * Suc j)" "drop (m + n) uu = replicate (usize - (m + n)) 0"
    using inv unfolding s div_inv_def by simp_all
  define W where "W = unat t * 2 ^ (32 * n) + val (slice j n uu)"
  have tk: "val (take (j + k) x) = val (take j x) + ?P * val (slice j k x)" if "j + k \<le> length x" for k x
    using that by (simp add: take_add slice_def val_append)
  have rest: "div_rest n (Suc j) uu t = W * ?P + val (take j uu)"
    using tk [of n uu] I(1) j n(1) by (simp add: div_rest_def W_def power_add algebra_simps)
  have "?V * 2 ^ (32 * Suc j) = (B32 * ?V) * ?P" by (simp add: power_add)
  then have "W * ?P < (B32 * ?V) * ?P" using I(4) unfolding rest by linarith
  then have less: "W < B32 * ?V" unfolding mult_less_cancel2 by simp
  have fits: "j + n \<le> length uu" "j < length q" using I(1,2) j n(1) by simp_all
  note D = div_step_digit [OF n(1,2) fits n(3) W_def refl less run]
  have lj: "val (take j uu) < ?P" using val_bound [of "take j uu"] fits by simp
  have n1: "j + n - 1 = j + (n - 1)" using n(1) by simp
  have "val (take (j + n) uu1) = div_rest n j uu1 t1"
    using val_take_Suc [of "j + n - 1" uu1] fits D(1) n(1) unfolding D(4) div_rest_def by simp
  then have rest1: "div_rest n j uu1 t1 = W mod ?V * ?P + val (take j uu)"
    using tk [of n uu1] D(1-3) fits by (simp add: mult.commute)
  have V: "0 < ?V" using less by (cases ?V) simp_all
  have "(W mod ?V + 1) * ?P \<le> ?V * ?P" using V by (intro mult_right_mono) (simp_all add: Suc_leI)
  then have bound: "div_rest n j uu1 t1 < ?V * ?P" unfolding rest1 using lj by simp
  have q1: "length q1 = length q" "drop (Suc j) q1 = drop (Suc j) q"
    using arg_cong [OF D(5), of length] arg_cong [OF D(5), of "drop (Suc j)"] by simp_all
  have dq: "val (drop j q1) = W div ?V + B32 * val (drop (Suc j) q)"
    using fits(2) D(6) q1 by (simp add: Cons_nth_drop_Suc [symmetric])
  have WV: "W div ?V * ?V + W mod ?V = W" by simp
  have "val (drop j q1) * ?V * ?P + div_rest n j uu1 t1 =
      (W div ?V * ?V + W mod ?V) * ?P + B32 * val (drop (Suc j) q) * ?V * ?P + val (take j uu)"
    unfolding rest1 dq by (rule digit_row)
  also have "\<dots> = U" unfolding WV using I(3) unfolding rest by (simp add: power_add algebra_simps)
  finally have "val (drop j q1) * ?V * ?P + div_rest n j uu1 t1 = U" .
  moreover have "drop (m + n) uu1 = drop (m + n) uu"
  proof -
    have "m - j + (j + n) = m + n" using j by simp
    then have "drop (m + n) x = drop (m - j) (drop (j + n) x)" for x :: "u32 list" by (simp only: drop_drop)
    then show ?thesis by (simp only: D(7))
  qed
  ultimately show ?thesis
    unfolding s run div_inv_def using I(1,2,5) D(1,4) q1(1) bound by simp
qed

lemma div_inv_loop:
  assumes "2 \<le> n" "n \<le> length v" "bit (v ! (n - 1)) 31" "m + n \<le> usize"
  shows "k \<le> Suc m \<Longrightarrow> div_inv v n m U usize k s \<Longrightarrow>
    div_inv v n m U usize 0 (fold (div_step v n) (rev [0 ..< k]) s)"
proof (induction k arbitrary: s)
  case (Suc k)
  have "div_inv v n m U usize k (div_step v n k s)"
    using div_inv_step [OF assms(1-3) _ assms(4) Suc.prems(2)] Suc.prems(1) by simp
  then show ?case using Suc.IH Suc.prems(1) by simp
qed simp

lemma top_digit_nonzero:
  assumes "BigNumberSizeof A n = k" "0 < k"
  shows "A ! (k - 1) \<noteq> 0"
  using BigNumberSizeof_top [of A n "k - 1"] assms by simp

text \<open>Normalising the divisor loses nothing and sets its top bit.\<close>

lemma normalise_divisor:
  assumes "w \<noteq> []" "last w \<noteq> 0" "s = normal_shift (last w)" "BigNumberShiftLeft a w s = (vs, k)"
  shows "length vs = length w" "val vs = 2 ^ s * val w" "bit (vs ! (length w - 1)) 31" "s < 32"
proof -
  note N = normal_shift_spec [OF assms(2), folded assms(3)]
  note S = ShiftLeft_val [OF N(1) assms(4)]
  define l where "l = length w - 1"
  have lw: "length w = Suc l" using assms(1) by (cases w) (simp_all add: l_def)
  have last: "last w = w ! l" using assms(1) by (simp add: last_conv_nth l_def)
  let ?P = "2 ^ (32 * l) :: nat"
  have vw: "val w = val (take l w) + ?P * unat (w ! l)"
    using val_take_Suc [of l w] lw by simp
  have lo: "val (take l w) < ?P" using val_bound [of "take l w"] lw by simp
  have "val w < ?P * (unat (w ! l) + 1)" unfolding vw using lo by simp
  also have "\<dots> \<le> ?P * 2 ^ (32 - s)" using N(4) last by (intro mult_left_mono) simp_all
  finally have "2 ^ s * val w < 2 ^ s * (?P * 2 ^ (32 - s))" by simp
  also have "\<dots> = ?P * (2 ^ s * 2 ^ (32 - s))" by (simp add: mult.left_commute)
  also have "\<dots> = 2 ^ (32 * length w)"
    unfolding power_add [symmetric] lw using N(1) by (simp add: power_add)
  finally have small: "2 ^ s * val w < 2 ^ (32 * length w)" .
  have "unat k = 0"
  proof (rule ccontr)
    assume "unat k \<noteq> 0"
    then have "2 ^ (32 * length w) * 1 \<le> 2 ^ (32 * length w) * unat k" by (intro mult_left_mono) simp_all
    then show False using S(3) small by linarith
  qed
  then show v: "val vs = 2 ^ s * val w" using S(3) by simp
  show l1: "length vs = length w" by (rule S(1))
  show "s < 32" by (rule N(1))
  have "val vs = val (take l vs) + ?P * unat (vs ! l)"
    using val_take_Suc [of l vs] l1 lw by simp
  moreover have "val (take l vs) < ?P" using val_bound [of "take l vs"] l1 lw by simp
  moreover have "?P * 2147483648 \<le> val vs"
  proof -
    have "2147483648 \<le> unat (w ! l) * 2 ^ s" using N(2,3) last bit31_iff by simp
    then have "?P * 2147483648 \<le> ?P * (unat (w ! l) * 2 ^ s)" by (rule mult_left_mono) simp
    also have "\<dots> \<le> 2 ^ s * val w" unfolding vw by (simp add: algebra_simps)
    finally show ?thesis unfolding v .
  qed
  ultimately have "?P * 2147483648 < ?P * unat (vs ! l) + ?P" by linarith
  then have "?P * 2147483648 < ?P * (unat (vs ! l) + 1)" by (simp only: add_mult_distrib2 mult_1_right)
  then have "2147483648 \<le> unat (vs ! l)" unfolding mult_less_cancel1 by simp
  then show "bit (vs ! (length w - 1)) 31" unfolding bit31_iff l_def .
qed

lemma quotient_remainder: "r < d \<Longrightarrow> (q * d + r) div d = q \<and> (q * d + r) mod d = (r :: nat)"
  by auto

lemma long_division:
  assumes "BigNumberSizeof v (length v) = n" "2 \<le> n" "BigNumberSizeof u (length u) = n + m"
    and s: "s = normal_shift (v ! (n - 1))"
    and vs: "BigNumberShiftLeft a (take n v) s = (vs, k)"
    and rs: "BigNumberShiftLeft b (take (n + m) u) s = (rs, ov)"
    and run: "fold (div_step vs n) (rev [0 ..< Suc m])
      (rs @ replicate (length u - (n + m)) 0, ov, replicate (length u) 0) = (uu, t, q)"
    and r: "BigNumberShiftRight c (take n uu) s = (r, k2)"
    and v1: "BigNumberShiftRight d vs s = (v1, k3)"
  shows "length q = length u \<and> val q = val u div val v \<and> length uu = length u \<and>
    length r = n \<and> val r = val u mod val v \<and> v1 = take n v \<and>
    drop (n + m) uu = replicate (length u - (n + m)) 0"
proof -
  let ?w = "take n v"
  have n: "n \<le> length v" using BigNumberSizeof_le [of v "length v"] assms(1) by simp
  have m: "n + m \<le> length u" using BigNumberSizeof_le [of u "length u"] assms(3) by simp
  have lastw: "last ?w = v ! (n - 1)" using n assms(2) by (subst last_conv_nth) auto
  have w: "?w \<noteq> []" "last ?w \<noteq> 0" "s = normal_shift (last ?w)"
    using n assms(2) top_digit_nonzero [OF assms(1)] s lastw by auto
  note V = normalise_divisor [OF w vs]
  have lvs: "length vs = n" using V(1) n by simp
  have valv: "val ?w = val v" "val (take (n + m) u) = val u"
    using val_take_Sizeof [of v] val_take_Sizeof [of u] assms(1,3) by simp_all
  note R = ShiftLeft_val [OF V(4) rs]
  let ?U = "2 ^ s * val u" and ?V = "2 ^ s * val v"
  have VV: "val (take n vs) = ?V" using V(2) lvs valv by simp
  have U: "val rs + 2 ^ (32 * (n + m)) * unat ov = ?U" using R(3) m valv by simp
  let ?s0 = "(rs @ replicate (length u - (n + m)) 0, ov, replicate (length u) 0)"
  have lrs: "length rs = n + m" using R(1) m by simp
  have top: "bit (vs ! (n - 1)) 31" using V(3) n by simp
  have rest0: "div_rest n (Suc m) (rs @ replicate (length u - (n + m)) 0) ov = ?U"
    using U lrs assms(2) by (simp add: div_rest_def add.commute mult.commute)
  have "?U < ?V * 2 ^ (32 * Suc m)"
  proof -
    have "val rs < 2 ^ (32 * (n + m))" using val_bound [of rs] lrs by simp
    then have "?U < 2 ^ (32 * (n + m)) * (unat ov + 1)" using U by simp
    also have "\<dots> \<le> 2 ^ (32 * (n + m)) * 2147483648"
    proof (rule mult_left_mono)
      have "(2 :: nat) ^ s \<le> 2 ^ 31" using V(4) by (intro power_increasing) simp_all
      then show "unat ov + 1 \<le> 2147483648" using R(2) by simp
    qed simp
    also have "\<dots> = 2 ^ (32 * (n - 1)) * 2147483648 * 2 ^ (32 * Suc m)"
    proof -
      have "32 * (n + m) = 32 * (n - 1) + 32 * Suc m" using assms(2) by simp
      then show ?thesis by (simp only: power_add)
    qed
    also have "\<dots> \<le> ?V * 2 ^ (32 * Suc m)"
    proof (rule mult_right_mono)
      have "val (take (Suc (n - 1)) vs) = val (take (n - 1) vs) + 2 ^ (32 * (n - 1)) * unat (vs ! (n - 1))"
        using lvs assms(2) by (intro val_take_Suc) simp
      moreover have "Suc (n - 1) = n" using assms(2) by simp
      ultimately have "2 ^ (32 * (n - 1)) * unat (vs ! (n - 1)) \<le> ?V" using VV by simp
      moreover have "2 ^ (32 * (n - 1)) * 2147483648 \<le> 2 ^ (32 * (n - 1)) * unat (vs ! (n - 1))"
        using top bit31_iff by (intro mult_left_mono) simp_all
      ultimately show "2 ^ (32 * (n - 1)) * 2147483648 \<le> ?V" by linarith
    qed simp
    finally show ?thesis .
  qed
  then have inv0: "div_inv vs n m ?U (length u) (Suc m) ?s0"
    unfolding div_inv_def prod.case rest0 VV using lrs m by (simp add: add.commute)
  have lenm: "m + n \<le> length u" using m by simp
  have inv1: "div_inv vs n m ?U (length u) 0 (uu, t, q)"
    using div_inv_loop [OF assms(2) _ top lenm le_refl inv0] lvs run by simp
  note inv1 [unfolded div_inv_def prod.case VV drop_0 mult_0_right power_0 mult_1_right add_0 le0 simp_thms]
  then have I: "length uu = length u" "length q = length u" "val q * ?V + div_rest n 0 uu t = ?U"
    "div_rest n 0 uu t < ?V" "t = uu ! (n - 1)" "drop (m + n) uu = replicate (length u - (m + n)) 0"
    by blast+
  have "div_rest n 0 uu t = val (take n uu)"
    using val_take_Suc [of "n - 1" uu] I(1,5) m assms(2) by (simp add: div_rest_def mult.commute)
  then have e: "val q * ?V + val (take n uu) = ?U" "val (take n uu) < ?V" using I by simp_all
  have "?U = val q * ?V + val (take n uu)" using e by simp
  then have qd: "val q = ?U div ?V" and rm: "val (take n uu) = ?U mod ?V"
    using quotient_remainder [OF e(2), of "val q"] by simp_all
  have v1': "val v1 = val ?w" "length v1 = n"
    using ShiftRight_val [OF V(4) v1] V(2) lvs by simp_all
  have "v1 = ?w" using v1' val_inj [of v1 ?w] n by simp
  moreover have "val r = val u mod val v" "length r = n"
    using ShiftRight_val [OF V(4) r] rm I(1) m by (simp_all add: mult_mod_right [symmetric])
  moreover have "val q = val u div val v" unfolding qd by simp
  ultimately show ?thesis using I(1,2,6) by (simp add: add.commute)
qed

lemma val_singleton_update: "0 < k \<Longrightarrow> val ((replicate k 0)[0 := d]) = unat d"
  by (cases k) simp_all

lemma BigNumberDivide_zero: "val v = 0 \<Longrightarrow> BigNumberDivide u v = (-1, replicate (length u) 0, replicate (length u) 0, v)"
  using BigNumberSizeof_0 [of "length v" v] by (simp add: BigNumberDivide_def Let_def)

lemma BigNumberDivide_val:
  assumes "u \<noteq> []" "val v \<noteq> 0"
  shows "\<exists>q r. BigNumberDivide u v = (0, q, r, v) \<and> length q = length u \<and> length r = length u \<and>
    val q = val u div val v \<and> val r = val u mod val v"
proof -
  define n su where "n = BigNumberSizeof v (length v)" and "su = BigNumberSizeof u (length u)"
  let ?z = "replicate (length u) 0 :: u32 list"
  have n0: "n \<noteq> 0" using BigNumberSizeof_0 [of "length v" v] assms(2) by (simp add: n_def)
  have nl: "n \<le> length v" and sl: "su \<le> length u" by (simp_all add: n_def su_def BigNumberSizeof_le)
  have vv: "val (take n v) = val v" and vu: "val (take su u) = val u"
    by (simp_all add: n_def su_def val_take_Sizeof)
  note defs = BigNumberDivide_def Let_def n_def [symmetric] su_def [symmetric]
  have vlow: "2 ^ (32 * (n - 1)) \<le> val v"
  proof -
    have "val (take (Suc (n - 1)) v) = val (take (n - 1) v) + 2 ^ (32 * (n - 1)) * unat (v ! (n - 1))"
      using n0 nl by (intro val_take_Suc) simp
    moreover have "0 < unat (v ! (n - 1))"
      using top_digit_nonzero [of v "length v" n] n0 by (simp add: n_def unat_gt_0)
    then have "2 ^ (32 * (n - 1)) * 1 \<le> 2 ^ (32 * (n - 1)) * unat (v ! (n - 1))" by (intro mult_left_mono) simp_all
    moreover have "Suc (n - 1) = n" using n0 by simp
    ultimately have "val v = val (take (n - 1) v) + 2 ^ (32 * (n - 1)) * unat (v ! (n - 1))" using vv by simp
    then show ?thesis using \<open>2 ^ (32 * (n - 1)) * 1 \<le> 2 ^ (32 * (n - 1)) * unat (v ! (n - 1))\<close> by linarith
  qed
  consider "n = 1" | "n \<noteq> 1" "su < n" | "n \<noteq> 1" "su = n" "BigNumberCompare u v n \<le> 0" | "2 \<le> n" "n \<le> su"
      "\<not> (su = n \<and> BigNumberCompare u v n \<le> 0)"
    using n0 by linarith
  then show ?thesis
  proof cases
    case 1
    obtain q r where d: "BigNumberDividedw ?z u (v ! 0) = (q, r)" by (rule prod.exhaust)
    have v0: "val v = unat (v ! 0)" using vv 1 nl by (cases v) simp_all
    then have "v ! 0 \<noteq> 0" using assms(2) by auto
    note D = Dividedw_val [OF assms(1) this d]
    have "val u div val v = val q" "val u mod val v = unat r" using D unfolding v0 by simp_all
    then show ?thesis using 1 D(1) d assms(1) by (simp add: defs val_singleton_update)
  next
    case 2
    have "val u < 2 ^ (32 * su)" using val_bound [of "take su u"] vu sl by simp
    also have "\<dots> \<le> 2 ^ (32 * (n - 1))" using 2 n0 by (intro power_increasing) simp_all
    finally have "val u < val v" using vlow by simp
    then show ?thesis using 2 n0 by (simp add: defs)
  next
    case 3
    have c: "BigNumberCompare u v n = sgn (int (val u) - int (val v))"
      using BigNumberCompare_val [of n u v] nl sl 3 vv vu by simp
    show ?thesis
    proof (cases "val u < val v")
      case True
      then show ?thesis using 3 n0 c by (simp add: defs)
    next
      case False
      then have e: "val u = val v" using 3(3) c by (auto simp: sgn_if split: if_splits)
      then have "BigNumberDivide u v = (0, ?z[0 := 1], ?z, v)" using 3 n0 c by (simp add: defs)
      then show ?thesis using e assms by (simp add: val_singleton_update)
    qed
  next
    case 4
    define m where "m = su - n"
    have su: "su = n + m" using 4 by (simp add: m_def)
    define s where "s = normal_shift (v ! (n - 1))"
    obtain vs k where vs: "BigNumberShiftLeft (take n v) (take n v) s = (vs, k)" by (rule prod.exhaust)
    obtain rs ov where rs: "BigNumberShiftLeft (take su ?z) (take su u) s = (rs, ov)" by (rule prod.exhaust)
    obtain uu t q where run: "fold (div_step vs n) (rev [0 ..< Suc m]) (rs @ drop su ?z, ov, ?z) = (uu, t, q)"
      by (metis prod_cases3)
    define u1 where "u1 = blit uu n (replicate m 0)"
    obtain r k2 where r: "BigNumberShiftRight (take n u1) (take n u1) s = (r, k2)" by (rule prod.exhaust)
    obtain v1 k3 where v1: "BigNumberShiftRight vs vs s = (v1, k3)" by (rule prod.exhaust)
    have run': "fold (div_step vs n) (rev [0 ..< Suc m])
        (rs @ replicate (length u - (n + m)) 0, ov, replicate (length u) 0) = (uu, t, q)"
      using run by (simp add: su)
    note L0 = long_division [OF n_def [symmetric] 4(1) su_def [symmetric, unfolded su] s_def vs rs [unfolded su] run']
    obtain r0 k0 where r0: "BigNumberShiftRight (take n u1) (take n uu) s = (r0, k0)" by (rule prod.exhaust)
    note L = L0 [OF r0 v1]
    have tk: "take n u1 = take n uu" using L sl su by (simp add: u1_def blit_def)
    have rr: "r = r0" using r r0 by (simp add: tk)
    have n1: "n \<noteq> 0" "n \<noteq> 1" "\<not> su < n" "\<not> (su = n \<and> BigNumberCompare u v n < 0)" "\<not> (su = n \<and> BigNumberCompare u v n = 0)"
      using 4 by auto
    have res: "BigNumberDivide u v = (0, q, blit u1 0 r, v1 @ drop n v)"
      unfolding defs if_not_P [OF n1(1)] if_not_P [OF n1(2)] if_not_P [OF n1(3)] if_not_P [OF n1(4)] if_not_P [OF n1(5)]
        m_def [symmetric] s_def [symmetric] vs prod.case rs run u1_def [symmetric] r v1 ..
    have lr: "length r = n" using L rr by simp
    have "blit u1 0 r = r @ replicate m 0 @ replicate (length u - (n + m)) 0"
      using L lr sl su by (simp add: u1_def blit_def)
    then have "val (blit u1 0 r) = val r" "length (blit u1 0 r) = length u"
      using lr sl su by (simp_all add: val_append)
    then show ?thesis using res L rr by simp
  qed
qed

end
