(* ===== verification/Sha1.thy ===== *)
theory Sha1
  imports Prelude
begin

text \<open>
  The SHA-1 implementation (\<open>libchecksum/SHA1.cpp\<close>, with the state of \<open>SHA1.h\<close>) against the text
  of the standard (FIPS 180-4, sections 5.1.1, 5.3.1 and 6.1.2).  The buffer \<open>wbuf[16]\<close> is accessed
  by the code both as words and as bytes; the model keeps its 64 bytes, and a word of it is read and
  written in the little-endian order of the machines the code is built for.
\<close>

unbundle bit_operations_syntax

section \<open>State and word access\<close>

record sha1_state =
  sha_count0 :: u32
  sha_count1 :: u32
  sha_hash :: "u32 list"
  sha_wbuf :: "byte list"

definition le_word :: "byte \<Rightarrow> byte \<Rightarrow> byte \<Rightarrow> byte \<Rightarrow> u32" where
  "le_word a b c d =
     ucast a OR push_bit 8 (ucast b) OR push_bit 16 (ucast c) OR push_bit 24 (ucast d)"

definition le_bytes :: "u32 \<Rightarrow> byte list" where
  "le_bytes w = [ucast w, ucast (drop_bit 8 w), ucast (drop_bit 16 w), ucast (drop_bit 24 w)]"

definition get_word :: "byte list \<Rightarrow> nat \<Rightarrow> u32" where
  "get_word bs k = le_word (bs ! (4 * k)) (bs ! (4 * k + 1)) (bs ! (4 * k + 2)) (bs ! (4 * k + 3))"

definition set_word :: "byte list \<Rightarrow> nat \<Rightarrow> u32 \<Rightarrow> byte list" where
  "set_word bs k w = blit bs (4 * k) (le_bytes w)"

section \<open>The implementation\<close>

definition rotate32 :: "u32 \<Rightarrow> nat \<Rightarrow> u32" where
  "rotate32 x n = push_bit n x OR drop_bit (32 - n) x"

definition SHA_BLOCK32 :: "u32 \<Rightarrow> u32" where
  "SHA_BLOCK32 x = (rotate32 x 8 AND 0x00ff00ff) OR (rotate32 x 24 AND 0xff00ff00)"

definition SHA_MASK :: "u32 list" where
  "SHA_MASK = [0x00000000, 0x000000ff, 0x0000ffff, 0x00ffffff]"

definition SHA_BITS :: "u32 list" where
  "SHA_BITS = [0x00000080, 0x00008000, 0x00800000, 0x80000000]"

definition F0to19 :: "u32 \<Rightarrow> u32 \<Rightarrow> u32 \<Rightarrow> u32" where
  "F0to19 x y z = (x AND y) XOR (NOT x AND z)"

definition F20to39 :: "u32 \<Rightarrow> u32 \<Rightarrow> u32 \<Rightarrow> u32" where
  "F20to39 x y z = x XOR y XOR z"

definition F40to59 :: "u32 \<Rightarrow> u32 \<Rightarrow> u32 \<Rightarrow> u32" where
  "F40to59 x y z = (x AND y) XOR (x AND z) XOR (y AND z)"

type_synonym sha_regs = "u32 \<times> u32 \<times> u32 \<times> u32 \<times> u32"

text \<open>The macro \<open>sha_round(func, k)\<close>.\<close>

fun sha_round :: "(u32 \<Rightarrow> u32 \<Rightarrow> u32 \<Rightarrow> u32) \<Rightarrow> u32 \<Rightarrow> u32 \<Rightarrow> sha_regs \<Rightarrow> sha_regs" where
  "sha_round f k wi (a, b, c, d, e) =
     (rotate32 a 5 + f b c d + e + k + wi, a, rotate32 b 30, c, d)"

text \<open>The two loops that fill \<open>w[80]\<close>: the second appends 64 words to the first sixteen.\<close>

fun expand :: "nat \<Rightarrow> u32 list \<Rightarrow> u32 list" where
  "expand 0 w = w"
| "expand (Suc n) w =
     (let i = length w in
      expand n (w @ [rotate32 (w ! (i - 3) XOR w ! (i - 8) XOR w ! (i - 14) XOR w ! (i - 16)) 1]))"

definition message_words :: "byte list \<Rightarrow> u32 list" where
  "message_words wbuf = expand 64 (map (\<lambda>i. SHA_BLOCK32 (get_word wbuf i)) [0 ..< 16])"

definition SHA1_Transform :: "sha1_state \<Rightarrow> sha1_state" where
  "SHA1_Transform s =
     (let w = message_words (sha_wbuf s);
          h = sha_hash s;
          r0 = (h ! 0, h ! 1, h ! 2, h ! 3, h ! 4);
          r1 = foldl (\<lambda>r i. sha_round F0to19 0x5a827999 (w ! i) r) r0 [0 ..< 20];
          r2 = foldl (\<lambda>r i. sha_round F20to39 0x6ed9eba1 (w ! i) r) r1 [20 ..< 40];
          r3 = foldl (\<lambda>r i. sha_round F40to59 0x8f1bbcdc (w ! i) r) r2 [40 ..< 60];
          (a, b, c, d, e) = foldl (\<lambda>r i. sha_round F20to39 0xca62c1d6 (w ! i) r) r3 [60 ..< 80]
      in s\<lparr>sha_hash := [h ! 0 + a, h ! 1 + b, h ! 2 + c, h ! 3 + d, h ! 4 + e]\<rparr>)"

definition SHA1_Start :: "sha1_state \<Rightarrow> sha1_state" where
  "SHA1_Start s =
     s\<lparr>sha_hash := [0x67452301, 0xefcdab89, 0x98badcfe, 0x10325476, 0xc3d2e1f0],
       sha_count0 := 0, sha_count1 := 0\<rparr>"

text \<open>
  The loop of \<open>SHA1_Hash\<close>, which fills the buffer from \<open>ipos\<close> and transforms it as long as there
  are enough bytes, and the final \<open>memcpy\<close>.  \<open>ipos\<close> is below 64, as the code computes it.
\<close>

function hash_loop :: "byte list \<Rightarrow> nat \<Rightarrow> sha1_state \<Rightarrow> sha1_state" where
  "hash_loop pData ipos s =
     (let ispace = 64 - ipos in
      if ipos < 64 \<and> length pData \<ge> ispace
      then hash_loop (drop ispace pData) 0
             (SHA1_Transform (s\<lparr>sha_wbuf := blit (sha_wbuf s) ipos (take ispace pData)\<rparr>))
      else s\<lparr>sha_wbuf := blit (sha_wbuf s) ipos pData\<rparr>)"
  by pat_completeness auto
termination
  by (relation "measure (\<lambda>(pData, ipos, s). length pData)") auto

declare hash_loop.simps [simp del]

definition SHA1_Hash :: "byte list \<Rightarrow> sha1_state \<Rightarrow> sha1_state" where
  "SHA1_Hash pData s =
     (let isize = of_nat (length pData) :: u32;
          ipos = unat (sha_count0 s AND 63);
          c0 = sha_count0 s + isize;
          c1 = (if c0 < isize then sha_count1 s + 1 else sha_count1 s)
      in hash_loop pData ipos (s\<lparr>sha_count0 := c0, sha_count1 := c1\<rparr>))"

text \<open>\<open>while (i < 14) wbuf[i++] = 0\<close>\<close>

definition zero_words :: "nat \<Rightarrow> nat \<Rightarrow> byte list \<Rightarrow> byte list" where
  "zero_words i n bs = foldl (\<lambda>b k. set_word b k 0) bs [i ..< n]"

definition SHA1_Finish :: "sha1_state \<Rightarrow> byte list" where
  "SHA1_Finish s =
     (let i = unat (sha_count0 s AND 63);
          b1 = set_word (sha_wbuf s) (i div 4)
                 ((get_word (sha_wbuf s) (i div 4) AND SHA_MASK ! (i mod 4)) OR SHA_BITS ! (i mod 4));
          s1 = s\<lparr>sha_wbuf := b1\<rparr>;
          (s2, j) = (if i > 55
                     then (SHA1_Transform
                             (if i < 60 then s1\<lparr>sha_wbuf := set_word b1 15 0\<rparr> else s1), 0)
                     else (s1, i div 4 + 1));
          b2 = zero_words j 14 (sha_wbuf s2);
          b3 = set_word b2 14
                 (SHA_BLOCK32 (push_bit 3 (sha_count1 s) OR drop_bit 29 (sha_count0 s)));
          b4 = set_word b3 15 (SHA_BLOCK32 (push_bit 3 (sha_count0 s)));
          s3 = SHA1_Transform (s2\<lparr>sha_wbuf := b4\<rparr>)
      in map (\<lambda>i. ucast (drop_bit (8 * (3 - i mod 4)) (sha_hash s3 ! (i div 4)))) [0 ..< 20])"

definition sha1_zeroed :: sha1_state where
  "sha1_zeroed = \<lparr>sha_count0 = 0, sha_count1 = 0, sha_hash = replicate 5 0, sha_wbuf = replicate 64 0\<rparr>"

definition SHA1Hash :: "byte list \<Rightarrow> byte list" where
  "SHA1Hash pData = SHA1_Finish (SHA1_Hash pData (SHA1_Start sha1_zeroed))"

section \<open>The standard\<close>

text \<open>The big-endian 32-bit word \<open>k\<close> of a block of bytes.\<close>

definition be_word :: "byte list \<Rightarrow> nat \<Rightarrow> u32" where
  "be_word bs k =
     push_bit 24 (ucast (bs ! (4 * k))) OR push_bit 16 (ucast (bs ! (4 * k + 1))) OR
     push_bit 8 (ucast (bs ! (4 * k + 2))) OR ucast (bs ! (4 * k + 3))"

fun fips_W :: "byte list \<Rightarrow> nat \<Rightarrow> u32" where
  "fips_W M t =
     (if t < 16 then be_word M t
      else rotate32 (fips_W M (t - 3) XOR fips_W M (t - 8) XOR fips_W M (t - 14) XOR fips_W M (t - 16)) 1)"

declare fips_W.simps [simp del]

definition fips_f :: "nat \<Rightarrow> u32 \<Rightarrow> u32 \<Rightarrow> u32 \<Rightarrow> u32" where
  "fips_f t x y z =
     (if t < 20 then (x AND y) XOR (NOT x AND z)
      else if t < 40 then x XOR y XOR z
      else if t < 60 then (x AND y) XOR (x AND z) XOR (y AND z)
      else x XOR y XOR z)"

definition fips_K :: "nat \<Rightarrow> u32" where
  "fips_K t = (if t < 20 then 0x5a827999 else if t < 40 then 0x6ed9eba1
               else if t < 60 then 0x8f1bbcdc else 0xca62c1d6)"

fun fips_rounds :: "byte list \<Rightarrow> nat \<Rightarrow> sha_regs \<Rightarrow> sha_regs" where
  "fips_rounds M 0 r = r"
| "fips_rounds M (Suc t) r =
     (case fips_rounds M t r of (a, b, c, d, e) \<Rightarrow>
        (rotate32 a 5 + fips_f t b c d + e + fips_K t + fips_W M t, a, rotate32 b 30, c, d))"

definition fips_compress :: "u32 list \<Rightarrow> byte list \<Rightarrow> u32 list" where
  "fips_compress H M =
     (case fips_rounds M 80 (H ! 0, H ! 1, H ! 2, H ! 3, H ! 4) of (a, b, c, d, e) \<Rightarrow>
        [H ! 0 + a, H ! 1 + b, H ! 2 + c, H ! 3 + d, H ! 4 + e])"

function fips_blocks :: "u32 list \<Rightarrow> byte list \<Rightarrow> u32 list" where
  "fips_blocks H m = (if length m < 64 then H else fips_blocks (fips_compress H (take 64 m)) (drop 64 m))"
  by pat_completeness auto
termination by (relation "measure (\<lambda>(H, m). length m)") auto

declare fips_blocks.simps [simp del]

text \<open>Padding: a one bit, the fewest zero bits, and the length in bits as 64 bits, in whole bytes.\<close>

definition fips_zeros :: "nat \<Rightarrow> nat" where
  "fips_zeros n = (if n mod 64 < 56 then 55 - n mod 64 else 119 - n mod 64)"

definition fips_pad :: "byte list \<Rightarrow> byte list" where
  "fips_pad m = m @ [0x80] @ replicate (fips_zeros (length m)) 0 @
     map (\<lambda>i. word_of_nat (8 * length m div 2 ^ (8 * (7 - i)))) [0 ..< 8]"

definition fips_H0 :: "u32 list" where
  "fips_H0 = [0x67452301, 0xefcdab89, 0x98badcfe, 0x10325476, 0xc3d2e1f0]"

definition fips_sha1 :: "byte list \<Rightarrow> byte list" where
  "fips_sha1 m =
     concat (map (\<lambda>w. [ucast (drop_bit 24 w), ucast (drop_bit 16 w), ucast (drop_bit 8 w), ucast w])
       (fips_blocks fips_H0 (fips_pad m)))"

section \<open>Words and bytes\<close>

lemma bit_ucast_byte: "bit (ucast (a :: byte) :: u32) n \<longleftrightarrow> n < 8 \<and> bit a n"
  by (auto simp: bit_simps) (use bit_imp_le_length [of a n] in simp)

lemma bit_byte_ge: "8 \<le> n \<Longrightarrow> \<not> bit (a :: byte) n"
  using bit_imp_le_length [of a n] by auto

lemmas word_bits = bit_or_iff bit_and_iff bit_xor_iff bit_push_bit_iff bit_drop_bit_eq bit_ucast_byte
  bit_mask_iff bit_byte_ge

lemma le_bytes_le_word [simp]: "le_bytes (le_word a b c d) = [a, b, c, d]"
  unfolding le_bytes_def le_word_def
  by (auto intro!: bit_word_eqI simp: bit_simps bit_byte_ge)

text \<open>Bit positions of a 32-bit word, by byte.\<close>

lemma byte_position:
  assumes "(n::nat) < 32"
  obtains k where "k < 8" "n = k \<or> n = 8 + k \<or> n = 16 + k \<or> n = 24 + k"
proof -
  consider "n < 8" | "8 \<le> n" "n < 16" | "16 \<le> n" "n < 24" | "24 \<le> n" using assms by linarith
  then show ?thesis
    using that [of n] that [of "n - 8"] that [of "n - 16"] that [of "n - 24"] assms
    by cases auto
qed

lemma byte_masks:
  "(0x00ff00ff :: u32) = mask 8 OR push_bit 16 (mask 8)"
  "(0xff00ff00 :: u32) = push_bit 8 (mask 8) OR push_bit 24 (mask 8)"
  by (simp_all add: mask_eq_exp_minus_1)

lemma byteswap: "SHA_BLOCK32 (le_word a b c d) = le_word d c b a"
proof (rule bit_word_eqI)
  fix n assume "n < LENGTH(32)"
  then have "n < 32" by simp
  then obtain k where "k < 8" "n = k \<or> n = 8 + k \<or> n = 16 + k \<or> n = 24 + k"
    by (rule byte_position)
  then show "bit (SHA_BLOCK32 (le_word a b c d)) n \<longleftrightarrow> bit (le_word d c b a) n"
    unfolding SHA_BLOCK32_def le_word_def rotate32_def byte_masks
    by (elim disjE) (simp_all add: word_bits)
qed

lemma le_word_le_bytes: "le_word (ucast w) (ucast (drop_bit 8 w)) (ucast (drop_bit 16 w)) (ucast (drop_bit 24 w)) = w"
proof (rule bit_word_eqI)
  fix n assume "n < LENGTH(32)"
  then have "n < 32" by simp
  then obtain k where "k < 8" "n = k \<or> n = 8 + k \<or> n = 16 + k \<or> n = 24 + k"
    by (rule byte_position)
  then show "bit (le_word (ucast w) (ucast (drop_bit 8 w)) (ucast (drop_bit 16 w)) (ucast (drop_bit 24 w))) n
      \<longleftrightarrow> bit w n"
    unfolding le_word_def by (elim disjE) (simp_all add: word_bits bit_unsigned_iff)
qed

lemma le_bytes_block: "le_bytes (SHA_BLOCK32 w) = rev (le_bytes w)"
  by (subst le_word_le_bytes [of w, symmetric]) (simp add: byteswap, simp add: le_bytes_def)

lemma le_bytes_0 [simp]: "le_bytes 0 = [0, 0, 0, 0]"
  by (simp add: le_bytes_def)

lemma length_le_bytes [simp]: "length (le_bytes w) = 4"
  by (simp add: le_bytes_def)

lemma block_get_word: "SHA_BLOCK32 (get_word bs k) = be_word bs k"
  by (simp add: get_word_def byteswap) (simp add: le_word_def be_word_def or.commute or.left_commute or.assoc)

lemma length_set_word [simp]: "4 * k + 4 \<le> length bs \<Longrightarrow> length (set_word bs k w) = length bs"
  by (simp add: set_word_def)

lemma set_word_split:
  "4 * k + 4 \<le> length bs \<Longrightarrow> set_word bs k w = take (4 * k) bs @ le_bytes w @ drop (4 * k + 4) bs"
  by (simp add: set_word_def blit_def)

text \<open>The word that \<open>SHA1_Finish\<close> puts the end marker into.\<close>

lemma bit_0x80_byte: "bit (0x80 :: byte) n \<longleftrightarrow> n = 7"
proof -
  have e: "(0x80 :: byte) = push_bit 7 1" by (simp add: push_bit_eq_mult)
  show ?thesis unfolding e bit_push_bit_iff bit_1_iff by auto
qed

lemma bit_0x80_u32: "bit (0x80 :: u32) n \<longleftrightarrow> n = 7"
proof -
  have e: "(0x80 :: u32) = push_bit 7 1" by (simp add: push_bit_eq_mult)
  show ?thesis unfolding e bit_push_bit_iff bit_1_iff by auto
qed

lemma bit_0x8000_u32: "bit (0x8000 :: u32) n \<longleftrightarrow> n = 15"
proof -
  have e: "(0x8000 :: u32) = push_bit 15 1" by (simp add: push_bit_eq_mult)
  show ?thesis unfolding e bit_push_bit_iff bit_1_iff by auto
qed

lemma bit_0x800000_u32: "bit (0x800000 :: u32) n \<longleftrightarrow> n = 23"
proof -
  have e: "(0x800000 :: u32) = push_bit 23 1" by (simp add: push_bit_eq_mult)
  show ?thesis unfolding e bit_push_bit_iff bit_1_iff by auto
qed

lemma bit_0x80000000_u32: "bit (0x80000000 :: u32) n \<longleftrightarrow> n = 31"
proof -
  have e: "(0x80000000 :: u32) = push_bit 31 1" by (simp add: push_bit_eq_mult)
  show ?thesis unfolding e bit_push_bit_iff bit_1_iff by auto
qed

lemma bit_0xff_u32: "bit (0xff :: u32) n \<longleftrightarrow> n < 8"
proof -
  have e: "(0xff :: u32) = mask 8" by (simp add: mask_eq_exp_minus_1)
  show ?thesis unfolding e bit_mask_iff by auto
qed

lemma bit_0xffff_u32: "bit (0xffff :: u32) n \<longleftrightarrow> n < 16"
proof -
  have e: "(0xffff :: u32) = mask 16" by (simp add: mask_eq_exp_minus_1)
  show ?thesis unfolding e bit_mask_iff by auto
qed

lemma bit_0xffffff_u32: "bit (0xffffff :: u32) n \<longleftrightarrow> n < 24"
proof -
  have e: "(0xffffff :: u32) = mask 24" by (simp add: mask_eq_exp_minus_1)
  show ?thesis unfolding e bit_mask_iff by auto
qed

lemmas marker_bits = bit_0x80_byte bit_0x80_u32 bit_0x8000_u32 bit_0x800000_u32 bit_0x80000000_u32
  bit_0xff_u32 bit_0xffff_u32 bit_0xffffff_u32

lemma marker_word:
  assumes "j < 4"
  shows "(le_word a b c d AND SHA_MASK ! j) OR SHA_BITS ! j =
    le_word ([0x80, a, a, a] ! j) ([0, 0x80, b, b] ! j) ([0, 0, 0x80, c] ! j) ([0, 0, 0, 0x80] ! j)"
proof (rule bit_word_eqI)
  fix n assume "n < LENGTH(32)"
  then have "n < 32" by simp
  then obtain k where k: "k < 8" "n = k \<or> n = 8 + k \<or> n = 16 + k \<or> n = 24 + k"
    by (rule byte_position)
  have "j = 0 \<or> j = 1 \<or> j = 2 \<or> j = 3" using assms by linarith
  with k show "bit ((le_word a b c d AND SHA_MASK ! j) OR SHA_BITS ! j) n \<longleftrightarrow>
      bit (le_word ([0x80, a, a, a] ! j) ([0, 0x80, b, b] ! j) ([0, 0, 0x80, c] ! j)
        ([0, 0, 0, 0x80] ! j)) n"
    unfolding le_word_def SHA_MASK_def SHA_BITS_def
    by (elim disjE) (simp_all add: marker_bits word_bits del: bit_numeral_word_iff)
qed

section \<open>The transform is the standard's compression\<close>

lemma expand_W:
  assumes "16 \<le> length w" "\<And>i. i < length w \<Longrightarrow> w ! i = fips_W M i"
  shows "length (expand n w) = length w + n \<and> (\<forall>i < length w + n. expand n w ! i = fips_W M i)"
  using assms
proof (induction n arbitrary: w)
  case (Suc n)
  let ?i = "length w"
  let ?x = "rotate32 (w ! (?i - 3) XOR w ! (?i - 8) XOR w ! (?i - 14) XOR w ! (?i - 16)) 1"
  have "?x = fips_W M ?i"
    using Suc.prems by (subst fips_W.simps) simp
  then have "\<And>i. i < length (w @ [?x]) \<Longrightarrow> (w @ [?x]) ! i = fips_W M i"
    using Suc.prems(2) by (auto simp: nth_append less_Suc_eq)
  from Suc.IH [OF _ this] Suc.prems(1) show ?case by (simp add: Let_def)
qed simp

lemma message_words_W: "t < 80 \<Longrightarrow> message_words M ! t = fips_W M t"
  using expand_W [of "map (\<lambda>i. SHA_BLOCK32 (get_word M i)) [0 ..< 16]" M 64]
  by (simp add: message_words_def block_get_word fips_W.simps)

lemma round_loop:
  assumes "a \<le> b" "\<And>t. a \<le> t \<Longrightarrow> t < b \<Longrightarrow> f = fips_f t \<and> k = fips_K t \<and> w ! t = fips_W M t"
  shows "foldl (\<lambda>r i. sha_round f k (w ! i) r) (fips_rounds M a r) [a ..< b] = fips_rounds M b r"
  using assms
proof (induction b rule: dec_induct)
  case (step n)
  have "foldl (\<lambda>r i. sha_round f k (w ! i) r) (fips_rounds M a r) [a ..< n] = fips_rounds M n r"
    using step by auto
  then show ?case
    using step.hyps step.prems [of n] by (cases "fips_rounds M n r") simp
qed simp

lemma SHA1_Transform_fips:
  "SHA1_Transform s = s\<lparr>sha_hash := fips_compress (sha_hash s) (sha_wbuf s)\<rparr>"
proof -
  let ?M = "sha_wbuf s" and ?h = "sha_hash s"
  let ?r = "(?h ! 0, ?h ! 1, ?h ! 2, ?h ! 3, ?h ! 4)"
  note W = message_words_W [of _ ?M]
  have f: "F0to19 = fips_f t" if "t < 20" for t
    using that by (intro ext) (simp add: F0to19_def fips_f_def)
  have g: "F20to39 = fips_f t" if "20 \<le> t \<and> t < 40 \<or> 60 \<le> t" for t
    using that by (intro ext) (auto simp: F20to39_def fips_f_def)
  have h: "F40to59 = fips_f t" if "40 \<le> t" "t < 60" for t
    using that by (intro ext) (simp add: F40to59_def fips_f_def)
  have 1: "foldl (\<lambda>r i. sha_round F0to19 0x5a827999 (message_words ?M ! i) r) ?r [0 ..< 20]
      = fips_rounds ?M 20 ?r"
    using round_loop [of 0 20 F0to19 "0x5a827999" "message_words ?M" ?M ?r] W f by (simp add: fips_K_def)
  have 2: "foldl (\<lambda>r i. sha_round F20to39 0x6ed9eba1 (message_words ?M ! i) r)
      (fips_rounds ?M 20 ?r) [20 ..< 40] = fips_rounds ?M 40 ?r"
    by (rule round_loop) (simp_all add: W g fips_K_def)
  have 3: "foldl (\<lambda>r i. sha_round F40to59 0x8f1bbcdc (message_words ?M ! i) r)
      (fips_rounds ?M 40 ?r) [40 ..< 60] = fips_rounds ?M 60 ?r"
    by (rule round_loop) (simp_all add: W h fips_K_def)
  have 4: "foldl (\<lambda>r i. sha_round F20to39 0xca62c1d6 (message_words ?M ! i) r)
      (fips_rounds ?M 60 ?r) [60 ..< 80] = fips_rounds ?M 80 ?r"
    by (rule round_loop) (simp_all add: W g fips_K_def)
  show ?thesis
    unfolding SHA1_Transform_def Let_def 1 2 3 4 fips_compress_def
    by (simp split: prod.splits)
qed

lemma length_compress [simp]: "length (fips_compress H M) = 5"
  by (simp add: fips_compress_def split: prod.splits)

lemma length_blocks: "length H = 5 \<Longrightarrow> length (fips_blocks H m) = 5"
  by (induction H m rule: fips_blocks.induct) (subst fips_blocks.simps, simp)

lemma fips_blocks_append:
  "64 dvd length a \<Longrightarrow> fips_blocks H (a @ b) = fips_blocks (fips_blocks H a) b"
proof (induction H a rule: fips_blocks.induct)
  case (1 H a)
  show ?case
  proof (cases "length a < 64")
    case True
    with "1.prems" have "a = []" by (auto simp: dvd_def)
    then show ?thesis by (simp add: fips_blocks.simps [of H "[]"])
  next
    case False
    then show ?thesis
      using 1 fips_blocks.simps [of H "a @ b"] fips_blocks.simps [of H a] by (simp add: dvd_diff_nat)
  qed
qed

lemma fips_blocks_one: "length b = 64 \<Longrightarrow> fips_blocks H b = fips_compress H b"
  by (simp add: fips_blocks.simps [of H b] fips_blocks.simps [of "fips_compress H b" "[]"])

section \<open>The state represents the bytes hashed so far\<close>

definition sha_repr :: "byte list \<Rightarrow> sha1_state \<Rightarrow> bool" where
  "sha_repr m s \<longleftrightarrow>
     length (sha_wbuf s) = 64 \<and> sha_hash s = fips_blocks fips_H0 m \<and>
     take (length m mod 64) (sha_wbuf s) = drop (64 * (length m div 64)) m \<and>
     sha_count0 s = of_nat (length m) \<and> sha_count1 s = of_nat (length m div 2 ^ 32)"

lemma fips_blocks_short: "length m < 64 \<Longrightarrow> fips_blocks H m = H"
  by (simp add: fips_blocks.simps)

lemma fips_blocks_whole: "fips_blocks H (take (64 * (length m div 64)) m) = fips_blocks H m"
proof -
  let ?a = "take (64 * (length m div 64)) m" and ?r = "drop (64 * (length m div 64)) m"
  have "64 * (length m div 64) \<le> length m" by simp
  then have la: "length ?a = 64 * (length m div 64)" by simp
  have lr: "length ?r < 64" by (simp add: minus_mult_div_eq_mod)
  have "fips_blocks H m = fips_blocks H (?a @ ?r)" by simp
  also have "\<dots> = fips_blocks (fips_blocks H ?a) ?r"
    by (intro fips_blocks_append) (simp only: la dvd_triv_left)
  also have "\<dots> = fips_blocks H ?a" by (rule fips_blocks_short [OF lr])
  finally show ?thesis by simp
qed

lemma mult_64_div: "64 * ((64 * a + b) div 64) = 64 * a + 64 * (b div (64 :: nat))"
  by simp

lemma mult_64_mod: "(64 * a + b) mod 64 = b mod (64 :: nat)"
  by simp

lemma shift_block:
  assumes "length b = 64"
  shows "(64 + length r) mod 64 = length r mod 64"
    "drop (64 * ((64 + length r) div 64)) (b @ r) = drop (64 * (length r div 64)) r"
  using assms by (simp_all add: div_add_self1)

lemma hash_loop_repr:
  assumes "ipos < 64" "length (sha_wbuf s) = 64"
  shows "let all = take ipos (sha_wbuf s) @ pData; s' = hash_loop pData ipos s in
    length (sha_wbuf s') = 64 \<and> sha_hash s' = fips_blocks (sha_hash s) all \<and>
    take (length all mod 64) (sha_wbuf s') = drop (64 * (length all div 64)) all \<and>
    sha_count0 s' = sha_count0 s \<and> sha_count1 s' = sha_count1 s"
  using assms
proof (induction pData ipos s rule: hash_loop.induct)
  case (1 pData ipos s)
  let ?n = "64 - ipos" and ?w = "sha_wbuf s"
  show ?case
  proof (cases "length pData \<ge> ?n")
    case True
    let ?b = "take ipos ?w @ take ?n pData" and ?rest = "drop ?n pData"
    let ?s1 = "SHA1_Transform (s\<lparr>sha_wbuf := ?b\<rparr>)"
    have blit: "blit ?w ipos (take ?n pData) = ?b"
      using "1.prems" True by (simp add: blit_def)
    have lb: "length ?b = 64" using "1.prems" True by simp
    have hl: "hash_loop pData ipos s = hash_loop ?rest 0 ?s1"
      using "1.prems" True by (subst hash_loop.simps) (simp add: blit Let_def)
    have all: "take ipos ?w @ pData = ?b @ ?rest" by simp
    have la: "length (?b @ ?rest) = 64 + length ?rest" using lb by simp
    have "sha_wbuf ?s1 = ?b" "sha_hash ?s1 = fips_compress (sha_hash s) ?b"
      "sha_count0 ?s1 = sha_count0 s" "sha_count1 ?s1 = sha_count1 s"
      by (simp_all add: SHA1_Transform_fips)
    moreover have "fips_blocks (sha_hash s) (?b @ ?rest) =
        fips_blocks (fips_compress (sha_hash s) ?b) ?rest"
      by (subst fips_blocks_append) (simp_all only: lb fips_blocks_one dvd_refl)
    moreover note shift_block [OF lb, of ?rest]
    moreover note "1.IH" [OF refl, unfolded blit]
    moreover have "ipos < 64 \<and> ?n \<le> length pData" using "1.prems" True by simp
    ultimately show ?thesis
      unfolding Let_def hl all la using lb by simp
  next
    case False
    then have "hash_loop pData ipos s = s\<lparr>sha_wbuf := blit ?w ipos pData\<rparr>"
      by (subst hash_loop.simps) simp
    moreover have "length (take ipos ?w @ pData) < 64" using False "1.prems" by simp
    ultimately show ?thesis
      using "1.prems" by (simp add: Let_def fips_blocks_short blit_def)
  qed
qed

lemma count_index: "unat ((of_nat n :: u32) AND 63) = n mod 64"
proof -
  have "(63 :: u32) = mask 6" by (simp add: mask_eq_exp_minus_1)
  then have "(of_nat n :: u32) AND 63 = take_bit 6 (of_nat n)" by (simp only: take_bit_eq_mask)
  then have "unat ((of_nat n :: u32) AND 63) = take_bit 6 (unat (of_nat n :: u32))"
    by (simp only: unsigned_take_bit_eq)
  also have "\<dots> = n mod 64"
    by (simp add: unat_of_nat take_bit_eq_mod mod_mod_cancel)
  finally show ?thesis .
qed

lemma div_add_carry: "0 < K \<Longrightarrow> (n + d) div K = n div K + (n mod K + d) div (K :: nat)"
proof -
  assume K: "0 < K"
  have "(n mod K + d + n div K * K) div K = n div K + (n mod K + d) div K"
    using K by (subst div_mult_self1) simp_all
  moreover have "n mod K + d + n div K * K = n + d" by simp
  ultimately show ?thesis by simp
qed

lemma carry_div: "a < K \<Longrightarrow> d < K \<Longrightarrow> (a + d) div K = (if K \<le> a + d then 1 else (0 :: nat))"
  by (auto simp: div_if)

lemma carry_mod: "a < K \<Longrightarrow> d < K \<Longrightarrow> ((a + d) mod K < d) = (K \<le> a + (d :: nat))"
  by (auto simp: mod_if)

lemma unat_of_nat_u32: "unat (of_nat n :: u32) = n mod 2 ^ 32"
  by (simp add: unat_of_nat)

lemma carry_count:
  assumes "d < 2 ^ 32"
  shows "(if (of_nat n :: u32) + of_nat d < of_nat d
     then (of_nat (n div 2 ^ 32) :: u32) + 1 else of_nat (n div 2 ^ 32)) =
     of_nat ((n + d) div 2 ^ 32)"
proof -
  let ?a = "n mod 2 ^ 32"
  have a: "?a < 2 ^ 32" by simp
  have "unat ((of_nat n :: u32) + of_nat d) = (n + d) mod 2 ^ 32"
    by (simp only: of_nat_add [symmetric] unat_of_nat_u32)
  then have c0: "unat ((of_nat n :: u32) + of_nat d) = (?a + d) mod 2 ^ 32"
    by (simp only: mod_add_left_eq)
  have d: "unat (of_nat d :: u32) = d" using assms by (simp only: unat_of_nat_u32 mod_less)
  have less: "(of_nat n :: u32) + of_nat d < of_nat d \<longleftrightarrow> 2 ^ 32 \<le> ?a + d"
    unfolding word_less_nat_alt c0 d by (rule carry_mod [OF a assms])
  have "(n + d) div 2 ^ 32 = n div 2 ^ 32 + (if 2 ^ 32 \<le> ?a + d then 1 else 0)"
    by (subst div_add_carry) (simp_all only: carry_div [OF a assms], simp)
  then show ?thesis unfolding less by (simp split: if_splits)
qed

lemma SHA1_Start_repr: "length (sha_wbuf s) = 64 \<Longrightarrow> sha_repr [] (SHA1_Start s)"
  by (simp add: sha_repr_def SHA1_Start_def fips_blocks_short fips_H0_def)

lemma SHA1_Hash_repr:
  assumes "sha_repr m s" "length d < 2 ^ 32"
  shows "sha_repr (m @ d) (SHA1_Hash d s)"
proof -
  let ?ip = "length m mod 64" and ?r = "drop (64 * (length m div 64)) m"
  define c0 where "c0 = sha_count0 s + of_nat (length d)"
  define c1 where "c1 = (if c0 < of_nat (length d) then sha_count1 s + 1 else sha_count1 s)"
  define s1 where "s1 = s\<lparr>sha_count0 := c0, sha_count1 := c1\<rparr>"
  have run: "SHA1_Hash d s = hash_loop d ?ip s1"
    using assms(1) by (simp add: SHA1_Hash_def Let_def sha_repr_def count_index c0_def c1_def s1_def)
  have w: "length (sha_wbuf s1) = 64" "take ?ip (sha_wbuf s1) = ?r"
    "sha_hash s1 = fips_blocks fips_H0 m"
    using assms(1) by (simp_all add: s1_def sha_repr_def)
  have e: "sha_count0 s = of_nat (length m)" "sha_count1 s = of_nat (length m div 2 ^ 32)"
    using assms(1) by (simp_all only: sha_repr_def)
  have cnt: "c0 = of_nat (length (m @ d))" "c1 = of_nat (length (m @ d) div 2 ^ 32)"
    unfolding c1_def c0_def e by (simp_all only: carry_count [OF assms(2)] length_append of_nat_add)
  have md: "m @ d = take (64 * (length m div 64)) m @ (?r @ d)" by simp
  have lw: "length (take (64 * (length m div 64)) m) = 64 * (length m div 64)" by simp
  have blocks: "fips_blocks (fips_blocks fips_H0 m) (?r @ d) = fips_blocks fips_H0 (m @ d)"
    by (subst md, subst fips_blocks_append) (simp_all only: lw dvd_triv_left fips_blocks_whole)
  have lall: "length (m @ d) = 64 * (length m div 64) + length (?r @ d)"
    by (subst md) (simp only: length_append lw)
  have tail: "drop (64 * (length (?r @ d) div 64)) (?r @ d) = drop (64 * (length (m @ d) div 64)) (m @ d)"
  proof -
    have "64 * (length (m @ d) div 64) = 64 * (length m div 64) + 64 * (length (?r @ d) div 64)"
      by (simp only: lall mult_64_div)
    then show ?thesis by (subst (2) md) (simp only: drop_append lw, simp)
  qed
  have mods: "length (?r @ d) mod 64 = length (m @ d) mod 64"
    by (simp only: lall mult_64_mod)
  have c: "sha_count0 s1 = c0" "sha_count1 s1 = c1" by (simp_all add: s1_def)
  have "?ip < 64" by simp
  note H = hash_loop_repr [OF this w(1), of d, unfolded Let_def w(2,3) blocks mods tail c cnt]
  show ?thesis unfolding run sha_repr_def using H by blast
qed

section \<open>Finishing\<close>

lemma drop_split4:
  "n + 4 \<le> length bs \<Longrightarrow>
   drop n bs = bs ! n # bs ! (n + 1) # bs ! (n + 2) # bs ! (n + 3) # drop (n + 4) bs"
  using Cons_nth_drop_Suc [of n bs] Cons_nth_drop_Suc [of "n + 1" bs]
    Cons_nth_drop_Suc [of "n + 2" bs] Cons_nth_drop_Suc [of "n + 3" bs]
  by (simp add: numeral_eq_Suc)

lemma marker_set:
  assumes "length bs = 64" "i < 64"
  shows "set_word bs (i div 4) ((get_word bs (i div 4) AND SHA_MASK ! (i mod 4)) OR SHA_BITS ! (i mod 4)) =
    take i bs @ [0x80] @ replicate (3 - i mod 4) 0 @ drop (4 * (i div 4) + 4) bs"
proof -
  define k where "k = i div 4"
  define j where "j = i mod 4"
  have i: "i = 4 * k + j" and j: "j < 4" by (simp_all add: k_def j_def)
  have k: "4 * k + 4 \<le> 64" using assms(2) by (simp add: k_def)
  have w: "set_word bs k ((get_word bs k AND SHA_MASK ! j) OR SHA_BITS ! j) =
      take (4 * k) bs @ [[0x80, bs ! (4 * k), bs ! (4 * k), bs ! (4 * k)] ! j,
        [0, 0x80, bs ! (4 * k + 1), bs ! (4 * k + 1)] ! j,
        [0, 0, 0x80, bs ! (4 * k + 2)] ! j, [0, 0, 0, 0x80] ! j] @ drop (4 * k + 4) bs"
    using k assms(1) by (simp only: set_word_split get_word_def marker_word [OF j] le_bytes_le_word)
  have t: "take i bs = take (4 * k) bs @ take j (drop (4 * k) bs)" by (simp add: i take_add)
  have d: "drop (4 * k) bs =
      bs ! (4 * k) # bs ! (4 * k + 1) # bs ! (4 * k + 2) # bs ! (4 * k + 3) # drop (4 * k + 4) bs"
    using k assms(1) by (intro drop_split4) simp
  have "j = 0 \<or> j = 1 \<or> j = 2 \<or> j = 3" using j by linarith
  then show ?thesis
    unfolding k_def [symmetric] j_def [symmetric] w t d by (elim disjE) (simp_all add: numeral_eq_Suc)
qed

lemma zero_words_split:
  assumes "j \<le> n" "4 * n \<le> length bs"
  shows "zero_words j n bs = take (4 * j) bs @ replicate (4 * (n - j)) 0 @ drop (4 * n) bs"
  using assms
proof (induction n rule: dec_induct)
  case (step n)
  have "zero_words j (Suc n) bs = set_word (zero_words j n bs) n 0"
    using step.hyps by (simp add: zero_words_def)
  also have "\<dots> = set_word (take (4 * j) bs @ replicate (4 * (n - j)) 0 @ drop (4 * n) bs) n 0"
    using step by simp
  also have "\<dots> = take (4 * j) bs @ replicate (4 * (Suc n - j)) 0 @ drop (4 * Suc n) bs"
    using step.hyps step.prems
    by (subst set_word_split) (simp_all add: Suc_diff_le replicate_add [symmetric] numeral_eq_Suc
        replicate_app_Cons_same)
  finally show ?case .
qed (simp add: zero_words_def)

lemma length_words_set:
  "length b = 56 \<Longrightarrow> length r = 8 \<Longrightarrow>
   set_word (set_word (b @ r) 14 x) 15 y = b @ le_bytes x @ le_bytes y"
  by (simp add: set_word_def blit_def)

lemma bit_of_nat_word: "bit (of_nat m :: 'a::len word) n \<longleftrightarrow> n < LENGTH('a) \<and> bit m n"
  by (simp add: bit_of_nat_iff)

lemma byte_of_word:
  assumes "k < 4"
  shows "ucast (drop_bit (8 * k) (of_nat N :: u32)) = (of_nat (N div 2 ^ (8 * k)) :: byte)"
proof (rule bit_word_eqI)
  fix n assume n: "n < LENGTH(8)"
  have "bit (of_nat N :: u32) (8 * k + n) = bit N (8 * k + n)"
    using n assms by (simp add: bit_of_nat_word)
  then show "bit (ucast (drop_bit (8 * k) (of_nat N :: u32)) :: byte) n = bit (of_nat (N div 2 ^ (8 * k)) :: byte) n"
    using n by (simp add: bit_unsigned_iff bit_drop_bit_eq bit_of_nat_word
        flip: drop_bit_eq_div)
qed

lemma bit_length_high:
  "(push_bit 3 (of_nat (n div 2 ^ 32)) OR drop_bit 29 (of_nat n) :: u32) = of_nat (8 * n div 2 ^ 32)"
proof (rule bit_word_eqI)
  fix k assume k: "k < LENGTH(32)"
  have "bit (8 * n div 2 ^ 32) k = bit n (29 + k)"
  proof -
    have "8 * n div 2 ^ 32 = n div 2 ^ 29" by simp
    then show ?thesis by (simp only: drop_bit_eq_div [symmetric] bit_drop_bit_eq) simp
  qed
  moreover have "3 \<le> k \<Longrightarrow> bit (n div 2 ^ 32) (k - 3) = bit n (29 + k)"
    by (simp only: drop_bit_eq_div [symmetric] bit_drop_bit_eq) (simp add: add.commute)
  ultimately show "bit (push_bit 3 (of_nat (n div 2 ^ 32)) OR drop_bit 29 (of_nat n) :: u32) k =
      bit (of_nat (8 * n div 2 ^ 32) :: u32) k"
    using k by (auto simp: bit_or_iff bit_push_bit_iff bit_drop_bit_eq bit_of_nat_word
        dest: bit_imp_le_length)
qed

lemma bit_length_low: "push_bit 3 (of_nat n :: u32) = of_nat (8 * n)"
  by (simp add: push_bit_eq_mult)

lemma length_bytes:
  "rev (le_bytes (of_nat (8 * n div 2 ^ 32))) @ rev (le_bytes (of_nat (8 * n))) =
    map (\<lambda>i. word_of_nat (8 * n div 2 ^ (8 * (7 - i)))) [0 ..< 8]"
proof -
  have b: "rev (le_bytes (of_nat N)) =
      [of_nat (N div 2 ^ 24), of_nat (N div 2 ^ 16), of_nat (N div 2 ^ 8), of_nat N]" for N
    using byte_of_word [of 0 N] byte_of_word [of 1 N] byte_of_word [of 2 N] byte_of_word [of 3 N]
    by (simp add: le_bytes_def)
  show ?thesis
    unfolding b by (simp add: upt_rec div_mult2_eq [symmetric])
qed

definition pad_bytes :: "nat \<Rightarrow> byte list" where
  "pad_bytes n = map (\<lambda>i. word_of_nat (8 * n div 2 ^ (8 * (7 - i)))) [0 ..< 8]"

lemma length_pad_bytes [simp]: "length (pad_bytes n) = 8"
  by (simp add: pad_bytes_def)

lemma sha_tail:
  assumes "sha_repr m s" "r = drop (64 * (length m div 64)) m" "i = length m mod 64"
  shows "take i (sha_wbuf s) = r" "length r = i" "i < 64"
proof -
  show "take i (sha_wbuf s) = r" using assms by (simp only: sha_repr_def)
  show "length r = i" unfolding assms(2,3) by (simp add: minus_mult_div_eq_mod)
  show "i < 64" by (simp add: assms(3))
qed

text \<open>The last words: the zero words up to 14 and the bit length.\<close>

lemma length_words:
  assumes "length b = 64" "j \<le> 14" "sha_count0 s = of_nat n" "sha_count1 s = of_nat (n div 2 ^ 32)"
  shows "set_word (set_word (zero_words j 14 b) 14
      (SHA_BLOCK32 (push_bit 3 (sha_count1 s) OR drop_bit 29 (sha_count0 s)))) 15
      (SHA_BLOCK32 (push_bit 3 (sha_count0 s))) =
    take (4 * j) b @ replicate (56 - 4 * j) 0 @ pad_bytes n"
proof -
  let ?p = "take (4 * j) b @ replicate (56 - 4 * j) 0"
  have z: "zero_words j 14 b = ?p @ drop 56 b"
    using zero_words_split [OF assms(2), of b] assms(1,2) by (simp add: diff_mult_distrib2)
  have "set_word (set_word (?p @ drop 56 b) 14 x) 15 y = ?p @ le_bytes x @ le_bytes y" for x y
    by (rule length_words_set) (use assms(1,2) in simp_all)
  note w = this
  show ?thesis
    unfolding z assms(3,4) bit_length_high unfolding bit_length_low w le_bytes_block length_bytes pad_bytes_def
    by (simp only: append_assoc)
qed

lemma fips_pad_split:
  "fips_pad m = take (64 * (length m div 64)) m @
     (drop (64 * (length m div 64)) m @ [0x80] @ replicate (fips_zeros (length m)) 0 @ pad_bytes (length m))"
  by (simp add: fips_pad_def pad_bytes_def)

lemma blocks_pad:
  "fips_blocks fips_H0 (fips_pad m) =
   fips_blocks (fips_blocks fips_H0 m)
     (drop (64 * (length m div 64)) m @ [0x80] @ replicate (fips_zeros (length m)) 0 @ pad_bytes (length m))"
proof -
  have lw: "length (take (64 * (length m div 64)) m) = 64 * (length m div 64)" by simp
  show ?thesis
    by (subst fips_pad_split, subst fips_blocks_append)
      (simp_all only: lw dvd_triv_left fips_blocks_whole)
qed

lemma digest_concat:
  "length H = 5 \<Longrightarrow>
   map (\<lambda>i. ucast (drop_bit (8 * (3 - i mod 4)) (H ! (i div 4)))) [0 ..< 20] =
   concat (map (\<lambda>w :: u32. [ucast (drop_bit 24 w), ucast (drop_bit 16 w), ucast (drop_bit 8 w), ucast w]) H)"
proof -
  assume "length H = 5"
  then obtain a b c d e where H: "H = [a, b, c, d, e]"
    by (auto simp: length_Suc_conv numeral_eq_Suc)
  have u: "[0 ..< 20] = [0, 1, 2, 3, 4, 5, 6, 7, 8, 9, 10, 11, 12, 13, 14, 15, 16, 17, 18, 19 :: nat]"
    by (simp add: upt_rec)
  show ?thesis unfolding H u by simp
qed

lemma final_block:
  assumes "length b = 64" "length r = 64"
  shows "fips_blocks H (b @ r) = fips_compress (fips_compress H b) r"
  using assms by (subst fips_blocks_append) (simp_all add: fips_blocks_one)

lemma replicate_join: "replicate a x @ replicate b x @ r = replicate (a + b) x @ r"
  by (simp add: replicate_add)

lemma take_exact: "length a = n \<Longrightarrow> take n (a @ b) = a"
  by simp

lemma replicate_4: "replicate 4 x = [x, x, x, x]"
  by (simp add: numeral_eq_Suc)

lemma finish_short:
  assumes "i \<le> 55" "length r = i"
  shows "take (4 * (i div 4 + 1)) (r @ [0x80 :: byte] @ replicate (3 - i mod 4) 0 @ z) @
      replicate (56 - 4 * (i div 4 + 1)) 0 @ p = r @ [0x80] @ replicate (55 - i) 0 @ p"
proof -
  have m: "4 * (i div 4) + i mod 4 = i" "i mod 4 < 4" by simp_all
  have l: "length (r @ [0x80 :: byte] @ replicate (3 - i mod 4) 0) = 4 * (i div 4 + 1)"
    unfolding length_append length_replicate assms(2) list.size using m by arith
  have t: "take (4 * (i div 4 + 1)) (r @ [0x80 :: byte] @ replicate (3 - i mod 4) 0 @ z) =
      r @ [0x80] @ replicate (3 - i mod 4) 0"
    using take_exact [OF l, of z] by (simp only: append_assoc)
  have "3 - i mod 4 + (56 - 4 * (i div 4 + 1)) = 55 - i" using m assms(1) by arith
  then show ?thesis unfolding t by (simp add: replicate_join)
qed

lemma finish_long:
  assumes "55 < i" "i < 64" "length r = i" "length w = 64"
  shows "(if i < 60 then set_word (r @ [0x80 :: byte] @ replicate (3 - i mod 4) 0 @ drop (4 * (i div 4) + 4) w) 15 0
      else r @ [0x80] @ replicate (3 - i mod 4) 0 @ drop (4 * (i div 4) + 4) w) =
    r @ [0x80] @ replicate (63 - i) 0"
proof -
  show ?thesis
  proof (cases "i < 60")
    case True
    then have d: "i div 4 = 14" "i mod 4 = i - 56" using assms(1) by arith+
    have "4 * 15 + 4 \<le> length (r @ [0x80 :: byte] @ replicate (59 - i) 0 @ drop 60 w)"
      using assms True by simp
    note s = set_word_split [OF this]
    have "replicate (59 - i) 0 @ [0, 0, 0, 0] = replicate (59 - i + 4) (0 :: byte)"
      by (simp only: replicate_add replicate_4)
    moreover have "59 - i + 4 = 63 - i" using True by simp
    moreover have "60 - i = Suc (59 - i)" using True by simp
    ultimately show ?thesis using assms True s by (simp add: d)
  next
    case False
    then have "i div 4 = 15" "i mod 4 = i - 60" using assms(2) by arith+
    then show ?thesis using assms False by simp
  qed
qed

lemma SHA1_Finish_fips:
  assumes "sha_repr m s"
  shows "SHA1_Finish s = fips_sha1 m"
proof -
  define r where "r = drop (64 * (length m div 64)) m"
  define i where "i = length m mod 64"
  note t = sha_tail [OF assms r_def i_def]
  have wb: "length (sha_wbuf s) = 64" and hs: "sha_hash s = fips_blocks fips_H0 m"
    and c0: "sha_count0 s = of_nat (length m)" and c1: "sha_count1 s = of_nat (length m div 2 ^ 32)"
    using assms by (simp_all only: sha_repr_def)
  have ix: "unat (sha_count0 s AND 63) = i" unfolding c0 count_index i_def ..
  define b1 where "b1 = r @ [0x80] @ replicate (3 - i mod 4) 0 @ drop (4 * (i div 4) + 4) (sha_wbuf s)"
  have b1: "set_word (sha_wbuf s) (i div 4)
      ((get_word (sha_wbuf s) (i div 4) AND SHA_MASK ! (i mod 4)) OR SHA_BITS ! (i mod 4)) = b1"
    unfolding marker_set [OF wb t(3)] t(1) b1_def ..
  have pos: "4 * (i div 4) + 4 \<le> 64" using t(3) by simp
  have mod4: "i = 4 * (i div 4) + i mod 4" "i mod 4 < 4" by simp_all
  have lb1: "length b1 = 64"
    using pos mod4 wb t(2) unfolding b1_def by (simp del: mod_less_divisor)
  let ?last = "r @ [0x80] @ replicate (fips_zeros (length m)) 0 @ pad_bytes (length m)"
  have fin: "fips_sha1 m = map (\<lambda>k. ucast (drop_bit (8 * (3 - k mod 4))
      (fips_blocks (fips_blocks fips_H0 m) ?last ! (k div 4)))) [0 ..< 20]"
    unfolding fips_sha1_def blocks_pad r_def [symmetric]
    by (intro digest_concat [symmetric] length_blocks) (simp add: fips_H0_def)
  define j where "j = i div 4 + 1"
  have run: "SHA1_Finish s =
      (let (s2, j) = (if i > 55
             then (SHA1_Transform (s\<lparr>sha_wbuf := (if i < 60 then set_word b1 15 0 else b1)\<rparr>), 0)
             else (s\<lparr>sha_wbuf := b1\<rparr>, j));
           b4 = set_word (set_word (zero_words j 14 (sha_wbuf s2)) 14
             (SHA_BLOCK32 (push_bit 3 (sha_count1 s) OR drop_bit 29 (sha_count0 s)))) 15
             (SHA_BLOCK32 (push_bit 3 (sha_count0 s)))
       in map (\<lambda>k. ucast (drop_bit (8 * (3 - k mod 4))
            (fips_compress (sha_hash s2) b4 ! (k div 4)))) [0 ..< 20])"
    unfolding SHA1_Finish_def ix b1 Let_def SHA1_Transform_fips j_def by (simp split: if_splits)
  show ?thesis
  proof (cases "55 < i")
    case False
    have j: "j \<le> 14" using False by (simp add: j_def)
    have b4: "take (4 * j) b1 @ replicate (56 - 4 * j) 0 @ pad_bytes (length m) = ?last"
      using finish_short [of i r "drop (4 * (i div 4) + 4) (sha_wbuf s)"] False t(2)
      by (simp add: b1_def fips_zeros_def i_def j_def)
    have ll: "length ?last = 64" using False t(2) by (simp add: fips_zeros_def i_def)
    show ?thesis
      unfolding run fin fips_blocks_one [OF ll] using False
      by (simp add: length_words [OF lb1 j c0 c1] b4 hs)
  next
    case True
    define f where "f = r @ [0x80] @ replicate (63 - i) 0"
    have fb: "(if i < 60 then set_word b1 15 0 else b1) = f"
      unfolding f_def b1_def by (rule finish_long) (use True t(2,3) wb in simp_all)
    have lf: "length f = 64" using True t by (simp add: f_def)
    have l: "?last = f @ (replicate 56 0 @ pad_bytes (length m))"
      using True t(3) by (simp add: f_def fips_zeros_def i_def replicate_add [symmetric])
    have l2: "length (replicate 56 0 @ pad_bytes (length m)) = 64" by simp
    have "(0 :: nat) \<le> 14" by simp
    note b4 = length_words [OF lf this c0 c1]
    show ?thesis
      unfolding run fin l final_block [OF lf l2] fb using True b4
      by (simp add: SHA1_Transform_fips hs)
  qed
qed

section \<open>Hashing in pieces\<close>

text \<open>
  A hash whose state represents the bytes hashed so far: what the clients of \<open>SHA1.h\<close> rely on when
  they call \<open>SHA1_Hash\<close> any number of times between \<open>SHA1_Start\<close> and \<open>SHA1_Finish\<close>.
\<close>

locale incremental_hash =
  fixes start :: "'s" and update :: "byte list \<Rightarrow> 's \<Rightarrow> 's" and finish :: "'s \<Rightarrow> byte list"
    and repr :: "byte list \<Rightarrow> 's \<Rightarrow> bool" and small :: "nat \<Rightarrow> bool" and hash :: "byte list \<Rightarrow> byte list"
  assumes start_repr: "repr [] start"
    and update_repr: "repr m s \<Longrightarrow> small (length d) \<Longrightarrow> repr (m @ d) (update d s)"
    and finish_hash: "repr m s \<Longrightarrow> finish s = hash m"
begin

lemma updates_repr:
  "repr m s \<Longrightarrow> list_all (\<lambda>d. small (length d)) ds \<Longrightarrow> repr (m @ concat ds) (fold update ds s)"
proof (induction ds arbitrary: m s)
  case (Cons d ds)
  then show ?case using Cons.IH [OF update_repr [of m s d]] by simp
qed simp

lemma pieces:
  "list_all (\<lambda>d. small (length d)) ds \<Longrightarrow> finish (fold update ds start) = hash (concat ds)"
  using finish_hash [OF updates_repr [OF start_repr]] by simp

end

interpretation sha1: incremental_hash "SHA1_Start sha1_zeroed" SHA1_Hash SHA1_Finish sha_repr
  "\<lambda>n. n < 2 ^ 32" fips_sha1
  by unfold_locales (simp_all only: SHA1_Hash_repr SHA1_Finish_fips, simp add: SHA1_Start_repr sha1_zeroed_def)

text \<open>
  \<open>sha1_file\<close>: the blocks that \<open>fread\<close> returns for a file, at most 32768 bytes each, until it
  returns none.
\<close>

function fread_blocks :: "nat \<Rightarrow> byte list \<Rightarrow> byte list list" where
  "fread_blocks n f = (if n = 0 \<or> f = [] then [] else take n f # fread_blocks n (drop n f))"
  by pat_completeness auto
termination by (relation "measure (\<lambda>(n, f). length f)") auto

declare fread_blocks.simps [simp del]

definition sha1_file :: "byte list option \<Rightarrow> byte list option" where
  "sha1_file file =
     (case file of
        None \<Rightarrow> None
      | Some f \<Rightarrow> Some (SHA1_Finish (fold SHA1_Hash (fread_blocks 32768 f) (SHA1_Start sha1_zeroed))))"

lemma fread_blocks_concat: "0 < n \<Longrightarrow> concat (fread_blocks n f) = f"
  by (induction n f rule: fread_blocks.induct) (subst fread_blocks.simps, simp)

lemma fread_blocks_small: "0 < n \<Longrightarrow> list_all (\<lambda>d. length d \<le> n) (fread_blocks n f)"
  by (induction n f rule: fread_blocks.induct) (subst fread_blocks.simps, simp)

section \<open>Properties\<close>

text \<open>
  C8: \<open>SHA1Hash\<close> computes the SHA-1 of FIPS 180-4 of its input, for every input whose length fits the
  \<open>UINT\<close> it is passed in: the buffered, in-place padding of the implementation (end marker merged
  into a word, one or two final blocks, the bit count from two 32-bit counters) gives the digest
  of the padded message.
\<close>

theorem SHA1Hash_fips:
  assumes "length m < 2 ^ 32"
  shows "SHA1Hash m = fips_sha1 m"
  using sha1.pieces [of "[m]"] assms by (simp add: SHA1Hash_def)

theorem SHA1Hash_fips_witness:
  "map unat (fips_sha1 [0x61, 0x62, 0x63]) = map unat (SHA1Hash [0x61, 0x62, 0x63])"
  using SHA1Hash_fips [of "[0x61, 0x62, 0x63]"] by simp

text \<open>
  Hashing a file through the 32 KB buffer of \<open>sha1_file\<close> gives the SHA-1 of the whole file,
  whatever its length: the split into blocks does not matter.
\<close>

theorem sha1_file_fips: "sha1_file (Some f) = Some (fips_sha1 f)"
proof -
  have "list_all (\<lambda>d. length d < 2 ^ 32) (fread_blocks 32768 f)"
    using fread_blocks_small [of 32768 f] by (auto elim: list.pred_mono_strong)
  then show ?thesis by (simp add: sha1_file_def sha1.pieces fread_blocks_concat)
qed

end
