(* ===== verification/Rsa.thy ===== *)
theory Rsa
  imports BigDivision Sha1
begin

text \<open>
  Modular exponentiation of \<open>libchecksum/basicRSA.cpp\<close> and the signature check that
  \<open>libchecksum/video_checksum.cpp\<close> builds on it.
\<close>

unbundle bit_operations_syntax

section \<open>Reduction and products modulo a number\<close>

text \<open>
  The variables of \<open>RSA\<close> that live across the loop: \<open>y\<close>, the input and the copy \<open>tm\<close> of the key,
  which \<open>BigNumberDivide\<close> shifts and restores.
\<close>

record rsa_vars =
  rsa_y :: "u32 list"
  rsa_in :: "u32 list"
  rsa_tm :: "u32 list"

text \<open>The result (the \<open>nVSize\<close> digits copied from the remainder) and the divisor as it is left.\<close>

definition BigNumberModuloTmp :: "u32 list \<Rightarrow> u32 list \<Rightarrow> u32 list \<times> u32 list" where
  "BigNumberModuloTmp u v =
     (case BigNumberDivide u v of (_, tqq, trr, v1) \<Rightarrow> (take (length v) trr, v1))"

definition BigNumberModSquareTmp :: "rsa_vars \<Rightarrow> rsa_vars" where
  "BigNumberModSquareTmp s =
     (let (a, m) = BigNumberModuloTmp (BigNumberSquare (rsa_y s)) (rsa_tm s)
      in s\<lparr>rsa_y := a, rsa_tm := m\<rparr>)"

definition BigNumberMultTmp :: "rsa_vars \<Rightarrow> rsa_vars" where
  "BigNumberMultTmp s =
     (let (a, m) = BigNumberModuloTmp (BigNumberMultiply (rsa_y s) (rsa_in s)) (rsa_tm s)
      in s\<lparr>rsa_y := a, rsa_tm := m\<rparr>)"

section \<open>Square and multiply\<close>

text \<open>\<open>for (mask = _HIBITMASK_; mask > 0; mask >>= 1) if (e[n-1] & mask) break;\<close>\<close>

fun mask_loop :: "nat \<Rightarrow> u32 \<Rightarrow> u32 \<Rightarrow> u32" where
  "mask_loop 0 v msk = msk"
| "mask_loop (Suc k) v msk =
     (if msk = 0 \<or> v AND msk \<noteq> 0 then msk else mask_loop k v (drop_bit 1 msk))"

text \<open>The step to the next lower bit: the mask, and the number of digits left.\<close>

definition next_bit :: "nat \<Rightarrow> u32 \<Rightarrow> nat \<times> u32" where
  "next_bit n msk = (if msk = 1 then (n - 1, HIBITMASK) else (n, drop_bit 1 msk))"

lemma drop_bit_1_less: "msk \<noteq> 0 \<Longrightarrow> unat (drop_bit 1 msk) < unat (msk :: u32)"
  unfolding unat_drop_bit32 by (simp add: unat_gt_0)

text \<open>
  The loop, for any squaring and multiplication.  With a zero mask the code would square forever:
  \<^theory_text>\<open>None\<close>.
\<close>

function rsa_loop :: "('s \<Rightarrow> 's) \<Rightarrow> ('s \<Rightarrow> 's) \<Rightarrow> u32 list \<Rightarrow> nat \<Rightarrow> u32 \<Rightarrow> 's \<Rightarrow> 's option" where
  "rsa_loop sq mul e n msk s =
     (if n = 0 then Some s
      else if msk = 0 then None
      else let s1 = sq s;
               s2 = (if msk AND e ! (n - 1) \<noteq> 0 then mul s1 else s1);
               (n1, mask1) = next_bit n msk
           in rsa_loop sq mul e n1 mask1 s2)"
  by pat_completeness auto

termination
  by (relation "inv_image (less_than <*lex*> less_than) (\<lambda>(sq, mul, e, n, msk, s). (n, unat msk))")
    (auto simp: next_bit_def drop_bit_1_less [simplified] split: if_splits)

declare rsa_loop.simps [simp del]

text \<open>
  \<open>RSA\<close> for arrays of the same length \<open>nSize\<close>: the returned code and \<open>out\<close>.  A zero exponent makes
  the code read \<open>private_key_or_e[-1]\<close>: \<^theory_text>\<open>None\<close>.
\<close>

definition RSA :: "u32 list \<Rightarrow> u32 list \<Rightarrow> u32 list \<Rightarrow> (int \<times> u32 list) option" where
  "RSA inp e public_key =
     (if length inp = 0 then Some (-1, [])
      else let n = BigNumberSizeof e (length e)
           in if n = 0 then None
              else let (n1, msk) = next_bit n (mask_loop 32 (e ! (n - 1)) HIBITMASK)
                   in map_option (\<lambda>s. (0, rsa_y s))
                        (rsa_loop BigNumberModSquareTmp BigNumberMultTmp e n1 msk
                           \<lparr>rsa_y = inp, rsa_in = inp, rsa_tm = public_key\<rparr>))"

section \<open>The bits of the exponent\<close>

lemma val_bit:
  "i < length e \<Longrightarrow> p < 32 \<Longrightarrow> odd (val e div 2 ^ (32 * i + p)) \<longleftrightarrow> bit (e ! i) p"
proof (induction e arbitrary: i)
  case (Cons x e)
  show ?case
  proof (cases i)
    case 0
    have "(unat x + B32 * val e) div 2 ^ p = unat x div 2 ^ p + 2 ^ (32 - p) * val e"
    proof -
      have "B32 = 2 ^ p * 2 ^ (32 - p)"
        unfolding power_add [symmetric] using Cons.prems(2) by simp
      then show ?thesis by (simp only: mult.assoc) simp
    qed
    moreover have "even ((2 :: nat) ^ (32 - p) * val e)" using Cons.prems(2) by simp
    moreover have "odd (unat x div 2 ^ p) \<longleftrightarrow> bit x p"
      using bit_unsigned_iff [where w = x and n = p and 'a = nat] Cons.prems(2) by (simp add: bit_iff_odd)
    ultimately show ?thesis using 0 by simp
  next
    case (Suc k)
    have "(unat x + B32 * val e) div 2 ^ (32 * Suc k + p) = (unat x + B32 * val e) div B32 div 2 ^ (32 * k + p)"
    proof -
      have "(2 :: nat) ^ (32 * Suc k + p) = B32 * 2 ^ (32 * k + p)" by (simp add: power_add)
      then show ?thesis by (simp only: div_mult2_eq)
    qed
    also have "\<dots> = val e div 2 ^ (32 * k + p)" using unat_bound [of x] by simp
    finally show ?thesis using Cons Suc by simp
  qed
qed simp

lemma bit_step: "E div 2 ^ k = 2 * (E div 2 ^ Suc k) + (if odd (E div 2 ^ k) then 1 else (0 :: nat))"
proof -
  have "E div 2 ^ Suc k = E div 2 ^ k div 2" by (simp only: power_Suc2 div_mult2_eq)
  then show ?thesis by simp
qed

lemma val_div_top: "32 * length e \<le> k \<Longrightarrow> val e div 2 ^ k = 0"
proof -
  assume "32 * length e \<le> k"
  then have "(2 :: nat) ^ (32 * length e) \<le> 2 ^ k" by (intro power_increasing) simp_all
  then have "val e < 2 ^ k" using val_bound [of e] by linarith
  then show ?thesis by simp
qed

lemma next_bit_down:
  assumes "p < 32" "0 < n" "next_bit n (drop_bit (31 - p) HIBITMASK) = (n1, msk)"
  shows "(p = 0 \<and> n1 = n - 1 \<and> msk = drop_bit (31 - 31) HIBITMASK) \<or>
    (0 < p \<and> n1 = n \<and> msk = drop_bit (31 - (p - 1)) HIBITMASK)"
proof -
  have "drop_bit (31 - p) HIBITMASK = 1 \<longleftrightarrow> p = 0"
  proof
    assume "drop_bit (31 - p) HIBITMASK = 1"
    then have "bit (drop_bit (31 - p) HIBITMASK) 0" by simp
    then show "p = 0" using assms(1) unfolding bit_mask_hi by simp
  next
    assume "p = 0"
    then show "drop_bit (31 - p) HIBITMASK = 1"
      by (intro bit_word_eqI) (auto simp: bit_mask_hi bit_1_iff)
  qed
  moreover have "drop_bit 1 (drop_bit (31 - p) HIBITMASK) = drop_bit (31 - (p - 1)) HIBITMASK" if "0 < p"
  proof -
    have "31 - (p - 1) = 1 + (31 - p)" using that assms(1) by simp
    then show ?thesis by (simp only: drop_bit_drop_bit)
  qed
  ultimately show ?thesis using assms(3) by (auto simp: next_bit_def split: if_splits)
qed

section \<open>Exponentiation over a modular multiplication\<close>

text \<open>
  What the loop needs from the two products: they act on a state that holds a number, a base and a
  modulus, and keep the base, the modulus and their own precondition.
\<close>

locale modular_products =
  fixes sq mul :: "'s \<Rightarrow> 's" and num base modulus :: "'s \<Rightarrow> nat" and ok :: "'s \<Rightarrow> bool"
  assumes sq: "ok s \<Longrightarrow> ok (sq s) \<and> base (sq s) = base s \<and> modulus (sq s) = modulus s \<and>
      num (sq s) = (num s)\<^sup>2 mod modulus s"
    and mul: "ok s \<Longrightarrow> ok (mul s) \<and> base (mul s) = base s \<and> modulus (mul s) = modulus s \<and>
      num (mul s) = num s * base s mod modulus s"
begin

lemma step_num:
  assumes "ok s" "num s mod modulus s = base s ^ (E div 2 ^ Suc k) mod modulus s" "b = odd (E div 2 ^ k)"
  shows "num (if b then mul (sq s) else sq s) = base s ^ (E div 2 ^ k) mod modulus s"
proof -
  let ?m = "modulus s" and ?x = "base s" and ?h = "E div 2 ^ Suc k"
  have q: "num (sq s) = ?x ^ (2 * ?h) mod ?m"
  proof -
    have "(num s)\<^sup>2 mod ?m = (num s mod ?m)\<^sup>2 mod ?m" by (simp add: power_mod)
    also have "\<dots> = (?x ^ ?h)\<^sup>2 mod ?m" unfolding assms(2) by (simp add: power_mod)
    finally show ?thesis using sq [OF assms(1)] by (simp add: power_mult [symmetric] mult.commute)
  qed
  have "num (mul (sq s)) = ?x ^ (2 * ?h + 1) mod ?m"
  proof -
    have "num (mul (sq s)) = num (sq s) * ?x mod ?m" using mul [of "sq s"] sq [OF assms(1)] by simp
    then show ?thesis unfolding q mod_mult_left_eq by (simp add: mult.commute)
  qed
  moreover have "E div 2 ^ k = 2 * ?h + (if b then 1 else 0)" using bit_step [of E k] assms(3) by simp
  ultimately show ?thesis using q by simp
qed

lemma step_ok:
  "ok s \<Longrightarrow> ok (if b then mul (sq s) else sq s) \<and> base (if b then mul (sq s) else sq s) = base s \<and>
   modulus (if b then mul (sq s) else sq s) = modulus s"
  using sq [of s] mul [of "sq s"] by simp

lemma loop_power:
  assumes "n \<le> length e" "p < 32" "ok s" "0 < n \<Longrightarrow> k = 32 * (n - 1) + p + 1" "n = 0 \<Longrightarrow> k = 0"
    "num s mod modulus s = base s ^ (val e div 2 ^ k) mod modulus s" "msk = drop_bit (31 - p) HIBITMASK"
  shows "\<exists>s'. rsa_loop sq mul e n msk s = Some s' \<and> ok s' \<and> base s' = base s \<and> modulus s' = modulus s \<and>
    num s' mod modulus s = base s ^ val e mod modulus s \<and> (0 < k \<longrightarrow> num s' = base s ^ val e mod modulus s)"
  using assms
proof (induction k arbitrary: n p s msk)
  case 0
  then have "n = 0" by (cases n) simp_all
  then show ?case using 0 by (simp add: rsa_loop.simps)
next
  case (Suc k)
  then have n: "0 < n" by (cases n) simp_all
  define s1 where "s1 = (if odd (val e div 2 ^ k) then mul (sq s) else sq s)"
  have kk: "k = 32 * (n - 1) + p" using Suc.prems(4) n by simp
  have nz: "msk \<noteq> 0"
  proof
    assume "msk = 0"
    then have "\<not> bit msk p" by simp
    then show False using Suc.prems(2,7) by (simp add: bit_mask_hi)
  qed
  have "31 - p < 32" by simp
  then have "e ! (n - 1) AND msk \<noteq> 0 \<longleftrightarrow> bit (e ! (n - 1)) p"
    using and_drop_HIBITMASK [of "31 - p" "e ! (n - 1)"] Suc.prems(2,7) by simp
  moreover have "bit (e ! (n - 1)) p \<longleftrightarrow> odd (val e div 2 ^ k)"
    unfolding kk using Suc.prems(1,2) n by (intro val_bit [symmetric]) simp_all
  ultimately have bit: "msk AND e ! (n - 1) \<noteq> 0 \<longleftrightarrow> odd (val e div 2 ^ k)" by (simp add: and.commute)
  obtain n1 m1 where nb: "next_bit n msk = (n1, m1)" by (rule prod.exhaust)
  have run: "rsa_loop sq mul e n msk s = rsa_loop sq mul e n1 m1 s1"
    using n nz bit nb by (subst rsa_loop.simps) (simp add: s1_def Let_def)
  note S = step_ok [OF Suc.prems(3), of "odd (val e div 2 ^ k)", folded s1_def]
  have N: "num s1 = base s ^ (val e div 2 ^ k) mod modulus s"
    unfolding s1_def by (rule step_num [OF Suc.prems(3,6) refl])
  define p1 where "p1 = (if p = 0 then 31 else p - 1)"
  have nx: "m1 = drop_bit (31 - p1) HIBITMASK \<and> n1 = (if p = 0 then n - 1 else n)"
    using next_bit_down [OF Suc.prems(2) n nb [unfolded Suc.prems(7)]] by (auto simp: p1_def)
  have "\<exists>s'. rsa_loop sq mul e n1 m1 s1 = Some s' \<and> ok s' \<and> base s' = base s1 \<and> modulus s' = modulus s1 \<and>
      num s' mod modulus s1 = base s1 ^ val e mod modulus s1 \<and> (0 < k \<longrightarrow> num s' = base s1 ^ val e mod modulus s1)"
  proof (rule Suc.IH)
    show "n1 \<le> length e" "p1 < 32" using nx Suc.prems(1,2) by (auto simp: p1_def)
    show "ok s1" "m1 = drop_bit (31 - p1) HIBITMASK" using S nx by simp_all
    show "0 < n1 \<Longrightarrow> k = 32 * (n1 - 1) + p1 + 1" "n1 = 0 \<Longrightarrow> k = 0"
      using nx n kk by (auto simp: p1_def split: if_splits)
    show "num s1 mod modulus s1 = base s1 ^ (val e div 2 ^ k) mod modulus s1" using S N by simp
  qed
  then obtain s' where s': "rsa_loop sq mul e n1 m1 s1 = Some s'" "ok s'" "base s' = base s" "modulus s' = modulus s"
    "num s' mod modulus s = base s ^ val e mod modulus s" "0 < k \<longrightarrow> num s' = base s ^ val e mod modulus s"
    using S by auto
  have "num s' = base s ^ val e mod modulus s" if "k = 0"
  proof -
    have "n1 = 0" using nx n kk that by (auto simp: p1_def split: if_splits)
    then have "s' = s1" using s'(1) by (simp add: rsa_loop.simps)
    then show ?thesis using N that by simp
  qed
  then show ?case using s' run by auto
qed

end

lemma val_take_small:
  assumes "k \<le> length x" "val x < 2 ^ (32 * k)"
  shows "val (take k x) = val x"
proof -
  have "val x = val (take k x) + 2 ^ (32 * k) * val (drop k x)" by (rule val_take_drop [OF assms(1)])
  moreover have "val (drop k x) = 0"
  proof (rule ccontr)
    assume "val (drop k x) \<noteq> 0"
    then have "2 ^ (32 * k) * 1 \<le> 2 ^ (32 * k) * val (drop k x)" by (intro mult_left_mono) simp_all
    then show False using assms(2) calculation by linarith
  qed
  ultimately show ?thesis by simp
qed

lemma ModuloTmp_val:
  assumes "length v \<le> length u" "val v \<noteq> 0"
  shows "\<exists>r. BigNumberModuloTmp u v = (r, v) \<and> length r = length v \<and> val r = val u mod val v"
proof -
  have "v \<noteq> []" using assms(2) by auto
  then have "u \<noteq> []" using assms(1) by auto
  from BigNumberDivide_val [OF this assms(2)] obtain q r where d: "BigNumberDivide u v = (0, q, r, v)"
    "length r = length u" "val r = val u mod val v" by blast
  have "val u mod val v < val v" using assms(2) by simp
  then have "val r < 2 ^ (32 * length v)" using d(3) val_bound [of v] by linarith
  then have "val (take (length v) r) = val r" using val_take_small assms(1) d(2) by simp
  then show ?thesis using d assms(1) by (simp add: BigNumberModuloTmp_def)
qed

definition rsa_ok :: "nat \<Rightarrow> rsa_vars \<Rightarrow> bool" where
  "rsa_ok nSize s \<longleftrightarrow>
     length (rsa_tm s) = nSize \<and> length (rsa_y s) = nSize \<and> length (rsa_in s) = nSize \<and>
     val (rsa_tm s) \<noteq> 0"

interpretation rsa: modular_products BigNumberModSquareTmp BigNumberMultTmp
  "\<lambda>s. val (rsa_y s)" "\<lambda>s. val (rsa_in s)" "\<lambda>s. val (rsa_tm s)" "rsa_ok nSize"
  for nSize
proof unfold_locales
  fix s assume ok: "rsa_ok nSize s"
  have "length (rsa_tm s) \<le> length (BigNumberSquare (rsa_y s))"
    using ok by (simp add: rsa_ok_def BigNumberSquare_val)
  then obtain r where r: "BigNumberModuloTmp (BigNumberSquare (rsa_y s)) (rsa_tm s) = (r, rsa_tm s)"
    "length r = length (rsa_tm s)" "val r = (val (rsa_y s))\<^sup>2 mod val (rsa_tm s)"
    using ModuloTmp_val [of "rsa_tm s" "BigNumberSquare (rsa_y s)"] ok by (auto simp: rsa_ok_def BigNumberSquare_val)
  then show "rsa_ok nSize (BigNumberModSquareTmp s) \<and>
      val (rsa_in (BigNumberModSquareTmp s)) = val (rsa_in s) \<and>
      val (rsa_tm (BigNumberModSquareTmp s)) = val (rsa_tm s) \<and>
      val (rsa_y (BigNumberModSquareTmp s)) = (val (rsa_y s))\<^sup>2 mod val (rsa_tm s)"
    using ok by (simp add: BigNumberModSquareTmp_def rsa_ok_def)
next
  fix s assume ok: "rsa_ok nSize s"
  have l: "length (rsa_y s) = length (rsa_in s)" using ok by (simp add: rsa_ok_def)
  note M = BigNumberMultiply_val [OF l]
  then obtain r where r: "BigNumberModuloTmp (BigNumberMultiply (rsa_y s) (rsa_in s)) (rsa_tm s) = (r, rsa_tm s)"
    "length r = length (rsa_tm s)" "val r = val (rsa_y s) * val (rsa_in s) mod val (rsa_tm s)"
    using ModuloTmp_val [of "rsa_tm s" "BigNumberMultiply (rsa_y s) (rsa_in s)"] ok by (auto simp: rsa_ok_def)
  then show "rsa_ok nSize (BigNumberMultTmp s) \<and>
      val (rsa_in (BigNumberMultTmp s)) = val (rsa_in s) \<and>
      val (rsa_tm (BigNumberMultTmp s)) = val (rsa_tm s) \<and>
      val (rsa_y (BigNumberMultTmp s)) = val (rsa_y s) * val (rsa_in s) mod val (rsa_tm s)"
    using ok by (simp add: BigNumberMultTmp_def rsa_ok_def)
qed

lemma mask_loop_top:
  assumes "n + k = 32" "v \<noteq> 0"
  shows "mask_loop n v (drop_bit k HIBITMASK) = drop_bit (top_bit_loop n k (drop_bit k HIBITMASK) v) HIBITMASK"
  using assms
proof (induction n arbitrary: k)
  case (Suc n)
  then have k: "k < 32" by simp
  have nz: "drop_bit k HIBITMASK \<noteq> 0"
  proof
    assume "drop_bit k HIBITMASK = 0"
    then have "\<not> bit (drop_bit k HIBITMASK) (31 - k)" by simp
    then show False using k by (simp add: bit_mask_hi)
  qed
  show ?case using Suc nz by (simp add: add.commute)
qed simp

lemma RSA_runs:
  assumes "length inp = length m" "length e = length m" "val m \<noteq> 0" "val e \<noteq> 0"
  shows "\<exists>out. RSA inp e m = Some (0, out) \<and> length out = length m \<and>
    val out = (if val e = 1 then val inp else val inp ^ val e mod val m)"
proof -
  define n where "n = BigNumberSizeof e (length e)"
  have nl: "n \<le> length e" by (simp add: n_def BigNumberSizeof_le)
  have n0: "0 < n" using BigNumberSizeof_0 [of "length e" e] assms(4) by (simp add: n_def)
  have top: "e ! (n - 1) \<noteq> 0" using top_digit_nonzero [of e "length e" n] n0 by (simp add: n_def)
  have ve: "val (take n e) = val e" by (simp add: n_def val_take_Sizeof)
  define t where "t = 31 - normal_shift (e ! (n - 1))"
  note N = normal_shift_spec [OF top]
  have t: "t < 32" "31 - t = normal_shift (e ! (n - 1))" "32 - normal_shift (e ! (n - 1)) = Suc t"
    using N(1) by (simp_all add: t_def)
  have m0: "mask_loop 32 (e ! (n - 1)) HIBITMASK = drop_bit (31 - t) HIBITMASK"
    using mask_loop_top [of 32 0, OF _ top] by (simp add: t(2) normal_shift_def)
  obtain n1 m1 where nb: "next_bit n (drop_bit (31 - t) HIBITMASK) = (n1, m1)" by (rule prod.exhaust)
  define p1 where "p1 = (if t = 0 then 31 else t - 1)"
  have nx: "m1 = drop_bit (31 - p1) HIBITMASK \<and> n1 = (if t = 0 then n - 1 else n)"
    using next_bit_down [OF t(1) n0 nb] by (auto simp: p1_def)
  let ?k = "32 * (n - 1) + t"
  have one: "val e div 2 ^ ?k = 1"
  proof -
    have "val (take (Suc (n - 1)) e) = val (take (n - 1) e) + 2 ^ (32 * (n - 1)) * unat (e ! (n - 1))"
      using nl n0 by (intro val_take_Suc) simp
    moreover have "val (take (n - 1) e) < 2 ^ (32 * (n - 1))" using val_bound [of "take (n - 1) e"] nl by simp
    ultimately have "val e div 2 ^ (32 * (n - 1)) = unat (e ! (n - 1))" using ve n0 by simp
    then have "val e div 2 ^ ?k = unat (e ! (n - 1)) div 2 ^ t" by (simp add: power_add div_mult2_eq)
    moreover have "unat (e ! (n - 1)) div 2 ^ t = 1"
    proof -
      have "unat (e ! (n - 1)) < 2 * 2 ^ t" using N(4) unfolding t(3) by simp
      then have "unat (e ! (n - 1)) div 2 ^ t < 2" by (rule less_mult_imp_div_less)
      moreover have "bit (e ! (n - 1)) t"
        using N(2) N(1) by (simp add: bit_push_bit_iff t_def)
      then have "odd (unat (e ! (n - 1)) div 2 ^ t)"
        using bit_unsigned_iff [where w = "e ! (n - 1)" and n = t and 'a = nat] t(1) by (simp add: bit_iff_odd)
      ultimately show ?thesis by (auto simp: less_2_cases_iff)
    qed
    ultimately show ?thesis by simp
  qed
  let ?s = "\<lparr>rsa_y = inp, rsa_in = inp, rsa_tm = m\<rparr>"
  have ok: "rsa_ok (length m) ?s" using assms by (simp add: rsa_ok_def)
  have "\<exists>s'. rsa_loop BigNumberModSquareTmp BigNumberMultTmp e n1 m1 ?s = Some s' \<and> rsa_ok (length m) s' \<and>
      val (rsa_in s') = val (rsa_in ?s) \<and> val (rsa_tm s') = val (rsa_tm ?s) \<and>
      val (rsa_y s') mod val (rsa_tm ?s) = val (rsa_in ?s) ^ val e mod val (rsa_tm ?s) \<and>
      (0 < ?k \<longrightarrow> val (rsa_y s') = val (rsa_in ?s) ^ val e mod val (rsa_tm ?s))"
  proof (rule rsa.loop_power [OF _ _ ok])
    show "n1 \<le> length e" "p1 < 32" using nx nl t(1) by (auto simp: p1_def)
    show "0 < n1 \<Longrightarrow> ?k = 32 * (n1 - 1) + p1 + 1" "n1 = 0 \<Longrightarrow> ?k = 0"
      using nx n0 by (auto simp: p1_def split: if_splits)
    show "val (rsa_y ?s) mod val (rsa_tm ?s) = val (rsa_in ?s) ^ (val e div 2 ^ ?k) mod val (rsa_tm ?s)"
      unfolding one by simp
    show "m1 = drop_bit (31 - p1) HIBITMASK" using nx by simp
  qed
  then obtain s' where s': "rsa_loop BigNumberModSquareTmp BigNumberMultTmp e n1 m1 ?s = Some s'" "rsa_ok (length m) s'"
    "0 < ?k \<longrightarrow> val (rsa_y s') = val inp ^ val e mod val m"
    by auto
  have ne: "length inp \<noteq> 0" using assms(1,3) by (cases m) auto
  have R: "RSA inp e m = Some (0, rsa_y s')"
    unfolding RSA_def n_def [symmetric] Let_def m0 nb prod.case s'(1) using ne n0 by simp
  have out: "val (rsa_y s') = (if val e = 1 then val inp else val inp ^ val e mod val m)"
  proof (cases "?k = 0")
    case True
    then have "n1 = 0" using nx n0 by auto
    then have "s' = ?s" using s'(1) by (simp add: rsa_loop.simps)
    then show ?thesis using one True by simp
  next
    case False
    have "val e \<noteq> 1"
    proof
      assume "val e = 1"
      then have "1 div (2 :: nat) ^ ?k = 1" using one by simp
      moreover have "(1 :: nat) < 2 ^ ?k" by (intro one_less_power) (simp, use False in linarith)
      ultimately show False by (simp only: div_less)
    qed
    moreover have "0 < ?k" using False by linarith
    ultimately show ?thesis using s'(3) by (simp only: if_False)
  qed
  show ?thesis using R out s'(2) by (simp add: rsa_ok_def)
qed

section \<open>The signature check\<close>

text \<open>The default key \<open>dwindow_n\<close> of \<open>video_checksum.cpp\<close> (without \<open>VSTAR\<close>).\<close>

definition dwindow_n :: "u32 list" where
  "dwindow_n =
    [0x5cc5db57, 0x881651da, 0x7981477c, 0xa65785e0, 0x5fe54c72, 0x5247aeff, 0xd2b635f7, 0x24781e90,
     0x3d4e298e, 0x92f1bb41, 0x90494ef2, 0x2f0f6eeb, 0xb151c299, 0x6641acf9, 0x8a0681de, 0x9dd53c21,
     0x623631ca, 0x906c24ff, 0x14980fce, 0xbbd5419f, 0x1ef0366c, 0xb759416a, 0x1a214b0f, 0x070c6972,
     0x382d1969, 0xb9a02637, 0xeadffc31, 0xcd13093a, 0xfd273caf, 0xd2140f85, 0x2800ba50, 0x877d04f0]"

text \<open>
  \<open>checksum\<close> has 5 digits, \<open>signature\<close> and the key 32.  If \<open>RSA\<close> failed, the local \<open>m1\<close> would be
  uninitialised; \<^theory_text>\<open>None\<close> stands for a comparison with it.
\<close>

definition verify_signature :: "u32 list \<Rightarrow> u32 list \<Rightarrow> u32 list option \<Rightarrow> bool option" where
  "verify_signature checksum signature public_key =
     (let e = (replicate 32 0)[0 := 65537];
          m = checksum @ replicate 27 0;
          key = (case public_key of None \<Rightarrow> dwindow_n | Some k \<Rightarrow> k)
      in case RSA signature e key of
           None \<Rightarrow> None
         | Some (c, m1) \<Rightarrow> (if c = 0 then Some (m = m1) else None))"

lemma val_pad: "val (x @ replicate k 0) = val x"
  by (simp add: val_append)

lemma val_65537: "val ((replicate 32 0)[0 := 65537]) = 65537"
  by (simp add: val_singleton_update)

lemma verify_signature_val:
  assumes "length checksum = 5" "length signature = 32" "length key = 32" "val key \<noteq> 0"
  shows "verify_signature checksum signature (Some key) =
    Some (val signature ^ 65537 mod val key = val checksum)"
proof -
  have "val ((replicate 32 0)[0 := 65537]) \<noteq> 0" unfolding val_65537 by simp
  then obtain out where out: "RSA signature ((replicate 32 0)[0 := 65537]) key = Some (0, out)"
    "length out = 32" "val out = val signature ^ 65537 mod val key"
    using RSA_runs [of signature key "(replicate 32 0)[0 := 65537]"] assms unfolding val_65537 by auto
  have "checksum @ replicate 27 0 = out \<longleftrightarrow> val checksum = val out"
    using val_inj [of "checksum @ replicate 27 0" out] out(2) assms(1) by (simp add: val_pad)
  then show ?thesis unfolding verify_signature_def Let_def using out by auto
qed

section \<open>Properties\<close>

text \<open>
  C9: The schoolbook product and the symmetric square agree: \<open>BigNumberSquare\<close>, which doubles the
  mixed terms and carries between rows, computes what \<open>BigNumberMultiply\<close> computes on two copies of
  its argument, digit for digit, and this is the square of the number.
\<close>

theorem Square_is_Multiply:
  "BigNumberSquare x = BigNumberMultiply x x \<and> val (BigNumberSquare x) = (val x)\<^sup>2"
proof -
  have "length (BigNumberSquare x) = length (BigNumberMultiply x x)"
    by (simp add: BigNumberSquare_val BigNumberMultiply_val)
  then show ?thesis
    using val_inj [of "BigNumberSquare x" "BigNumberMultiply x x"]
    by (simp add: BigNumberSquare_val BigNumberMultiply_val power2_eq_square)
qed

text \<open>
  C10: \<open>BigNumberDivide\<close> divides: for a non-zero divisor of any length it returns 0 with the digits of
  the quotient and of the remainder, and leaves the divisor, which it normalises in place, as it was.
\<close>

theorem Divide_correct:
  assumes "u \<noteq> []" "val v \<noteq> 0"
  shows "\<exists>q r. BigNumberDivide u v = (0, q, r, v) \<and> length q = length u \<and> length r = length u \<and>
    val q = val u div val v \<and> val r = val u mod val v"
  using assms by (rule BigNumberDivide_val)

theorem Divide_correct_witness:
  "\<exists>q r. BigNumberDivide [7, 9, 0xffffffff] [5, 0x80000000, 0] = (0, q, r, [5, 0x80000000, 0]) \<and>
    val q = 8589934589 \<and> val r = 9223372032559808534"
proof -
  have "[7 :: u32, 9, 0xffffffff] \<noteq> []" "val [5, 0x80000000, 0] \<noteq> 0" by simp_all
  from Divide_correct [OF this] obtain q r where
    "BigNumberDivide [7, 9, 0xffffffff] [5, 0x80000000, 0] = (0, q, r, [5, 0x80000000, 0])"
    "val q = val [7, 9, 0xffffffff] div val [5, 0x80000000, 0]"
    "val r = val [7, 9, 0xffffffff] mod val [5, 0x80000000, 0]"
    by blast
  then show ?thesis by simp
qed

text \<open>
  C11: \<open>RSA\<close> is modular exponentiation: for a non-zero modulus and exponent it terminates and returns
  the digits of the power reduced by the modulus; only for the exponent 1 is the input returned as it
  is, not reduced.
\<close>

theorem RSA_correct:
  assumes "length inp = length m" "length e = length m" "val m \<noteq> 0" "val e \<noteq> 0"
  shows "\<exists>out. RSA inp e m = Some (0, out) \<and> length out = length m \<and>
    val out = (if val e = 1 then val inp else val inp ^ val e mod val m)"
  using assms by (rule RSA_runs)

theorem RSA_correct_witness:
  "\<exists>out. RSA [5, 1] [3, 0] [7, 0] = Some (0, out) \<and> val out = (5 + 4294967296) ^ 3 mod 7"
proof -
  have "length [5 :: u32, 1] = length [7 :: u32, 0]" "length [3 :: u32, 0] = length [7 :: u32, 0]"
    "val [7, 0] \<noteq> 0" "val [3, 0] \<noteq> 0" by simp_all
  from RSA_correct [OF this] obtain out where "RSA [5, 1] [3, 0] [7, 0] = Some (0, out)"
    "val out = (if val [3, 0] = 1 then val [5, 1] else val [5, 1] ^ val [3, 0] mod val [7, 0])"
    by blast
  then show ?thesis by simp
qed

text \<open>
  The signature check accepts a signature exactly when its 65537th power modulo the key is the
  20-byte checksum read as a number; it never fails to decide.
\<close>

theorem verify_signature_iff:
  assumes "length checksum = 5" "length signature = 32" "length key = 32" "val key \<noteq> 0"
  shows "verify_signature checksum signature (Some key) =
    Some (val signature ^ 65537 mod val key = val checksum)"
  using assms by (rule verify_signature_val)

theorem verify_signature_iff_witness:
  "verify_signature [1, 0, 0, 0, 0] (1 # replicate 31 0) (Some dwindow_n) = Some True"
proof -
  have "1 < val dwindow_n" by (simp add: dwindow_n_def)
  then show ?thesis
    using verify_signature_iff [of "[1, 0, 0, 0, 0]" "1 # replicate 31 0" dwindow_n]
    by (simp add: dwindow_n_def)
qed

end
