(* ===== verification/VideoChecksum.thy ===== *)
theory VideoChecksum
  imports Rsa
begin

text \<open>
  Checksum, signature and licence functions of \<open>libchecksum/video_checksum.cpp\<close>.  A file is its bytes,
  \<^theory_text>\<open>None\<close> a file that cannot be opened; a buffer that the code does not initialise has the contents
  \<open>junk\<close>.
\<close>

unbundle bit_operations_syntax

section \<open>The checksum of a video\<close>

definition le64_bytes :: "nat \<Rightarrow> byte list" where
  "le64_bytes n = map (\<lambda>i. word_of_nat (n div 256 ^ i)) [0 ..< 8]"

definition min_data_size :: nat where
  "min_data_size = 128 * 1024 * 40"

text \<open>
  Byte offsets of the \<open>DWORD\<close> pointers: \<open>data + 65536\<close> is byte 262144, \<open>data + 131072/4*i\<close> byte
  \<open>131072 * i\<close>.  \<open>ReadFile\<close> writes what there is to read.
\<close>

definition read_block :: "byte list \<Rightarrow> nat \<Rightarrow> nat \<Rightarrow> nat \<Rightarrow> byte list \<Rightarrow> byte list" where
  "read_block f pos n offset data = blit data offset (slice pos n f)"

definition video_data :: "byte list \<Rightarrow> byte list" where
  "video_data f =
     (let filesize = length f;
          data = replicate (min_data_size + 8) 0;
          data = blit data min_data_size (le64_bytes filesize)
      in if filesize < min_data_size
         then blit data 0 (drop 65536 f)
         else fold (\<lambda>i. read_block f (filesize div 40 * i) 131072 (131072 * i)) [1 ..< 40]
                (read_block f 65536 65536 262144 data))"

text \<open>The returned code, and the checksum when it is written.\<close>

definition video_checksum :: "byte list option \<Rightarrow> int \<times> byte list option" where
  "video_checksum file =
     (case file of
        None \<Rightarrow> (-1, None)
      | Some f \<Rightarrow> if length f = 0 then (-1, None) else (0, Some (SHA1Hash (video_data f))))"

text \<open>The comparison of a file's SHA-1 with a checksum; \<open>junk\<close> is the array left uninitialised when the
  file cannot be opened.\<close>

definition veryfy_file_sha1 :: "byte list \<Rightarrow> byte list option \<Rightarrow> byte list \<Rightarrow> bool" where
  "veryfy_file_sha1 junk file checksum =
     (checksum = (case sha1_file file of None \<Rightarrow> junk | Some d \<Rightarrow> d))"

section \<open>Signed files\<close>

definition startcode :: "byte list" where
  "startcode = [0x6d, 0x79, 0x31, 0x32, 0x64, 0x6f, 0x6f, 0x6d, 0x27]"

fun find_in :: "nat \<Rightarrow> nat \<Rightarrow> byte list \<Rightarrow> int" where
  "find_in 0 i buf = -1"
| "find_in (Suc n) i buf =
     (if slice i 9 buf = startcode then int i + 26 else find_in n (i + 1) buf)"

definition find_startcode :: "byte list \<Rightarrow> byte list option \<Rightarrow> int" where
  "find_startcode junk file =
     (case file of
        None \<Rightarrow> -1
      | Some f \<Rightarrow> find_in (65536 - 8) 0 (blit junk 0 (take 65536 f)))"

text \<open>The \<open>DWORD\<close>s of a byte buffer.\<close>

definition dwords :: "byte list \<Rightarrow> u32 list" where
  "dwords bs = map (get_word bs) [0 ..< length bs div 4]"

definition verify_file :: "byte list \<Rightarrow> byte list \<Rightarrow> byte list option \<Rightarrow> int option" where
  "verify_file junk sigjunk file =
     (let pos = find_startcode junk file
      in if pos \<le> 0 then Some (-1)
         else case (video_checksum file, file) of
                ((_, Some sha1), Some f) \<Rightarrow>
                  (let signature = dwords (blit sigjunk 0 (slice (nat pos) 128 f))
                   in if list_all (\<lambda>d. d = 0) signature then Some 0
                      else map_option (\<lambda>ok. if ok then 2 else 1)
                             (verify_signature (dwords sha1) signature None))
              | _ \<Rightarrow> Some (-1))"

section \<open>Licences\<close>

record dwindow_license =
  lic_id :: "u32 list"
  lic_signature :: "u32 list"

definition dwindow_network_n :: "u32 list" where
  "dwindow_network_n =
    [0x0429c977, 0xb16e4217, 0x91009d67, 0x984ede2a, 0xb9c4d087, 0x8b7067a4, 0x8ef2ec12, 0x40b89949,
     0x5688ead8, 0xa6133eeb, 0x8ef6eb10, 0x0cff6754, 0xfdb87672, 0x6abe98b0, 0x7659b09c, 0xdb9ce7bf,
     0x69cf481a, 0xccf1eef7, 0xf1502363, 0x2d0a6b98, 0x40e16c81, 0xce6e58da, 0xe4cd380a, 0x381fe321,
     0x143d1e8d, 0xffe014c3, 0x8f36fec1, 0xb3fc8ff3, 0x7a4c3eff, 0xe990f2eb, 0xff356d87, 0x70cd2187]"

text \<open>The exponent of all calls; \<open>rsa_public\<close> is the array that \<open>RSA\<close> fills.\<close>

definition rsa_public :: "u32 list \<Rightarrow> u32 list \<Rightarrow> u32 list option" where
  "rsa_public input key = map_option snd (RSA input ((replicate 32 0)[0 := 65537]) key)"

definition encrypt_license :: "dwindow_license \<Rightarrow> u32 list option" where
  "encrypt_license license = rsa_public (lic_id license) dwindow_n"

definition is_valid_license :: "dwindow_license \<Rightarrow> bool option" where
  "is_valid_license license =
     map_option (\<lambda>m. lic_id license = m) (rsa_public (lic_signature license) dwindow_n)"

definition decrypt_license :: "u32 list \<Rightarrow> (dwindow_license \<times> bool) option" where
  "decrypt_license msg =
     (case rsa_public msg dwindow_n of
        None \<Rightarrow> None
      | Some ident \<Rightarrow>
          (let l = \<lparr>lic_id = ident, lic_signature = msg\<rparr>
           in map_option (Pair l) (is_valid_license l)))"

text \<open>
  \<open>load_license\<close> falls off its end after filling the licence: the value it returns is undefined
  (\<^theory_text>\<open>None\<close> in the first component).  \<open>save_license\<close> is a stub.
\<close>

definition load_license :: "byte list option \<Rightarrow> bool option \<times> dwindow_license option" where
  "load_license file =
     (case file of
        None \<Rightarrow> (Some False, None)
      | Some f \<Rightarrow>
          if length f < 128 then (Some False, None)
          else (let signature = dwords (take 128 f)
                in (None, map_option (\<lambda>i. \<lparr>lic_id = i, lic_signature = signature\<rparr>)
                            (rsa_public signature dwindow_n))))"

definition save_license :: "dwindow_license \<Rightarrow> bool" where
  "save_license l = False"

definition RSA_dwindow_public :: "u32 list \<Rightarrow> u32 list option" where
  "RSA_dwindow_public input = rsa_public input dwindow_n"

definition RSA_dwindow_network_public :: "u32 list \<Rightarrow> u32 list option" where
  "RSA_dwindow_network_public input = rsa_public input dwindow_network_n"

section \<open>Facts\<close>

lemma length_le64 [simp]: "length (le64_bytes n) = 8"
  by (simp add: le64_bytes_def)

lemma blocks_cong:
  assumes "length f = length g" "\<forall>k. 131072 \<le> k \<and> k < length f \<longrightarrow> f ! k = g ! k" "131072 \<le> pos"
  shows "slice pos n f = slice pos n g"
  using assms by (intro nth_equalityI) (auto simp: slice_nth)

lemma read_blocks_eq:
  assumes "length f = length g" "\<forall>k. 131072 \<le> k \<and> k < length f \<longrightarrow> f ! k = g ! k"
    "5242880 \<le> length f" "1 \<le> i"
  shows "fold (\<lambda>i. read_block f (length f div 40 * i) 131072 (131072 * i)) [i ..< j] data =
    fold (\<lambda>i. read_block g (length g div 40 * i) 131072 (131072 * i)) [i ..< j] data"
proof -
  have "fold (\<lambda>i. read_block f (length f div 40 * i) 131072 (131072 * i)) js data =
      fold (\<lambda>i. read_block g (length g div 40 * i) 131072 (131072 * i)) js data" if "\<forall>i\<in>set js. 1 \<le> i" for js
    using that
  proof (induction js arbitrary: data)
    case (Cons i js)
    have "131072 * 1 \<le> length f div 40 * i" using assms(3) Cons.prems by (intro mult_le_mono) simp_all
    then have "slice (length f div 40 * i) 131072 f = slice (length f div 40 * i) 131072 g"
      using blocks_cong [OF assms(1,2)] by simp
    then show ?case using Cons assms(1) by (simp add: read_block_def)
  qed simp
  from this [of "[i ..< j]"] assms(4) show ?thesis by simp
qed

lemma blit_twice:
  assumes "length b \<le> length c" "i + length c \<le> length a"
  shows "blit (blit a i b) i c = blit a i c"
proof (rule nth_equalityI)
  show "length (blit (blit a i b) i c) = length (blit a i c)" using assms by simp
  fix k assume "k < length (blit (blit a i b) i c)"
  then have "k < length a" using assms by simp
  then show "blit (blit a i b) i c ! k = blit a i c ! k" using assms by (auto simp: blit_nth)
qed

lemma blit_blit_disjoint:
  assumes "i + length b \<le> j" "j + length c \<le> length a"
  shows "blit (blit a j c) i b = blit (blit a i b) j c"
proof (rule nth_equalityI)
  show "length (blit (blit a j c) i b) = length (blit (blit a i b) j c)" using assms by simp
  fix k assume "k < length (blit (blit a j c) i b)"
  then have "k < length a" using assms by simp
  then show "blit (blit a j c) i b ! k = blit (blit a i b) j c ! k"
    using assms by (auto simp: blit_nth)
qed

lemma find_here: "0 < n \<Longrightarrow> slice i 9 buf = startcode \<Longrightarrow> find_in n i buf = int i + 26"
  by (cases n) simp_all

text \<open>Block 0 goes to the place of block 2, which overwrites it.\<close>

lemma block_0_overwritten:
  assumes "5242880 \<le> length f" "length data = min_data_size + 8"
  shows "fold (\<lambda>i. read_block f (length f div 40 * i) 131072 (131072 * i)) [1 ..< 40]
      (read_block f 65536 65536 262144 data) =
    fold (\<lambda>i. read_block f (length f div 40 * i) 131072 (131072 * i)) [1 ..< 40] data"
proof -
  have l: "length (slice (length f div 40 * i) 131072 f) = 131072" if "i < 40" for i
  proof -
    have "length f div 40 * i + 131072 \<le> length f div 40 * (i + 1)" using assms(1) by simp
    also have "\<dots> \<le> length f div 40 * 40" using that by (intro mult_left_mono) simp_all
    also have "\<dots> \<le> length f" by simp
    finally show ?thesis by simp
  qed
  have b0: "length (slice 65536 65536 f) = 65536" using assms(1) by simp
  let ?r = "\<lambda>i. read_block f (length f div 40 * i) 131072 (131072 * i)"
  have "?r 2 (?r 1 (read_block f 65536 65536 262144 data)) = ?r 2 (?r 1 data)"
    unfolding read_block_def
    using l [of 1] l [of 2] b0 assms(2)
    by (simp add: blit_blit_disjoint blit_twice min_data_size_def)
  moreover have "[1 ..< 40] = 1 # 2 # [3 ..< 40]" by (simp add: upt_conv_Cons)
  ultimately show ?thesis by simp
qed

lemma length_fips_sha1 [simp]: "length (fips_sha1 m) = 20"
  using length_blocks [of fips_H0 "fips_pad m"]
  by (auto simp: fips_sha1_def fips_H0_def length_Suc_conv numeral_eq_Suc)

lemma length_SHA1Hash [simp]: "length m < 2 ^ 32 \<Longrightarrow> length (SHA1Hash m) = 20"
  using sha1.pieces [of "[m]"] by (simp add: SHA1Hash_def)

lemma length_dwords [simp]: "length (dwords bs) = length bs div 4"
  by (simp add: dwords_def)

lemma length_dwindow_n: "length dwindow_n = 32" "val dwindow_n \<noteq> 0"
  by (simp_all add: dwindow_n_def)

lemma rsa_public_val:
  assumes "length input = 32" "length key = 32" "val key \<noteq> 0"
  shows "\<exists>out. rsa_public input key = Some out \<and> length out = 32 \<and> val out = val input ^ 65537 mod val key"
  using RSA_runs [of input key "(replicate 32 0)[0 := 65537]"] assms
  unfolding val_65537 by (auto simp: rsa_public_def)

section \<open>Properties\<close>



text \<open>
  \<open>verify_file\<close> on a file with a start code at \<open>pos - 26\<close>: an all-zero signature block is reported
  as unsigned (0), and otherwise the file is reported as matching (2) exactly when the 65537th power
  of the 128 bytes at \<open>pos\<close>, modulo the built-in key, is the checksum of the video, and as not matching
  (1) when it is not.
\<close>

theorem verify_file_result:
  assumes "find_startcode junk (Some f) = pos" "0 < pos" "f \<noteq> []" "length sigjunk = 128" "length (video_data f) < 2 ^ 32"
    and sig: "sig = dwords (blit sigjunk 0 (slice (nat pos) 128 f))"
  shows "verify_file junk sigjunk (Some f) =
    Some (if val sig = 0 then 0
          else if val sig ^ 65537 mod val dwindow_n = val (dwords (SHA1Hash (video_data f))) then 2 else 1)"
proof -
  have ls: "length sig = 32" unfolding sig using assms(4) by simp
  have z: "list_all (\<lambda>d. d = 0) sig \<longleftrightarrow> val sig = 0" for sig
    by (induction sig) (auto simp: unat_eq_0)
  have lc: "length (dwords (SHA1Hash (video_data f))) = 5" using assms(5) by simp
  have "verify_signature (dwords (SHA1Hash (video_data f))) sig None =
      verify_signature (dwords (SHA1Hash (video_data f))) sig (Some dwindow_n)"
    by (simp add: verify_signature_def)
  then show ?thesis
    using assms(1-3) verify_signature_val [OF lc ls length_dwindow_n]
    by (simp add: verify_file_def Let_def video_checksum_def sig [symmetric] z)
qed

theorem verify_file_result_witness:
  "verify_file (replicate 65536 0) (replicate 128 0) (Some (startcode @ replicate 200 0)) = Some 0"
proof -
  have p: "find_startcode (replicate 65536 0) (Some (startcode @ replicate 200 0)) = 26"
    by (simp add: find_startcode_def find_here slice_def blit_def startcode_def)
  have d: "dwords (blit (replicate 128 0) 0 (slice (nat 26) 128 (startcode @ replicate 200 0))) = replicate 32 0"
    by (simp add: dwords_def slice_def blit_def startcode_def get_word_def le_word_def map_replicate_const
        list_eq_iff_nth_eq)
  have v: "length (video_data (startcode @ replicate 200 0)) < 2 ^ 32"
    by (simp add: video_data_def Let_def min_data_size_def startcode_def)
  show ?thesis
    using verify_file_result [OF p _ _ _ v d [symmetric]] by (simp add: startcode_def)
qed

text \<open>
  A licence received from the server always validates after decryption: \<open>decrypt_license\<close> computes
  the id from the signature, so that its final \<open>is_valid_license\<close> accepts every 128-byte message.
\<close>

theorem decrypt_license_accepts:
  assumes "length msg = 32"
  shows "\<exists>l. decrypt_license msg = Some (l, True) \<and> lic_signature l = msg \<and>
    val (lic_id l) = val msg ^ 65537 mod val dwindow_n"
  using rsa_public_val [OF assms length_dwindow_n]
  by (auto simp: decrypt_license_def is_valid_license_def)

theorem decrypt_license_accepts_witness:
  "\<exists>l. decrypt_license (2 # replicate 31 0) = Some (l, True)"
proof -
  have "length (2 # replicate 31 (0 :: u32)) = 32" by simp
  from decrypt_license_accepts [OF this] show ?thesis by blast
qed

end
