(* ===== verification/FileBuffer.thy ===== *)
theory FileBuffer
  imports Prelude
begin

text \<open>
  \<open>CFileBuffer\<close> (\<open>mvc_interlacer/CFileBuffer.cpp\<close>): the ring buffer between a thread that reads or
  demultiplexes a file and the one that splits the stream.  Each operation is the part that runs under
  the lock; \<open>Retry\<close> is the branch that unlocks, sleeps and starts again.  Sizes are those of callers, not
  negative, and buffers are small enough for the sums of positions to be \<open>int\<close>s (they have at most
  51200000 bytes).
\<close>

section \<open>The buffer\<close>

record file_buffer =
  fb_the_buffer :: "byte list"
  fb_buffer_size :: nat
  fb_data_size :: nat
  fb_data_start :: nat
  fb_no_more_data :: bool
  fb_no_more_remove :: bool

datatype 'a attempt = Retry | Done 'a

definition fb_reset :: "file_buffer \<Rightarrow> file_buffer" where
  "fb_reset fb = fb\<lparr>fb_data_size := 0, fb_data_start := 0, fb_no_more_data := False, fb_no_more_remove := False\<rparr>"

text \<open>The constructor; \<open>junk\<close> are the contents of the new array.\<close>

definition CFileBuffer :: "byte list \<Rightarrow> file_buffer" where
  "CFileBuffer junk =
     fb_reset \<lparr>fb_the_buffer = junk, fb_buffer_size = length junk, fb_data_size = 0, fb_data_start = 0,
       fb_no_more_data = False, fb_no_more_remove = False\<rparr>"

definition mPut :: "byte list \<Rightarrow> nat \<Rightarrow> file_buffer \<Rightarrow> file_buffer" where
  "mPut bs start fb =
     (let n = fb_buffer_size fb; sz = length bs; stop = start + sz; buf = fb_the_buffer fb
      in if sz > n \<or> sz = 0 then fb
         else if stop mod n > start mod n then fb\<lparr>fb_the_buffer := blit buf (start mod n) bs\<rparr>
         else fb\<lparr>fb_the_buffer := blit (blit buf (start mod n) (take (n - start mod n) bs)) 0 (drop (n - start mod n) bs)\<rparr>)"

text \<open>The bytes that \<open>mGet\<close> writes to its destination.\<close>

definition mGet :: "nat \<Rightarrow> nat \<Rightarrow> file_buffer \<Rightarrow> byte list" where
  "mGet sz start fb =
     (let n = fb_buffer_size fb; stop = start + sz; buf = fb_the_buffer fb
      in if sz > n \<or> sz = 0 then []
         else if stop mod n > start mod n then slice (start mod n) sz buf
         else slice (start mod n) (n - start mod n) buf @ slice 0 (sz + start mod n - n) buf)"

definition resort :: "file_buffer \<Rightarrow> file_buffer" where
  "resort fb = (mPut (mGet (fb_data_size fb) (fb_data_start fb) fb) 0 fb)\<lparr>fb_data_start := 0\<rparr>"

definition wait_for_data :: "nat \<Rightarrow> file_buffer \<Rightarrow> (nat \<times> file_buffer) attempt" where
  "wait_for_data sz fb =
     (let sorted = (if fb_data_start fb + sz \<ge> fb_buffer_size fb then resort fb else fb)
      in if fb_no_more_data fb then Done (min sz (fb_data_size fb), sorted)
         else if fb_data_size fb < sz then Retry
         else Done (sz, sorted))"

definition remove_data :: "nat \<Rightarrow> file_buffer \<Rightarrow> file_buffer" where
  "remove_data sz fb =
     (let sz = min sz (fb_data_size fb)
      in fb\<lparr>fb_data_size := fb_data_size fb - sz,
            fb_data_start := (fb_data_start fb + sz) mod fb_buffer_size fb\<rparr>)"

definition fb_insert :: "byte list \<Rightarrow> file_buffer \<Rightarrow> (int \<times> file_buffer) attempt" where
  "fb_insert bs fb =
     (if fb_no_more_remove fb then Done (0, fb)
      else if length bs + fb_data_size fb > fb_buffer_size fb then Retry
      else Done (0, (mPut bs (fb_data_start fb + fb_data_size fb) fb)\<lparr>fb_data_size := fb_data_size fb + length bs\<rparr>))"

text \<open>The returned value, and the bytes written to the caller's buffer.\<close>

definition fb_remove :: "nat \<Rightarrow> file_buffer \<Rightarrow> int \<times> byte list \<times> file_buffer" where
  "fb_remove sz fb =
     (if fb_data_size fb < sz then (-1, [], fb)
      else (0, mGet sz (fb_data_start fb) fb,
            fb\<lparr>fb_data_size := fb_data_size fb - sz,
               fb_data_start := (fb_data_start fb + sz) mod fb_buffer_size fb\<rparr>))"

definition block_remove :: "nat \<Rightarrow> file_buffer \<Rightarrow> (nat \<times> byte list \<times> file_buffer) attempt" where
  "block_remove sz fb =
     (case fb_remove sz fb of
        (r, bs, fb') \<Rightarrow>
          if r = 0 then Done (sz, bs, fb')
          else if \<not> fb_no_more_data fb' then Retry
          else Done (fb_data_size fb', take (fb_data_size fb') (fb_the_buffer fb'), fb'\<lparr>fb_data_size := 0\<rparr>))"

section \<open>The contents\<close>

definition contents :: "file_buffer \<Rightarrow> byte list" where
  "contents fb =
     map (\<lambda>i. fb_the_buffer fb ! ((fb_data_start fb + i) mod fb_buffer_size fb)) [0 ..< fb_data_size fb]"

definition fb_inv :: "file_buffer \<Rightarrow> bool" where
  "fb_inv fb \<longleftrightarrow>
     length (fb_the_buffer fb) = fb_buffer_size fb \<and> 0 < fb_buffer_size fb \<and>
     fb_data_size fb \<le> fb_buffer_size fb \<and> fb_data_start fb < fb_buffer_size fb"

lemma length_contents [simp]: "length (contents fb) = fb_data_size fb"
  by (simp add: contents_def)

lemma contents_nth:
  "i < fb_data_size fb \<Longrightarrow>
   contents fb ! i = fb_the_buffer fb ! ((fb_data_start fb + i) mod fb_buffer_size fb)"
  by (simp add: contents_def)

text \<open>A position behind the start, in a ring of \<open>n\<close>.\<close>

lemma mod_once: "x < 2 * n \<Longrightarrow> x mod n = (if x < n then x else x - n)" for x n :: nat
  by (auto simp: le_mod_geq)

lemma ring_pos: "k < n \<Longrightarrow> (a + k) mod n = (if a mod n + k < n then a mod n + k else a mod n + k - n)"
  for a k n :: nat
proof -
  assume k: "k < n"
  then have "a mod n < n" by simp
  then have "a mod n + k < 2 * n" using k by linarith
  from mod_once [OF this] show ?thesis by (simp add: mod_add_left_eq)
qed

lemma ring_end:
  fixes a m n :: nat
  assumes "0 < m" "m \<le> n"
  shows "(a + m) mod n > a mod n \<longleftrightarrow> a mod n + m < n"
proof -
  have l: "a mod n < n" using assms by simp
  then have "a mod n + m < 2 * n" using assms by linarith
  then have "(a + m) mod n = (if a mod n + m < n then a mod n + m else a mod n + m - n)"
    using mod_once by (metis mod_add_left_eq)
  then show ?thesis using assms l by (simp only:) (auto simp del: mod_less_divisor)
qed

text \<open>The two copies of a write that wraps.\<close>

lemma wrap_blit_length:
  assumes "length buf = n" "s < n" "length bs \<le> n" "n \<le> s + length bs"
  shows "length (blit (blit buf s (take (n - s) bs)) 0 (drop (n - s) bs)) = n"
proof -
  have 1: "length (blit buf s (take (n - s) bs)) = n" using assms by (subst length_blit) auto
  show ?thesis using assms 1 by (subst length_blit) auto
qed

lemma wrap_blit_nth:
  assumes "length buf = n" "s < n" "length bs \<le> n" "n \<le> s + length bs" "k < n"
  shows "blit (blit buf s (take (n - s) bs)) 0 (drop (n - s) bs) ! (if s + k < n then s + k else s + k - n) =
    (if k < length bs then bs ! k else buf ! (if s + k < n then s + k else s + k - n))"
proof -
  have 1: "length (blit buf s (take (n - s) bs)) = n" using assms by (subst length_blit) auto
  have 2: "blit buf s (take (n - s) bs) ! j = (if s \<le> j then bs ! (j - s) else buf ! j)" if "j < n" for j
    using that assms by (subst blit_nth) auto
  have 3: "blit (blit buf s (take (n - s) bs)) 0 (drop (n - s) bs) ! j =
      (if j < length bs - (n - s) then bs ! (n - s + j) else if s \<le> j then bs ! (j - s) else buf ! j)" if "j < n" for j
    using that assms 1 2 by (subst blit_nth) auto
  show ?thesis
  proof (cases "s + k < n")
    case True
    then show ?thesis using 3 [of "s + k"] assms by auto
  next
    case False
    moreover have "n - s + (s + k - n) = k" using False assms(2) by simp
    ultimately show ?thesis using 3 [of "s + k - n"] assms by auto
  qed
qed

lemma wrap_slice_nth:
  assumes "length buf = n" "s < n" "n \<le> s + m" "m \<le> n" "k < m"
  shows "(slice s (n - s) buf @ slice 0 (m + s - n) buf) ! k = buf ! (if s + k < n then s + k else s + k - n)"
proof (cases "s + k < n")
  case True
  moreover from this have "k < n - s" by simp
  ultimately show ?thesis using assms by (simp add: nth_append slice_nth)
next
  case False
  moreover from this have "\<not> k < n - s" by linarith
  moreover have "k - (n - s) = s + k - n" using False assms(2) by simp
  ultimately show ?thesis using assms by (simp add: nth_append slice_def)
qed

lemma mGet_map:
  assumes "length (fb_the_buffer fb) = fb_buffer_size fb" "sz \<le> fb_buffer_size fb"
  shows "mGet sz start fb = map (\<lambda>i. fb_the_buffer fb ! ((start + i) mod fb_buffer_size fb)) [0 ..< sz]"
proof (cases "sz = 0")
  case True
  then show ?thesis by (simp add: mGet_def)
next
  case False
  let ?n = "fb_buffer_size fb" and ?s = "start mod fb_buffer_size fb"
  have s: "?s < ?n" using False assms(2) by simp
  show ?thesis
  proof (rule nth_equalityI)
    show "length (mGet sz start fb) =
        length (map (\<lambda>i. fb_the_buffer fb ! ((start + i) mod fb_buffer_size fb)) [0 ..< sz])"
    proof -
      have "sz + ?s - ?n \<le> ?n" using s assms(2) by linarith
      then have "?n - ?s + (sz + ?s - ?n) = sz" if "\<not> ?s + sz < ?n" using that s by linarith
      then show ?thesis using assms s False \<open>sz + ?s - ?n \<le> ?n\<close>
        by (cases "?s + sz < ?n") (simp_all add: mGet_def Let_def ring_end min_def)
    qed
    fix k assume "k < length (mGet sz start fb)"
    then have k: "k < sz" using assms s False by (auto simp: mGet_def Let_def ring_end split: if_splits)
    then show "mGet sz start fb ! k =
        map (\<lambda>i. fb_the_buffer fb ! ((start + i) mod fb_buffer_size fb)) [0 ..< sz] ! k"
      using assms s False wrap_slice_nth [of "fb_the_buffer fb" ?n ?s sz k]
      by (cases "?s + sz < ?n") (simp_all add: mGet_def Let_def ring_end ring_pos slice_nth)
  qed
qed

lemma mPut_buffer:
  assumes "length (fb_the_buffer fb) = fb_buffer_size fb" "length bs \<le> fb_buffer_size fb" "k < fb_buffer_size fb"
  shows "fb_the_buffer (mPut bs start fb) ! ((start + k) mod fb_buffer_size fb) =
    (if k < length bs then bs ! k else fb_the_buffer fb ! ((start + k) mod fb_buffer_size fb))"
proof (cases "bs = []")
  case True
  then show ?thesis by (simp add: mPut_def)
next
  case False
  let ?n = "fb_buffer_size fb" and ?s = "start mod fb_buffer_size fb"
  have s: "?s < ?n" using assms(3) by simp
  have e: "(start + length bs) mod ?n > ?s \<longleftrightarrow> ?s + length bs < ?n"
    using False assms(2) by (intro ring_end) auto
  show ?thesis
  proof (cases "?s + length bs < ?n")
    case True
    then show ?thesis using assms s e False
      by (auto simp: mPut_def Let_def ring_pos blit_nth)
  next
    case F: False
    then have "fb_the_buffer (mPut bs start fb) =
        blit (blit (fb_the_buffer fb) ?s (take (?n - ?s) bs)) 0 (drop (?n - ?s) bs)"
      using assms e False by (simp add: mPut_def Let_def)
    then show ?thesis
      using wrap_blit_nth [of "fb_the_buffer fb" ?n ?s bs k] assms s F by (simp add: ring_pos)
  qed
qed

lemma length_mPut [simp]:
  "length (fb_the_buffer fb) = fb_buffer_size fb \<Longrightarrow> length (fb_the_buffer (mPut bs start fb)) = fb_buffer_size fb"
  by (cases "fb_buffer_size fb = 0") (auto simp: mPut_def Let_def ring_end wrap_blit_length)

lemma mPut_fields [simp]:
  "fb_buffer_size (mPut bs start fb) = fb_buffer_size fb" "fb_data_size (mPut bs start fb) = fb_data_size fb"
  "fb_data_start (mPut bs start fb) = fb_data_start fb" "fb_no_more_data (mPut bs start fb) = fb_no_more_data fb"
  "fb_no_more_remove (mPut bs start fb) = fb_no_more_remove fb"
  by (simp_all add: mPut_def Let_def)

section \<open>The operations on the contents\<close>

lemma fb_invD:
  assumes "fb_inv fb"
  shows "length (fb_the_buffer fb) = fb_buffer_size fb" "0 < fb_buffer_size fb"
    "fb_data_size fb \<le> fb_buffer_size fb" "fb_data_start fb < fb_buffer_size fb"
  using assms by (simp_all add: fb_inv_def)

lemma CFileBuffer_inv: "junk \<noteq> [] \<Longrightarrow> fb_inv (CFileBuffer junk) \<and> contents (CFileBuffer junk) = []"
  by (simp add: fb_inv_def CFileBuffer_def fb_reset_def contents_def)

lemma mGet_contents:
  assumes "fb_inv fb" "n \<le> fb_data_size fb"
  shows "mGet n (fb_data_start fb) fb = take n (contents fb)"
  using mGet_map [OF fb_invD(1) [OF assms(1)], of n] fb_invD(3) [OF assms(1)] assms(2)
  by (simp add: contents_def take_map take_upt)

lemma insert_contents:
  assumes "fb_inv fb" "fb_insert bs fb = Done (r, fb')" "\<not> fb_no_more_remove fb"
  shows "r = 0 \<and> fb_inv fb' \<and> contents fb' = contents fb @ bs \<and> \<not> fb_no_more_remove fb'"
proof -
  note inv = fb_invD [OF assms(1)]
  let ?n = "fb_buffer_size fb" and ?d = "fb_data_size fb" and ?s = "fb_data_start fb"
  have room: "length bs + ?d \<le> ?n" and fb': "r = 0"
    "fb' = (mPut bs (?s + ?d) fb)\<lparr>fb_data_size := ?d + length bs\<rparr>"
    using assms(2,3) by (auto simp: fb_insert_def split: if_splits)
  have "contents fb' ! k = (contents fb @ bs) ! k" if k: "k < ?d + length bs" for k
  proof (cases "k < ?d")
    case True
    have e: "(?s + ?d + (?n - ?d + k)) mod ?n = (?s + k) mod ?n"
      using inv(3) by (metis Nat.add_diff_assoc add.assoc add.commute diff_add_inverse mod_add_self1)
    have "?n - ?d + k < ?n" using True inv(3) by linarith
    moreover have "\<not> ?n - ?d + k < length bs" using room by linarith
    ultimately have "fb_the_buffer (mPut bs (?s + ?d) fb) ! ((?s + k) mod ?n) = fb_the_buffer fb ! ((?s + k) mod ?n)"
      using mPut_buffer [OF inv(1), of bs "?n - ?d + k" "?s + ?d"] room unfolding e by simp
    then show ?thesis using True k by (simp add: contents_nth fb' nth_append)
  next
    case False
    have "k - ?d < length bs" "k - ?d < ?n" using False k room by linarith+
    then have "fb_the_buffer (mPut bs (?s + ?d) fb) ! ((?s + k) mod ?n) = bs ! (k - ?d)"
      using False mPut_buffer [OF inv(1), of bs "k - ?d" "?s + ?d"] room k by simp
    then show ?thesis using False k by (simp add: contents_nth fb' nth_append)
  qed
  then have "contents fb' = contents fb @ bs" by (intro nth_equalityI) (simp_all add: fb')
  then show ?thesis using inv room assms(3) fb' by (simp add: fb_inv_def)
qed

lemma remove_data_contents:
  assumes "fb_inv fb"
  shows "fb_inv (remove_data n fb) \<and> contents (remove_data n fb) = drop n (contents fb) \<and>
    fb_no_more_remove (remove_data n fb) = fb_no_more_remove fb"
  using fb_invD [OF assms]
  by (auto simp: fb_inv_def remove_data_def Let_def contents_def drop_map min_def mod_simps add.assoc
      intro!: nth_equalityI)

lemma fb_remove_ok:
  assumes "n \<le> fb_data_size fb"
  shows "fb_remove n fb = (0, mGet n (fb_data_start fb) fb, remove_data n fb)"
  using assms by (simp add: fb_remove_def remove_data_def min_def)

lemma resort_contents:
  assumes "fb_inv fb"
  shows "fb_inv (resort fb) \<and> contents (resort fb) = contents fb \<and> fb_data_start (resort fb) = 0 \<and>
    fb_data_size (resort fb) = fb_data_size fb \<and> fb_no_more_remove (resort fb) = fb_no_more_remove fb"
proof -
  note inv = fb_invD [OF assms]
  have tmp: "mGet (fb_data_size fb) (fb_data_start fb) fb = contents fb"
    using mGet_contents [OF assms, of "fb_data_size fb"] by simp
  have "fb_the_buffer (mPut (contents fb) 0 fb) ! (k mod fb_buffer_size fb) = contents fb ! k"
    if "k < fb_data_size fb" for k
    using mPut_buffer [OF inv(1), of "contents fb" k 0] that inv(3) by simp
  then have "contents (resort fb) = contents fb"
    by (intro nth_equalityI) (simp_all add: contents_def [of "_ \<lparr>fb_data_start := 0\<rparr>"] resort_def tmp)
  then show ?thesis using inv by (simp add: fb_inv_def resort_def)
qed

lemma wait_data:
  assumes "fb_inv fb" "wait_for_data n fb = Done (k, fb')"
  shows "fb_inv fb' \<and> contents fb' = contents fb \<and> fb_data_start fb' + k \<le> fb_buffer_size fb' \<and>
    k = min n (fb_data_size fb) \<and> slice (fb_data_start fb') k (fb_the_buffer fb') = take k (contents fb)"
proof -
  let ?fb = "if fb_data_start fb + n \<ge> fb_buffer_size fb then resort fb else fb"
  have k: "fb' = ?fb" "k = min n (fb_data_size fb)"
    using assms(2) by (auto simp: wait_for_data_def Let_def split: if_splits)
  have c: "fb_inv fb' \<and> contents fb' = contents fb" "fb_data_start fb' + k \<le> fb_buffer_size fb'"
    using k resort_contents [OF assms(1)] assms(1) fb_invD(3) [of fb'] by (auto simp: fb_inv_def split: if_splits)
  note inv = fb_invD [OF conjunct1 [OF c(1)]]
  have "fb_data_size fb' = fb_data_size fb" using arg_cong [OF conjunct2 [OF c(1)], of length] by simp
  then have "k \<le> fb_data_size fb'" using k(2) by simp
  then have "slice (fb_data_start fb') k (fb_the_buffer fb') = take k (contents fb')"
    using c(2) inv by (intro nth_equalityI) (auto simp: slice_nth contents_nth)
  then show ?thesis using c k(2) by simp
qed

text \<open>
  when \<open>wait_for_data\<close> returns, the bytes it promises stand in one piece from \<open>m_data_start\<close> on,
  however the data lay in the ring, they are the next bytes of the stream, and nothing else changed.
\<close>

theorem wait_for_data_linear:
  assumes "fb_inv fb" "wait_for_data n fb = Done (k, fb')"
  shows "fb_inv fb' \<and> contents fb' = contents fb \<and> fb_data_start fb' + k \<le> fb_buffer_size fb' \<and>
    slice (fb_data_start fb') k (fb_the_buffer fb') = take n (contents fb)"
proof -
  have "take (min n (fb_data_size fb)) (contents fb) = take n (contents fb)" by (simp add: min_def)
  then show ?thesis using wait_data [OF assms] by metis
qed

theorem wait_for_data_linear_witness:
  "\<exists>fb'. wait_for_data 3 \<lparr>fb_the_buffer = [3, 9, 1, 2], fb_buffer_size = 4, fb_data_size = 3, fb_data_start = 2,
       fb_no_more_data = False, fb_no_more_remove = False\<rparr> = Done (3, fb') \<and>
     slice (fb_data_start fb') 3 (fb_the_buffer fb') = [1, 2, 3]"
proof -
  let ?fb = "\<lparr>fb_the_buffer = [3, 9, 1, 2], fb_buffer_size = 4, fb_data_size = 3, fb_data_start = 2,
       fb_no_more_data = False, fb_no_more_remove = False\<rparr>"
  have inv: "fb_inv ?fb" by (simp add: fb_inv_def)
  have w: "wait_for_data 3 ?fb = Done (3, resort ?fb)" by (simp add: wait_for_data_def)
  have c: "take 3 (contents ?fb) = [1, 2, 3]" by code_simp
  show ?thesis using wait_for_data_linear [OF inv w] w unfolding c by blast
qed

section \<open>A producer and a consumer\<close>

text \<open>
  The threads that share a queue take turns in any order; an attempt that has to wait changes nothing.
  A state is the queue with all the bytes put in so far and all the bytes taken out so far.
\<close>

inductive fifo_run ::
  "(byte list \<Rightarrow> 's \<Rightarrow> 's option) \<Rightarrow> (nat \<Rightarrow> 's \<Rightarrow> (byte list \<times> 's) option) \<Rightarrow> 's \<Rightarrow> 's \<Rightarrow> byte list \<Rightarrow> byte list \<Rightarrow> bool"
  for put get s0 where
  start: "fifo_run put get s0 s0 [] []"
| put: "fifo_run put get s0 s i out \<Longrightarrow> put bs s = Some s' \<Longrightarrow> fifo_run put get s0 s' (i @ bs) out"
| get: "fifo_run put get s0 s i out \<Longrightarrow> get n s = Some (bs, s') \<Longrightarrow> fifo_run put get s0 s' i (out @ bs)"

locale byte_fifo =
  fixes ok :: "'s \<Rightarrow> bool" and data :: "'s \<Rightarrow> byte list"
    and put :: "byte list \<Rightarrow> 's \<Rightarrow> 's option" and get :: "nat \<Rightarrow> 's \<Rightarrow> (byte list \<times> 's) option"
  assumes put_law: "ok s \<Longrightarrow> put bs s = Some s' \<Longrightarrow> ok s' \<and> data s' = data s @ bs"
    and get_law: "ok s \<Longrightarrow> get n s = Some (bs, s') \<Longrightarrow> ok s' \<and> data s = bs @ data s'"
begin

lemma run_stream:
  assumes "fifo_run put get s0 s i out" "ok s0" "data s0 = []"
  shows "ok s \<and> i = out @ data s"
  using assms
proof (induction rule: fifo_run.induct)
  case start
  then show ?case by simp
next
  case (put s i out bs s')
  then show ?case using put_law [of s bs s'] by simp
next
  case (get s i out n bs s')
  then show ?case using get_law [of s n bs s'] by simp
qed

end

definition put_op :: "byte list \<Rightarrow> file_buffer \<Rightarrow> file_buffer option" where
  "put_op bs fb = (case fb_insert bs fb of Retry \<Rightarrow> None | Done (r, fb') \<Rightarrow> Some fb')"

text \<open>The two ways to take bytes: \<open>remove\<close>, and \<open>wait_for_data\<close> with a later \<open>remove_data\<close>.\<close>

definition get_op :: "nat \<Rightarrow> file_buffer \<Rightarrow> (byte list \<times> file_buffer) option" where
  "get_op n fb = (case fb_remove n fb of (r, bs, fb') \<Rightarrow> if r = 0 then Some (bs, fb') else None)"

definition view_op :: "nat \<Rightarrow> file_buffer \<Rightarrow> (byte list \<times> file_buffer) option" where
  "view_op n fb =
     (case wait_for_data n fb of
        Retry \<Rightarrow> None
      | Done (k, fb') \<Rightarrow> Some (slice (fb_data_start fb') k (fb_the_buffer fb'), remove_data k fb'))"

definition fb_ok :: "file_buffer \<Rightarrow> bool" where
  "fb_ok fb \<longleftrightarrow> fb_inv fb \<and> \<not> fb_no_more_remove fb"

lemma fb_ok_put: "fb_ok s \<Longrightarrow> put_op bs s = Some s' \<Longrightarrow> fb_ok s' \<and> contents s' = contents s @ bs"
  using insert_contents [of s bs] by (auto simp: fb_ok_def put_op_def split: attempt.splits prod.splits)

lemma fb_ok_get:
  assumes "fb_ok s" "get_op n s = Some (bs, s')"
  shows "fb_ok s' \<and> contents s = bs @ contents s'"
proof -
  have n: "n \<le> fb_data_size s" using assms(2) by (auto simp: get_op_def fb_remove_def split: if_splits)
  then have "bs = take n (contents s)" "s' = remove_data n s"
    using assms mGet_contents [of s n] by (auto simp: get_op_def fb_remove_ok [OF n] fb_ok_def)
  then show ?thesis
    using assms(1) remove_data_contents [of s n] by (simp add: fb_ok_def)
qed

lemma wait_no_more_remove:
  "fb_inv fb \<Longrightarrow> wait_for_data n fb = Done (k, fb') \<Longrightarrow> fb_no_more_remove fb' = fb_no_more_remove fb"
  using resort_contents [of fb] by (auto simp: wait_for_data_def Let_def split: if_splits)

lemma fb_ok_view:
  assumes "fb_ok s" "view_op n s = Some (bs, s')"
  shows "fb_ok s' \<and> contents s = bs @ contents s'"
proof -
  obtain k fb' where w: "wait_for_data n s = Done (k, fb')" "bs = slice (fb_data_start fb') k (fb_the_buffer fb')"
    "s' = remove_data k fb'"
    using assms(2) by (auto simp: view_op_def split: attempt.splits prod.splits)
  have s: "fb_inv s" "\<not> fb_no_more_remove s" using assms(1) by (simp_all add: fb_ok_def)
  have "bs = take k (contents s)" "contents fb' = contents s" "fb_inv fb'"
    using wait_data [OF s(1) w(1)] w(2) by auto
  then show ?thesis
    using remove_data_contents [of fb' k] wait_no_more_remove [OF s(1) w(1)] s(2) w(3) by (simp add: fb_ok_def)
qed

interpretation copying: byte_fifo fb_ok contents put_op get_op
  by unfold_locales (blast dest: fb_ok_put fb_ok_get)+

interpretation viewing: byte_fifo fb_ok contents put_op view_op
  by unfold_locales (blast dest: fb_ok_put fb_ok_view)+



text \<open>
  At the end of the data \<open>block_remove\<close> copies from the start of the array and not from the start of the
  data: after four bytes went in and two came out, it delivers the first two again.
\<close>

theorem block_remove_wrong_end:
  "(let fb = snd (the (get_op 2 (the (put_op [1, 2, 3, 4] (CFileBuffer [0, 0, 0, 0, 0, 0])))))
    in contents fb = [3, 4] \<and>
       (case block_remove 5 (fb\<lparr>fb_no_more_data := True\<rparr>) of Retry \<Rightarrow> False | Done (r, bs, _) \<Rightarrow> r = 2 \<and> bs = [1, 2]))"
  by code_simp

end
