(* ===== verification/WStrings.thy ===== *)
theory WStrings
  imports Prelude
begin

text \<open>
  The C run-time string functions that the parsers call, on strings without their terminator:
  \<open>wcsstr\<close>, \<open>wcschr\<close>, the \<open>%d\<close> of \<open>swscanf\<close> and \<open>_wtoi\<close>, the \<open>%0nd\<close> of \<open>swprintf\<close>.  Characters are
  words of any width, so that the functions serve \<open>char\<close> and \<open>wchar_t\<close> strings.
\<close>

section \<open>Searching\<close>

fun is_prefix_of :: "'a list \<Rightarrow> 'a list \<Rightarrow> bool" where
  "is_prefix_of [] s = True"
| "is_prefix_of (p # ps) [] = False"
| "is_prefix_of (p # ps) (c # cs) = (p = c \<and> is_prefix_of ps cs)"

text \<open>The index that \<open>wcsstr(s, p)\<close> points to.\<close>

fun find_sub :: "'a list \<Rightarrow> 'a list \<Rightarrow> nat option" where
  "find_sub [] p = (if p = [] then Some 0 else None)"
| "find_sub (c # cs) p =
     (if is_prefix_of p (c # cs) then Some 0 else map_option Suc (find_sub cs p))"

lemma is_prefix_of_iff: "is_prefix_of p s \<longleftrightarrow> (\<exists>r. s = p @ r)"
  by (induction p s rule: is_prefix_of.induct) auto

lemma is_prefix_of_append [simp]: "is_prefix_of p (p @ r)"
  by (simp add: is_prefix_of_iff)

lemma find_sub_Some:
  "find_sub s p = Some i \<Longrightarrow> i + length p \<le> length s \<and> take (length p) (drop i s) = p"
proof (induction s arbitrary: i)
  case (Cons c cs)
  show ?case
  proof (cases "is_prefix_of p (c # cs)")
    case True
    then obtain r where "c # cs = p @ r" by (auto simp: is_prefix_of_iff)
    moreover have "i = 0" using True Cons.prems by simp
    ultimately show ?thesis by (metis append_eq_conv_conj drop_0 le_add1 length_append add_0)
  next
    case False
    then show ?thesis using Cons by auto
  qed
qed (auto split: if_splits)

lemma find_sub_char:
  "find_sub s [c] = Some i \<longleftrightarrow> i < length s \<and> s ! i = c \<and> c \<notin> set (take i s)"
proof (induction s arbitrary: i)
  case (Cons x s)
  then show ?case by (cases i) auto
qed simp

lemma find_sub_char_None: "find_sub s [c] = None \<longleftrightarrow> c \<notin> set s"
  by (induction s) auto

lemma find_sub_char_append: "c \<notin> set a \<Longrightarrow> find_sub (a @ c # b) [c] = Some (length a)"
  by (induction a) auto

section \<open>Trimming\<close>

text \<open>\<open>wstrtrim\<close> of \<open>srt_parser.cpp\<close>: the leading and the trailing runs of a character go.\<close>

definition wtrim :: "'a \<Rightarrow> 'a list \<Rightarrow> 'a list" where
  "wtrim c s = rev (dropWhile ((=) c) (rev (dropWhile ((=) c) s)))"

text \<open>\<open>wcstrim\<close>: a string of nothing but the character has no first other character and stays.\<close>

fun lead_of :: "'a \<Rightarrow> 'a list \<Rightarrow> nat option" where
  "lead_of c [] = None"
| "lead_of c (x # xs) = (if x \<noteq> c then Some 0 else map_option Suc (lead_of c xs))"

definition wcstrim :: "'a \<Rightarrow> 'a list \<Rightarrow> 'a list" where
  "wcstrim c s =
     (let lead = (case lead_of c s of None \<Rightarrow> 0 | Some i \<Rightarrow> i);
          end' = (case lead_of c (rev s) of None \<Rightarrow> 0 | Some i \<Rightarrow> i)
      in take (length s - lead - end') (drop lead s))"

text \<open>Trimming a run of the character at both ends.\<close>

lemma lead_of_replicate: "m \<noteq> [] \<Longrightarrow> hd m \<noteq> c \<Longrightarrow> lead_of c (replicate a c @ m) = Some a"
  by (induction a) (auto simp: neq_Nil_conv)

lemma wcstrim_ends:
  assumes "m \<noteq> []" "hd m \<noteq> c" "last m \<noteq> c"
  shows "wcstrim c (replicate a c @ m @ replicate b c) = m"
proof -
  have "lead_of c (replicate a c @ m @ replicate b c) = Some a"
    using lead_of_replicate [of "m @ replicate b c" c a] assms by simp
  moreover have "lead_of c (rev (replicate a c @ m @ replicate b c)) = Some b"
    using lead_of_replicate [of "rev m @ replicate a c" c b] assms by (simp add: hd_rev)
  ultimately show ?thesis
    by (simp add: wcstrim_def)
qed

section \<open>Decimal numbers\<close>

definition is_digit :: "'a::len word \<Rightarrow> bool" where
  "is_digit c \<longleftrightarrow> 48 \<le> unat c \<and> unat c \<le> 57"

definition digit_char :: "nat \<Rightarrow> 'a::len word" where
  "digit_char d = of_nat (48 + d)"

fun dec_digits :: "nat \<Rightarrow> 'a::len word list" where
  "dec_digits n = (if n < 10 then [digit_char n] else dec_digits (n div 10) @ [digit_char (n mod 10)])"

declare dec_digits.simps [simp del]

fun digits_value :: "nat \<Rightarrow> 'a::len word list \<Rightarrow> nat" where
  "digits_value acc [] = acc"
| "digits_value acc (c # cs) = digits_value (acc * 10 + (unat c - 48)) cs"

text \<open>\<open>%0wd\<close>: padded with zeros to the width, the sign included.\<close>

definition pad_digits :: "nat \<Rightarrow> nat \<Rightarrow> 'a::len word list" where
  "pad_digits w n = replicate (w - length (dec_digits n :: 'a word list)) (digit_char 0) @ dec_digits n"

definition fmt_int :: "nat \<Rightarrow> int \<Rightarrow> 'a::len word list" where
  "fmt_int w n = (if n < 0 then 45 # pad_digits (w - 1) (nat (- n)) else pad_digits w (nat n))"

text \<open>
  \<open>%d\<close> of \<open>swscanf\<close>: white space, a sign, at least one digit; the value wraps to an \<open>int\<close>.
  The result is the value and the rest of the input.
\<close>

definition is_space :: "'a::len word \<Rightarrow> bool" where
  "is_space c \<longleftrightarrow> c = 32 \<or> (9 \<le> unat c \<and> unat c \<le> 13)"

definition scan_nat :: "'a::len word list \<Rightarrow> (nat \<times> 'a word list) option" where
  "scan_nat s =
     (let ds = takeWhile is_digit s
      in if ds = [] then None else Some (digits_value 0 ds, dropWhile is_digit s))"

definition scan_int :: "'a::len word list \<Rightarrow> (int \<times> 'a word list) option" where
  "scan_int s =
     (case dropWhile is_space s of
        [] \<Rightarrow> None
      | c # cs \<Rightarrow>
          if c = 45 then map_option (\<lambda>(n, r). (wrap32 (- int n), r)) (scan_nat cs)
          else if c = 43 then map_option (\<lambda>(n, r). (wrap32 (int n), r)) (scan_nat cs)
          else map_option (\<lambda>(n, r). (wrap32 (int n), r)) (scan_nat (c # cs)))"

definition wtoi :: "'a::len word list \<Rightarrow> int" where
  "wtoi s = (case scan_int s of None \<Rightarrow> 0 | Some (n, r) \<Rightarrow> n)"

text \<open>A literal character of a format.\<close>

fun scan_char :: "'a \<Rightarrow> 'a list \<Rightarrow> 'a list option" where
  "scan_char c [] = None"
| "scan_char c (x # xs) = (if x = c then Some xs else None)"

lemma scan_char_Some [simp]: "scan_char c (c # r) = Some r"
  by simp

lemma unat_digit_char: "6 \<le> LENGTH('a) \<Longrightarrow> d < 10 \<Longrightarrow> unat (digit_char d :: 'a::len word) = 48 + d"
proof -
  assume l: "6 \<le> LENGTH('a)" and d: "d < 10"
  have "(2 :: nat) ^ 6 \<le> 2 ^ LENGTH('a)" using l by (intro power_increasing) simp_all
  then show ?thesis using d by (simp add: digit_char_def unat_of_nat del: of_nat_add)
qed

lemma is_digit_char: "6 \<le> LENGTH('a) \<Longrightarrow> d < 10 \<Longrightarrow> is_digit (digit_char d :: 'a::len word)"
  by (simp add: is_digit_def unat_digit_char)

lemma digits_value_append: "digits_value a (xs @ ys) = digits_value (digits_value a xs) ys"
  by (induction xs arbitrary: a) simp_all

lemma dec_digits_ne [simp]: "dec_digits n \<noteq> []"
  by (subst dec_digits.simps) simp

lemma dec_digits_all:
  "6 \<le> LENGTH('a) \<Longrightarrow> list_all is_digit (dec_digits n :: 'a::len word list)"
proof (induction n rule: dec_digits.induct)
  case (1 n)
  then show ?case by (subst dec_digits.simps) (simp add: is_digit_char)
qed

lemma dec_digits_value:
  "6 \<le> LENGTH('a) \<Longrightarrow> digits_value 0 (dec_digits n :: 'a::len word list) = n"
proof (induction n rule: dec_digits.induct)
  case (1 n)
  show ?case
  proof (cases "n < 10")
    case True
    then show ?thesis using 1 by (subst dec_digits.simps) (simp add: unat_digit_char)
  next
    case False
    then show ?thesis using 1 by (subst dec_digits.simps) (simp add: digits_value_append unat_digit_char)
  qed
qed

lemma digits_value_zeros:
  "6 \<le> LENGTH('a) \<Longrightarrow> digits_value 0 (replicate k (digit_char 0) @ ds) = digits_value 0 (ds :: 'a::len word list)"
  by (induction k) (simp_all add: unat_digit_char)

lemma pad_digits_all: "6 \<le> LENGTH('a) \<Longrightarrow> list_all is_digit (pad_digits w n :: 'a::len word list)"
  using dec_digits_all [unfolded list_all_iff] by (auto simp: pad_digits_def is_digit_char list_all_iff)

lemma pad_digits_ne [simp]: "pad_digits w n \<noteq> []"
  by (simp add: pad_digits_def)

lemma pad_digits_value: "6 \<le> LENGTH('a) \<Longrightarrow> digits_value 0 (pad_digits w n :: 'a::len word list) = n"
  by (simp add: pad_digits_def digits_value_zeros dec_digits_value)

lemma takeWhile_all: "list_all P xs \<Longrightarrow> (r = [] \<or> \<not> P (hd r)) \<Longrightarrow> takeWhile P (xs @ r) = xs"
  by (induction xs) (auto, cases r, auto)

lemma dropWhile_all: "list_all P xs \<Longrightarrow> (r = [] \<or> \<not> P (hd r)) \<Longrightarrow> dropWhile P (xs @ r) = r"
  by (induction xs) (auto, cases r, auto)

lemma digit_above: "unat x \<le> n \<Longrightarrow> n < 48 \<Longrightarrow> is_digit c \<Longrightarrow> c \<noteq> x"
  by (auto simp: is_digit_def)

lemma digit_not_space:
  assumes "is_digit (c :: 'a::len word)"
  shows "\<not> is_space c" "c \<noteq> 45" "c \<noteq> 43"
proof -
  have "c \<noteq> 32"
    by (rule digit_above [of _ 32, OF _ _ assms]) (simp_all add: unsigned_numeral take_bit_nat_less_eq_self)
  then show "\<not> is_space c" using assms by (auto simp: is_digit_def is_space_def)
  show "c \<noteq> 45"
    by (rule digit_above [of _ 45, OF _ _ assms]) (simp_all add: unsigned_numeral take_bit_nat_less_eq_self)
  show "c \<noteq> 43"
    by (rule digit_above [of _ 43, OF _ _ assms]) (simp_all add: unsigned_numeral take_bit_nat_less_eq_self)
qed

lemma scan_int_digits:
  assumes "6 \<le> LENGTH('a)" "list_all is_digit ds" "ds \<noteq> []" "r = [] \<or> \<not> is_digit (hd r)"
  shows "scan_int (ds @ r :: 'a::len word list) = Some (wrap32 (int (digits_value 0 ds)), r)"
proof -
  obtain c cs where ds: "ds = c # cs" using assms(3) by (cases ds) auto
  have c: "is_digit c" using assms(2) ds by simp
  have "dropWhile is_space (ds @ r) = ds @ r" using digit_not_space [OF c] by (simp add: ds)
  moreover have "scan_nat (ds @ r) = Some (digits_value 0 ds, r)"
    using takeWhile_all [OF assms(2,4)] dropWhile_all [OF assms(2,4)] assms(3)
    by (simp add: scan_nat_def Let_def)
  ultimately show ?thesis
    using digit_not_space [OF c] by (simp add: scan_int_def ds)
qed

lemma scan_int_pad:
  "6 \<le> LENGTH('a) \<Longrightarrow> r = [] \<or> \<not> is_digit (hd r) \<Longrightarrow>
   scan_int (pad_digits w n @ r :: 'a::len word list) = Some (wrap32 (int n), r)"
  using scan_int_digits [OF _ pad_digits_all pad_digits_ne] by (metis pad_digits_value)

lemma length_dec_digits_less:
  "n < 10 ^ k \<Longrightarrow> 0 < k \<Longrightarrow> length (dec_digits n :: 'a::len word list) \<le> k"
proof (induction n arbitrary: k rule: dec_digits.induct)
  case (1 n)
  show ?case
  proof (cases "n < 10")
    case True
    then show ?thesis using "1.prems" by (subst dec_digits.simps) simp
  next
    case False
    obtain j where k: "k = Suc j" using "1.prems" by (cases k) auto
    have j: "0 < j" using False "1.prems" k by (cases j) auto
    have "n div 10 < 10 ^ j" using "1.prems"(1) k by (simp add: less_mult_imp_div_less mult.commute)
    then show ?thesis using "1.IH" [OF False] False k j by (subst dec_digits.simps) simp
  qed
qed

lemma length_pad_digits: "n < 10 ^ w \<Longrightarrow> 0 < w \<Longrightarrow> length (pad_digits w n :: 'a::len word list) = w"
  using length_dec_digits_less [of n w, where ?'a = 'a] by (simp add: pad_digits_def)

end
