(* ===== verification/Srt.thy ===== *)
theory Srt
  imports WStrings Sha1
begin

text \<open>
  The subtitle parser \<open>srt_parser\<close> (\<open>dwindow/srt/srt_parser.cpp\<close>): SubRip and ASS lines, the table of
  subtitles with their texts in one character buffer, lookup by time, the frame offsets, and saving.
  \<^theory_text>\<open>None\<close> is an access outside a buffer, or a loop or copy that does not end.
\<close>

unbundle bit_operations_syntax

section \<open>Helpers\<close>

definition swap_big_little :: "u16 \<Rightarrow> u16" where
  "swap_big_little x = push_bit 8 (x AND 0xff) OR drop_bit 8 (x AND 0xff00)"

definition wisgidit :: "wstr \<Rightarrow> bool" where
  "wisgidit s = list_all is_digit s"

text \<open>The characters removed, as \<open>wstrtrim\<close> returns them, are not used; \<^const>\<open>wtrim\<close> is the string.\<close>

text \<open>\<open>swscanf(str, "%d:%d:%d<sep>%d")\<close> with all four fields, or not.\<close>

definition scan_time :: "u16 \<Rightarrow> wstr \<Rightarrow> (int \<times> int \<times> int \<times> int) option" where
  "scan_time sep str = do {
     (h, r) \<leftarrow> scan_int str; r \<leftarrow> scan_char 58 r;
     (m, r) \<leftarrow> scan_int r; r \<leftarrow> scan_char 58 r;
     (s, r) \<leftarrow> scan_int r; r \<leftarrow> scan_char sep r;
     (ms, r) \<leftarrow> scan_int r;
     Some (h, m, s, ms) }"

text \<open>\<open>while (c-->0) ms /= 10;\<close>\<close>

fun div10 :: "nat \<Rightarrow> int \<Rightarrow> int" where
  "div10 0 ms = ms"
| "div10 (Suc c) ms = div10 c (cdiv ms 10)"

definition time_fields :: "u16 \<Rightarrow> nat \<Rightarrow> wstr \<Rightarrow> int" where
  "time_fields sep pos str =
     (case scan_time sep str of
        None \<Rightarrow> 0
      | Some (h, m, s, ms) \<Rightarrow>
          wrap32 (h * 3600000 + m * 60000 + s * 1000 +
            div10 (length (drop pos str) - 1) (wrap32 (ms * 1000))))"

definition time_to_decimal :: "wstr \<Rightarrow> int" where
  "time_to_decimal str =
     (case find_sub str [44] of
        Some pos \<Rightarrow> time_fields 44 pos str
      | None \<Rightarrow>
          (case find_sub str [46] of
             Some pos \<Rightarrow> time_fields 46 pos str
           | None \<Rightarrow> 0))"

text \<open>Both results go to a static \<open>wchar_t out[15]\<close>.\<close>

definition decimal_to_time :: "int \<Rightarrow> wstr option" where
  "decimal_to_time decimal =
     (let out = fmt_int 2 (cdiv decimal 3600000) @ 58 # fmt_int 2 (cdiv (cmod decimal 3600000) 60000) @
            58 # fmt_int 2 (cdiv (cmod decimal 60000) 1000) @ 44 # fmt_int 3 (cmod decimal 1000)
      in if length out < 15 then Some out else None)"

definition decimal_to_time_ass :: "int \<Rightarrow> wstr option" where
  "decimal_to_time_ass decimal =
     (let out = fmt_int 1 (cdiv decimal 3600000) @ 58 # fmt_int 2 (cdiv (cmod decimal 3600000) 60000) @
            58 # fmt_int 2 (cdiv (cmod decimal 60000) 1000) @ 46 # fmt_int 2 (cdiv (cmod decimal 1000) 10)
      in if length out < 15 then Some out else None)"

section \<open>The table of subtitles\<close>

record subtitle_index =
  time_start :: int
  time_end :: int
  sub_pos :: nat
  sub_offset :: int
  sub_has_offset :: bool

text \<open>
  \<open>m_index\<close> is its first \<open>m_index_pos\<close> entries (\<^theory_text>\<open>None\<close> before \<open>init\<close>), of \<open>srt_num\<close> allocated;
  \<open>srt_text\<close> is the buffer \<open>m_text_data\<close>.
\<close>

record srt_parser =
  srt_index :: "subtitle_index list option"
  srt_num :: nat
  srt_text :: "u16 list"
  srt_text_pos :: nat
  srt_last_type :: nat
  srt_ass :: bool
  srt_ass_events_start :: bool
  srt_tmp :: wstr
  srt_tmp_start :: int
  srt_tmp_end :: int

text \<open>\<open>init\<close>: the new buffer has the contents \<open>junk\<close> but for its first character.\<close>

definition srt_init :: "nat \<Rightarrow> u16 list \<Rightarrow> srt_parser \<Rightarrow> srt_parser" where
  "srt_init num junk s =
     s\<lparr>srt_index := Some [], srt_num := num, srt_text := blit junk 0 [0], srt_tmp := [],
       srt_last_type := 0, srt_text_pos := 0\<rparr>"

definition cstr :: "u16 list \<Rightarrow> nat \<Rightarrow> wstr" where
  "cstr data pos = takeWhile (\<lambda>c. c \<noteq> 0) (drop pos data)"

definition put_cstr :: "u16 list \<Rightarrow> nat \<Rightarrow> wstr \<Rightarrow> u16 list option" where
  "put_cstr data pos s =
     (if pos + length s + 1 \<le> length data then Some (blit data pos (s @ [0])) else None)"

text \<open>\<open>while (l && r && r > l) wcscpy(l, r+1)\<close>\<close>

function remove_tags :: "wstr \<Rightarrow> wstr" where
  "remove_tags line =
     (case (find_sub line [60], find_sub line [62]) of
        (Some l, Some r) \<Rightarrow> if r > l then remove_tags (take l line @ drop (r + 1) line) else line
      | _ \<Rightarrow> line)"
  by pat_completeness auto
termination
  by (relation "measure length") (auto dest!: find_sub_char [THEN iffD1, OF sym])

declare remove_tags.simps [simp del]

definition cabs :: "int \<Rightarrow> int" where
  "cabs x = (if x < 0 then wrap32 (- x) else x)"

definition offset_tag :: "wstr \<Rightarrow> bool \<times> int" where
  "offset_tag line =
     (case find_sub line (wlit ''<offset='') of
        None \<Rightarrow> (False, 0)
      | Some i \<Rightarrow> (True, wtoi (drop (i + 8) line)))"

definition same_time :: "int \<Rightarrow> int \<Rightarrow> subtitle_index \<Rightarrow> bool" where
  "same_time t0 t1 i \<longleftrightarrow> cabs (wrap32 (time_start i - t0)) < 10 \<and> cabs (wrap32 (time_end i - t1)) < 10"

text \<open>
  \<open>direct_add_subtitle\<close>; \<open>tr\<close> is the localisation function \<open>C\<close>.  The line stands in a buffer of 1024
  characters.
\<close>

definition direct_add_subtitle ::
  "(wstr \<Rightarrow> wstr) \<Rightarrow> wstr \<Rightarrow> int \<Rightarrow> int \<Rightarrow> srt_parser \<Rightarrow> (int \<times> srt_parser) option" where
  "direct_add_subtitle tr line t0 t1 s =
     (let line = (if srt_ass s then line @ 10 # tr (wlit ''(Fonts Loading)'') else line);
          (has_offset, offset) = offset_tag line;
          text = remove_tags line
      in if length line \<ge> 1024 then None
         else case srt_index s of
           None \<Rightarrow> None
         | Some idx \<Rightarrow>
             if list_ex (same_time t0 t1) idx then Some (-1, s)
             else if length idx \<ge> srt_num s then None
             else do {
               first \<leftarrow> rd (srt_text s) 0;
               let pos = (if first \<noteq> 0 then srt_text_pos s + length (cstr (srt_text s) (srt_text_pos s)) + 1
                          else srt_text_pos s);
               data \<leftarrow> put_cstr (srt_text s) pos text;
               Some (0, s\<lparr>srt_index := Some (idx @ [\<lparr>time_start = t0, time_end = t1, sub_pos = pos,
                            sub_offset = offset, sub_has_offset = has_offset\<rparr>]),
                          srt_text := data, srt_text_pos := pos\<rparr>) })"

section \<open>Lookup\<close>

definition shows_at :: "int \<Rightarrow> int \<Rightarrow> subtitle_index \<Rightarrow> bool" where
  "shows_at t0 t1 i \<longleftrightarrow>
     (time_start i \<le> t0 \<and> t0 \<le> time_end i) \<or> (time_start i \<le> t1 \<and> t1 \<le> time_end i)"

definition overlaps :: "int \<Rightarrow> int \<Rightarrow> subtitle_index \<Rightarrow> bool" where
  "overlaps t0 t1 i \<longleftrightarrow>
     (t0 \<le> time_start i \<and> time_start i \<le> t1) \<or> (t0 \<le> time_end i \<and> time_end i \<le> t1) \<or> shows_at t0 t1 i"

fun first_index :: "('a \<Rightarrow> bool) \<Rightarrow> nat \<Rightarrow> 'a list \<Rightarrow> (nat \<times> 'a) option" where
  "first_index P k [] = None"
| "first_index P k (x # xs) = (if P x then Some (k, x) else first_index P (Suc k) xs)"

text \<open>
  \<open>get_subtitle\<close>: the returned value, the text (\<^theory_text>\<open>None\<close> when \<open>out\<close> is not touched) and the offset
  fields when they are written.
\<close>

definition get_subtitle :: "int \<Rightarrow> int \<Rightarrow> bool \<Rightarrow> srt_parser \<Rightarrow> int \<times> wstr option \<times> (bool \<times> int) option" where
  "get_subtitle t0 t1 multi s =
     (case srt_index s of
        None \<Rightarrow> (-1, None, None)
      | Some idx \<Rightarrow>
          if t0 > t1 then (0, None, None)
          else if multi
          then (0, Some (fold (\<lambda>i out. if overlaps t0 t1 i
                   then (if out = [] then cstr (srt_text s) (sub_pos i)
                         else out @ 10 # cstr (srt_text s) (sub_pos i))
                   else out) (rev idx) []), None)
          else case first_index (shows_at t0 t1) 0 idx of
                 None \<Rightarrow> (0, Some [], None)
               | Some (k, i) \<Rightarrow> (int k, Some (cstr (srt_text s) (sub_pos i)), Some (sub_has_offset i, sub_offset i)))"

section \<open>Lines\<close>

text \<open>\<open>wcs_replace\<close> (\<open>srt_renderer_core.cpp\<close>): the first occurrence is replaced until there is none;
  \<open>wsprintfW\<close> writes at most 1023 characters.\<close>

partial_function (option) wcs_replace :: "wstr \<Rightarrow> wstr \<Rightarrow> wstr \<Rightarrow> (bool \<times> wstr) option" where
  "wcs_replace s searchfor replacer =
     (if length s > 2047 then Some (False, s)
      else case find_sub s searchfor of
        None \<Rightarrow> Some (True, s)
      | Some i \<Rightarrow>
          wcs_replace (take 1023 (take i s @ replacer @ drop (i + length searchfor) s)) searchfor replacer)"

text \<open>\<open>wcscmp(line, L"[Events]")\<close> is non-zero when the strings differ.\<close>

datatype 'a flow = Return 'a | Continue wstr 'a

definition cut_field :: "wstr \<Rightarrow> (wstr \<times> wstr) option" where
  "cut_field line = map_option (\<lambda>i. (take i line, drop (i + 1) line)) (find_sub line [44])"

text \<open>The leading 0 of a one-digit hour and the 0 that makes milliseconds of hundredths.\<close>

definition ass_time :: "wstr \<Rightarrow> wstr" where
  "ass_time str =
     (let str = wtrim 32 str
      in (if length str \<ge> 2 \<and> str ! 1 = 58 then 48 # str else str) @ [48])"

fun drop_fields :: "nat \<Rightarrow> wstr \<Rightarrow> wstr" where
  "drop_fields 0 line = line"
| "drop_fields (Suc n) line =
     (case find_sub line [44] of None \<Rightarrow> line | Some i \<Rightarrow> drop_fields n (drop (i + 1) line))"

text \<open>
  The loop that removes \<open>{...}\<close>.  It does not compare \<open>l\<close> with \<open>r\<close>: a closing brace before the first
  opening one makes \<open>wcscpy\<close> copy a string onto its own tail, which does not end.
\<close>

function remove_braces :: "wstr \<Rightarrow> wstr option" where
  "remove_braces line =
     (case (find_sub line [123], find_sub line [125]) of
        (Some l, Some r) \<Rightarrow> if r > l then remove_braces (take l line @ drop (r + 1) line) else None
      | _ \<Rightarrow> Some line)"
  by pat_completeness auto
termination
  by (relation "measure length") (auto dest!: find_sub_char [THEN iffD1, OF sym])

declare remove_braces.simps [simp del]

definition handle_dialog :: "(wstr \<Rightarrow> wstr) \<Rightarrow> wstr \<Rightarrow> srt_parser \<Rightarrow> srt_parser flow option" where
  "handle_dialog tr line s =
     (case cut_field line of
        None \<Rightarrow> Some (Return s)
      | Some (_, r1) \<Rightarrow>
          (case cut_field r1 of
             None \<Rightarrow> Some (Return s)
           | Some (str_start, r2) \<Rightarrow>
               (case cut_field r2 of
                  None \<Rightarrow> Some (Return s)
                | Some (str_end, _) \<Rightarrow> do {
                    let t0 = time_to_decimal (ass_time str_start);
                    let t1 = time_to_decimal (ass_time str_end);
                    line \<leftarrow> remove_braces (drop_fields 9 line);
                    (_, line) \<leftarrow> wcs_replace line (wlit [CHR 0x5C, CHR ''N'']) [10];
                    (_, line) \<leftarrow> wcs_replace line (wlit [CHR 0x5C, CHR ''n'']) [10];
                    (_, s) \<leftarrow> direct_add_subtitle tr line t0 t1 s;
                    Some (Continue (remove_tags (if srt_ass s then line @ 10 # tr (wlit ''(Fonts Loading)'') else line)) s) })))"

definition handle_ass :: "(wstr \<Rightarrow> wstr) \<Rightarrow> wstr \<Rightarrow> srt_parser \<Rightarrow> srt_parser flow option" where
  "handle_ass tr line s =
     (if srt_ass s
      then if \<not> srt_ass_events_start s
           then if line \<noteq> wlit ''[Events]'' then Some (Continue line (s\<lparr>srt_ass_events_start := True\<rparr>))
                else Some (Return s)
           else handle_dialog tr line s
      else Some (Continue line s))"

text \<open>\<open>wcscpy\<close> and \<open>wcscat\<close> into \<open>tmp[1024]\<close>.\<close>

definition set_tmp :: "wstr \<Rightarrow> srt_parser \<Rightarrow> srt_parser option" where
  "set_tmp t s = (if length t < 1024 then Some (s\<lparr>srt_tmp := t\<rparr>) else None)"

definition flush_tmp :: "(wstr \<Rightarrow> wstr) \<Rightarrow> srt_parser \<Rightarrow> srt_parser option" where
  "flush_tmp tr s =
     (if srt_tmp s \<noteq> []
      then map_option snd (direct_add_subtitle tr (srt_tmp s) (srt_tmp_start s) (srt_tmp_end s) s)
      else Some s)"

definition handle_text :: "wstr \<Rightarrow> srt_parser \<Rightarrow> srt_parser option" where
  "handle_text line s =
     (if srt_last_type s \<ge> 2
      then set_tmp (if srt_tmp s = [] then line else srt_tmp s @ 10 # line) (s\<lparr>srt_last_type := 3\<rparr>)
      else Some s)"

definition handle_srt :: "(wstr \<Rightarrow> wstr) \<Rightarrow> wstr \<Rightarrow> srt_parser \<Rightarrow> srt_parser option" where
  "handle_srt tr line s =
     (if wisgidit line \<and> srt_last_type s = 0 then Some (s\<lparr>srt_last_type := 1\<rparr>)
      else case find_sub line (wlit ''-->'') of
        None \<Rightarrow> handle_text line s
      | Some e \<Rightarrow>
          (let left = wtrim 32 (take e line);
               ms_start = time_to_decimal left;
               ms_end = time_to_decimal (wtrim 32 (drop (e + 3) line))
           in if ms_start \<ge> 0 \<and> ms_end > 0 \<and> srt_last_type s = 1
              then do {
                s \<leftarrow> flush_tmp tr (s\<lparr>srt_last_type := 2\<rparr>);
                Some (s\<lparr>srt_tmp_start := ms_start, srt_tmp_end := ms_end, srt_tmp := []\<rparr>) }
              else handle_text left s))"

definition handle_line :: "(wstr \<Rightarrow> wstr) \<Rightarrow> wstr \<Rightarrow> srt_parser \<Rightarrow> srt_parser option" where
  "handle_line tr line s = do {
     f \<leftarrow> handle_ass tr line s;
     case f of Return s \<Rightarrow> Some s | Continue line s \<Rightarrow> handle_srt tr line s }"

section \<open>Files\<close>

text \<open>
  One character of the loops of \<open>handle_data_16\<close> and \<open>handle_data_8\<close>: \<open>conv\<close> makes the wide string of
  the collected line.  The terminator of a line of 1024 characters is written behind \<open>line[1024]\<close>.
\<close>

definition line_char ::
  "(wstr \<Rightarrow> wstr) \<Rightarrow> ('c list \<Rightarrow> wstr) \<Rightarrow> 'c \<Rightarrow> 'c \<Rightarrow> 'c list \<times> srt_parser \<Rightarrow> ('c list \<times> srt_parser) option" where
  "line_char tr conv newline c st =
     (case st of (line, s) \<Rightarrow>
        if c \<noteq> newline then Some (if length line < 1024 then line @ [c] else line, s)
        else if length line \<ge> 1024 then None
        else (let w = wtrim 13 (wtrim 32 (takeWhile (\<lambda>x. x \<noteq> 0) (conv line)))
              in if w \<noteq> [] then map_option (Pair []) (handle_line tr w s)
                 else Some ([], s\<lparr>srt_last_type := 0\<rparr>)))"

fun line_chars ::
  "(wstr \<Rightarrow> wstr) \<Rightarrow> ('c list \<Rightarrow> wstr) \<Rightarrow> 'c \<Rightarrow> 'c list \<Rightarrow> 'c list \<times> srt_parser \<Rightarrow> ('c list \<times> srt_parser) option" where
  "line_chars tr conv newline [] st = Some st"
| "line_chars tr conv newline (c # cs) st =
     Option.bind (line_char tr conv newline c st) (line_chars tr conv newline cs)"

text \<open>The 16-bit units of a byte buffer of \<open>size\<close> bytes, a last odd byte left out.\<close>

fun units16 :: "byte list \<Rightarrow> u16 list" where
  "units16 (a # b # r) = (ucast a OR push_bit 8 (ucast b)) # units16 r"
| "units16 _ = []"

definition handle_data_16 :: "(wstr \<Rightarrow> wstr) \<Rightarrow> byte list \<Rightarrow> bool \<Rightarrow> srt_parser \<Rightarrow> srt_parser option" where
  "handle_data_16 tr bs big s =
     map_option snd (line_chars tr id 0xA
       (map (\<lambda>c. if big then swap_big_little c else c) (units16 bs)) ([], s))"

text \<open>\<open>conv cp\<close> stands for \<open>MultiByteToWideChar(cp, ...)\<close> on the line.\<close>

datatype code_page = CP_UTF8 | CP_ACP

definition handle_data_8 ::
  "(wstr \<Rightarrow> wstr) \<Rightarrow> (code_page \<Rightarrow> byte list \<Rightarrow> wstr) \<Rightarrow> byte list \<Rightarrow> code_page \<Rightarrow> srt_parser \<Rightarrow> srt_parser option" where
  "handle_data_8 tr conv bs cp s = map_option snd (line_chars tr (conv cp) 0xA bs ([], s))"

datatype bom = Utf16_big | Utf16_little | Utf8 | No_bom

text \<open>The tests on the first bytes, in their order; \<^theory_text>\<open>None\<close> reads behind the end of the file.\<close>

definition detect_bom :: "byte list \<Rightarrow> bom option" where
  "detect_bom d = do {
     d0 \<leftarrow> rd d 0;
     if d0 = 0xFE then do {
       d1 \<leftarrow> rd d 1;
       if d1 = 0xFF then do { d3 \<leftarrow> rd d 3; Some (if d3 \<noteq> 0 then Utf16_big else No_bom) } else Some No_bom }
     else if d0 = 0xFF then do {
       d1 \<leftarrow> rd d 1;
       if d1 = 0xFE then do { d2 \<leftarrow> rd d 2; Some (if d2 \<noteq> 0 then Utf16_little else No_bom) } else Some No_bom }
     else if d0 = 0xEF then do {
       d1 \<leftarrow> rd d 1;
       if d1 = 0xBB then do { d2 \<leftarrow> rd d 2; Some (if d2 = 0xBF then Utf8 else No_bom) } else Some No_bom }
     else Some No_bom }"

text \<open>\<open>ass\<close> is whether the name of the file ends with \<open>ssa\<close> or \<open>ass\<close>.\<close>

definition srt_load ::
  "(wstr \<Rightarrow> wstr) \<Rightarrow> (code_page \<Rightarrow> byte list \<Rightarrow> wstr) \<Rightarrow> bool \<Rightarrow> byte list option \<Rightarrow> srt_parser \<Rightarrow> (int \<times> srt_parser) option" where
  "srt_load tr conv ass file s =
     (if srt_index s = None then Some (-1, s)
      else let s = s\<lparr>srt_ass := ass, srt_ass_events_start := False\<rparr>
      in case file of
        None \<Rightarrow> Some (-1, s)
      | Some d \<Rightarrow> do {
          b \<leftarrow> detect_bom d;
          s \<leftarrow> (case b of
                 Utf16_big \<Rightarrow> handle_data_16 tr (drop 2 d) True s
               | Utf16_little \<Rightarrow> handle_data_16 tr (drop 2 d) False s
               | Utf8 \<Rightarrow> handle_data_8 tr conv (drop 3 d) CP_UTF8 s
               | No_bom \<Rightarrow> handle_data_8 tr conv d CP_ACP s);
          s \<leftarrow> flush_tmp tr s;
          Some (0, s) })"

end
