(* ===== verification/SrtTable.thy ===== *)
theory SrtTable
  imports Srt
begin

text \<open>
  What the subtitle parser promises: the time notation reads back, the table with its character buffer
  implements a list of timed texts, and no two of its entries have the same times.
\<close>

section \<open>Times\<close>

text \<open>A time as \<open>swprintf\<close> writes it.\<close>

definition time_head :: "nat \<Rightarrow> nat \<Rightarrow> nat \<Rightarrow> nat \<Rightarrow> wstr" where
  "time_head hw h m s = pad_digits hw h @ 58 # pad_digits 2 m @ 58 # pad_digits 2 s"

definition time_text :: "u16 \<Rightarrow> nat \<Rightarrow> nat \<Rightarrow> nat \<Rightarrow> nat \<Rightarrow> nat \<Rightarrow> nat \<Rightarrow> wstr" where
  "time_text sep hw h m s fw f =
     time_head hw h m s @ sep # pad_digits fw f"

lemma not_in_digits: "\<not> is_digit c \<Longrightarrow> c \<notin> set (pad_digits w n :: wstr)"
  using pad_digits_all [of w n, where ?'a = 16] by (auto simp: list_all_iff)

lemma not_digits: "\<not> is_digit (58 :: u16)" "\<not> is_digit (44 :: u16)" "\<not> is_digit (46 :: u16)"
  by (simp_all add: is_digit_def)

lemma find_sep:
  assumes "\<not> is_digit c" "c \<noteq> 58"
  shows "find_sub (time_text c hw h m s fw f) [c] =
    Some (length (time_head hw h m s))"
proof -
  have "c \<notin> set (time_head hw h m s)"
    using assms by (simp add: not_in_digits time_head_def)
  from find_sub_char_append [OF this, of "pad_digits fw f"] show ?thesis by (simp add: time_text_def)
qed

lemma find_other:
  assumes "\<not> is_digit c" "c \<noteq> 58" "c \<noteq> sep"
  shows "find_sub (time_text sep hw h m s fw f) [c] = None"
  using assms by (simp add: find_sub_char_None time_text_def time_head_def not_in_digits)

lemma scan_time_text:
  assumes "\<not> is_digit sep"
  shows "scan_time sep (time_text sep hw h m s fw f) =
    Some (wrap32 (int h), wrap32 (int m), wrap32 (int s), wrap32 (int f))"
  using assms scan_int_pad [of "[] :: wstr" fw f]
  by (simp add: scan_time_def time_text_def time_head_def scan_int_pad not_digits)

lemma div10_thousand: "0 \<le> f \<Longrightarrow> div10 3 (f * 1000) = f"
  by (simp add: numeral_3_eq_3)

lemma time_fields_text:
  assumes "\<not> is_digit sep" "sep \<noteq> 58" "f < 1000" "h < 1000" "m < 60" "s < 60"
    "h * 3600000 + m * 60000 + s * 1000 + f < 2 ^ 31"
  shows "time_fields sep (length (time_head hw h m s))
    (time_text sep hw h m s 3 f) = int (h * 3600000 + m * 60000 + s * 1000 + f)"
proof -
  have "drop (length (time_head hw h m s))
    (time_text sep hw h m s 3 f) = sep # pad_digits 3 f"
    by (simp add: time_text_def)
  then show ?thesis
    using assms by (simp add: time_fields_def scan_time_text length_pad_digits wrap32_id div10_thousand)
qed

lemma time_to_decimal_text:
  assumes "sep = 44 \<or> sep = 46" "f < 1000" "h < 1000" "m < 60" "s < 60"
    "h * 3600000 + m * 60000 + s * 1000 + f < 2 ^ 31"
  shows "time_to_decimal (time_text sep hw h m s 3 f) = int (h * 3600000 + m * 60000 + s * 1000 + f)"
proof -
  have sep: "\<not> is_digit sep" "sep \<noteq> 58" using assms(1) not_digits by auto
  show ?thesis
  proof (cases "sep = 44")
    case True
    then show ?thesis using find_sep [OF sep] time_fields_text [OF sep assms(2-6)]
      by (simp add: time_to_decimal_def)
  next
    case False
    then have "find_sub (time_text sep hw h m s 3 f) [44] = None" using find_other not_digits by simp
    then show ?thesis using find_sep [OF sep] time_fields_text [OF sep assms(2-6)] assms(1) False
      by (simp add: time_to_decimal_def)
  qed
qed

lemma fields_sum:
  "(d :: nat) div 3600000 * 3600000 + d mod 3600000 div 60000 * 60000 + d mod 60000 div 1000 * 1000 + d mod 1000 = d"
proof -
  have "d mod 3600000 mod 60000 = d mod 60000" "d mod 60000 mod 1000 = d mod 1000"
    by (simp_all add: mod_mod_cancel)
  then show ?thesis
    using div_mult_mod_eq [of d 3600000] div_mult_mod_eq [of "d mod 3600000" 60000]
      div_mult_mod_eq [of "d mod 60000" 1000] by linarith
qed

lemma fmt_int_pad: "0 \<le> n \<Longrightarrow> fmt_int w n = pad_digits w (nat n)"
  by (simp add: fmt_int_def)

lemma decimal_to_time_text:
  assumes "d < 2 ^ 31"
  shows "decimal_to_time (int d) =
    Some (time_text 44 2 (d div 3600000) (d mod 3600000 div 60000) (d mod 60000 div 1000) 3 (d mod 1000))"
proof -
  have h: "length (pad_digits 2 (d div 3600000) :: wstr) \<le> 3"
    using length_dec_digits_less [of "d div 3600000" 3, where ?'a = 16] assms by (simp add: pad_digits_def less_mult_imp_div_less)
  show ?thesis using h
    by (simp add: decimal_to_time_def fmt_int_pad time_text_def time_head_def nat_div_distrib nat_mod_distrib
          length_pad_digits less_mult_imp_div_less)
qed

text \<open>
  C13: every time that is a non-negative \<open>int\<close> of milliseconds fits the buffer of 15 characters of
  \<open>decimal_to_time\<close>, and \<open>time_to_decimal\<close> reads the written text back unchanged.
\<close>

theorem time_roundtrip:
  "0 \<le> d \<Longrightarrow> d < 2 ^ 31 \<Longrightarrow> map_option time_to_decimal (decimal_to_time d) = Some d"
proof -
  assume d: "0 \<le> d" "d < 2 ^ 31"
  let ?n = "nat d"
  have n: "?n < 2 ^ 31" "d = int ?n" using d by simp_all
  have "?n div 3600000 < 1000" "?n mod 3600000 div 60000 < 60" "?n mod 60000 div 1000 < 60"
    using n(1) by (simp_all add: less_mult_imp_div_less)
  moreover note fields_sum [of ?n]
  ultimately show ?thesis
    using decimal_to_time_text [OF n(1)] n
      time_to_decimal_text [of 44 "?n mod 1000" "?n div 3600000" "?n mod 3600000 div 60000" "?n mod 60000 div 1000" 2]
    by simp
qed

theorem time_roundtrip_witness: "map_option time_to_decimal (decimal_to_time 2147483647) = Some 2147483647"
  by (rule time_roundtrip) simp_all

section \<open>The character buffer\<close>

lemma cstr_bound: "length (cstr data p) \<le> length data - p"
  unfolding cstr_def using length_takeWhile_le [of _ "drop p data"] by simp

lemma drop_split:
  assumes "p + length (cstr data p) < length data"
  shows "drop p data = cstr data p @ 0 # drop (p + length (cstr data p) + 1) data"
proof -
  let ?n = "length (cstr data p)"
  have "?n < length (drop p data)" using assms by simp
  then have z: "drop p data ! ?n = 0" unfolding cstr_def using nth_length_takeWhile by blast
  have "drop p data = take ?n (drop p data) @ drop p data ! ?n # drop (Suc ?n) (drop p data)"
    using assms by (intro id_take_nth_drop) simp
  moreover have "take ?n (drop p data) = cstr data p"
    unfolding cstr_def by (rule takeWhile_eq_take [symmetric])
  ultimately show ?thesis using z by (simp add: add.commute)
qed

text \<open>A string that ends before the place of a write is not changed by it.\<close>

lemma cstr_blit_before:
  assumes "p + length (cstr data p) + 1 \<le> e" "e + length b \<le> length data"
  shows "cstr (blit data e b) p = cstr data p"
proof -
  let ?n = "length (cstr data p)"
  have "take (?n + 1) (drop p (blit data e b)) = take (?n + 1) (drop p data)"
    using assms by (auto simp: list_eq_iff_nth_eq blit_nth)
  also have "\<dots> = cstr data p @ [0]"
    using arg_cong [OF drop_split, of p data "take (?n + 1)"] assms by simp
  finally have "drop p (blit data e b) = cstr data p @ 0 # drop (?n + 1) (drop p (blit data e b))"
    by (metis append.assoc append_Cons append_Nil append_take_drop_id)
  moreover have "takeWhile (\<lambda>c. c \<noteq> 0) (cstr data p @ 0 # r) = cstr data p" for r
    by (rule takeWhile_all) (auto simp: cstr_def list_all_iff dest: set_takeWhileD)
  ultimately show ?thesis by (metis cstr_def)
qed

lemma takeWhile_nonzero: "0 \<notin> set s \<Longrightarrow> takeWhile (\<lambda>c. c \<noteq> 0) s = s" for s :: wstr
  by (induction s) auto

lemma cstr_blit_at:
  "e + length s + 1 \<le> length data \<Longrightarrow> cstr (blit data e (s @ [0])) e = takeWhile (\<lambda>c. c \<noteq> 0) s"
proof (cases "0 \<in> set s")
  case True
  assume "e + length s + 1 \<le> length data"
  with True show ?thesis by (simp add: cstr_def blit_def)
next
  case False
  assume le: "e + length s + 1 \<le> length data"
  have "takeWhile (\<lambda>c. c \<noteq> 0) (s @ 0 # r) = s" for r
    using False by (intro takeWhile_all) (auto simp: list_all_iff)
  then show ?thesis using le by (simp add: cstr_def blit_def takeWhile_nonzero False)
qed

section \<open>The table\<close>

text \<open>Where the last text ends, and where the next one goes.\<close>

definition text_end :: "srt_parser \<Rightarrow> nat" where
  "text_end s = srt_text_pos s + length (cstr (srt_text s) (srt_text_pos s)) + 1"

definition next_pos :: "srt_parser \<Rightarrow> nat" where
  "next_pos s = (if srt_text s ! 0 \<noteq> 0 then text_end s else srt_text_pos s)"

definition distinct_times :: "subtitle_index list \<Rightarrow> bool" where
  "distinct_times = sorted_wrt (\<lambda>i j. \<not> same_time (time_start j) (time_end j) i)"

definition srt_wf :: "srt_parser \<Rightarrow> bool" where
  "srt_wf s =
     (case srt_index s of
        None \<Rightarrow> True
      | Some idx \<Rightarrow>
          text_end s \<le> length (srt_text s) \<and> length idx \<le> srt_num s \<and> distinct_times idx \<and>
          (idx = [] \<longrightarrow> srt_text s ! 0 = 0) \<and> (srt_text s ! 0 = 0 \<longrightarrow> srt_text_pos s = 0) \<and>
          list_all (\<lambda>i. sub_pos i + length (cstr (srt_text s) (sub_pos i)) + 1 \<le> text_end s) idx)"

text \<open>The abstract table: the entries with their texts.\<close>

type_synonym timed_text = "int \<times> int \<times> bool \<times> int \<times> wstr"

definition entry :: "u16 list \<Rightarrow> subtitle_index \<Rightarrow> timed_text" where
  "entry data i = (time_start i, time_end i, sub_has_offset i, sub_offset i, cstr data (sub_pos i))"

definition table :: "srt_parser \<Rightarrow> timed_text list" where
  "table s = (case srt_index s of None \<Rightarrow> [] | Some idx \<Rightarrow> map (entry (srt_text s)) idx)"

fun near :: "int \<Rightarrow> int \<Rightarrow> timed_text \<Rightarrow> bool" where
  "near t0 t1 (a, b, r) = (cabs (wrap32 (a - t0)) < 10 \<and> cabs (wrap32 (b - t1)) < 10)"

definition add_text :: "wstr \<Rightarrow> int \<Rightarrow> int \<Rightarrow> timed_text list \<Rightarrow> int \<times> timed_text list" where
  "add_text line t0 t1 l =
     (if list_ex (near t0 t1) l then (-1, l)
      else (0, l @ [(t0, t1, fst (offset_tag line), snd (offset_tag line), remove_tags line)]))"

text \<open>The line that is added, with the note that follows it in an ASS file.\<close>

definition noted :: "(wstr \<Rightarrow> wstr) \<Rightarrow> srt_parser \<Rightarrow> wstr \<Rightarrow> wstr" where
  "noted tr s line = (if srt_ass s then line @ 10 # tr (wlit ''(Fonts Loading)'') else line)"

definition new_entry :: "wstr \<Rightarrow> int \<Rightarrow> int \<Rightarrow> nat \<Rightarrow> subtitle_index" where
  "new_entry line t0 t1 pos =
     \<lparr>time_start = t0, time_end = t1, sub_pos = pos, sub_offset = snd (offset_tag line),
      sub_has_offset = fst (offset_tag line)\<rparr>"

definition added :: "wstr \<Rightarrow> int \<Rightarrow> int \<Rightarrow> subtitle_index list \<Rightarrow> srt_parser \<Rightarrow> srt_parser" where
  "added line t0 t1 idx s =
     s\<lparr>srt_index := Some (idx @ [new_entry line t0 t1 (next_pos s)]),
       srt_text := blit (srt_text s) (next_pos s) (remove_tags line @ [0]), srt_text_pos := next_pos s\<rparr>"

definition room :: "wstr \<Rightarrow> subtitle_index list \<Rightarrow> srt_parser \<Rightarrow> bool" where
  "room line idx s \<longleftrightarrow>
     length idx < srt_num s \<and> next_pos s + length (remove_tags line) + 1 \<le> length (srt_text s)"

lemma direct_add_eq:
  assumes "srt_index s = Some idx" "srt_wf s"
  shows "direct_add_subtitle tr line t0 t1 s =
    (if length (noted tr s line) \<ge> 1024 then None
     else if list_ex (same_time t0 t1) idx then Some (-1, s)
     else if room (noted tr s line) idx s then Some (0, added (noted tr s line) t0 t1 idx s) else None)"
proof -
  have "rd (srt_text s) 0 = Some (srt_text s ! 0)"
    using assms by (auto simp: srt_wf_def text_end_def rd_def)
  then show ?thesis
    by (simp add: direct_add_subtitle_def assms(1) noted_def [symmetric] Let_def prod.case_eq_if put_cstr_def
          room_def added_def new_entry_def next_pos_def text_end_def)
qed

lemma srt_wfD:
  assumes "srt_wf s" "srt_index s = Some idx"
  shows "text_end s \<le> length (srt_text s)" "length idx \<le> srt_num s" "distinct_times idx"
    "idx = [] \<Longrightarrow> srt_text s ! 0 = 0" "srt_text s ! 0 = 0 \<Longrightarrow> srt_text_pos s = 0"
    "i \<in> set idx \<Longrightarrow> sub_pos i + length (cstr (srt_text s) (sub_pos i)) + 1 \<le> text_end s"
  using assms by (auto simp: srt_wf_def list_all_iff)

text \<open>An added text does not change those before it, unless the buffer starts with an empty text.\<close>

lemma added_keeps:
  assumes "srt_wf s" "srt_index s = Some idx" "room line idx s" "srt_text s ! 0 \<noteq> 0" "i \<in> set idx"
  shows "cstr (srt_text (added line t0 t1 idx s)) (sub_pos i) = cstr (srt_text s) (sub_pos i)"
  using srt_wfD(6) [OF assms(1,2,5)] assms(3,4)
  by (simp add: added_def cstr_blit_before next_pos_def room_def)

lemma added_text:
  assumes "room line idx s"
  shows "cstr (srt_text (added line t0 t1 idx s)) (next_pos s) = takeWhile (\<lambda>c. c \<noteq> 0) (remove_tags line)"
  using assms by (simp add: added_def room_def cstr_blit_at)

lemma added_empty:
  assumes "srt_wf s" "srt_index s = Some idx" "srt_text s ! 0 = 0" "i \<in> set idx"
  shows "sub_pos i = 0" "next_pos s = 0"
proof -
  have "cstr (srt_text s) 0 = []" using assms(3) by (cases "srt_text s") (simp_all add: cstr_def)
  then have "text_end s = 1" using srt_wfD(5) [OF assms(1,2,3)] by (simp add: text_end_def)
  then show "sub_pos i = 0" using srt_wfD(6) [OF assms(1,2,4)] by simp
  show "next_pos s = 0" using srt_wfD(5) [OF assms(1,2,3)] assms(3) by (simp add: next_pos_def)
qed

lemma added_wf:
  assumes wf: "srt_wf s" "srt_index s = Some idx" and r: "room line idx s"
    and d: "\<not> list_ex (same_time t0 t1) idx"
  shows "srt_wf (added line t0 t1 idx s)"
proof -
  let ?s = "added line t0 t1 idx s"
  have e: "text_end ?s = next_pos s + length (takeWhile (\<lambda>c. c \<noteq> 0) (remove_tags line)) + 1"
    using added_text [OF r, of t0 t1] by (simp add: text_end_def) (simp add: added_def)
  have old: "sub_pos i + length (cstr (srt_text ?s) (sub_pos i)) + 1 \<le> text_end ?s" if i: "i \<in> set idx" for i
  proof (cases "srt_text s ! 0 = 0")
    case True
    then show ?thesis using added_empty [OF wf True i] added_text [OF r, of t0 t1] e by simp
  next
    case False
    then show ?thesis using added_keeps [OF wf r False i, of t0 t1] srt_wfD(6) [OF wf i] e by (simp add: next_pos_def)
  qed
  have "text_end ?s \<le> length (srt_text ?s)"
    using r e length_takeWhile_le [of "\<lambda>c. c \<noteq> 0" "remove_tags line"] by (simp add: room_def added_def)
  moreover have "srt_text_pos ?s = 0" if "srt_text ?s ! 0 = 0"
  proof (cases "srt_text s ! 0 = 0")
    case True
    then show ?thesis using srt_wfD(5) [OF wf True] by (simp add: added_def next_pos_def)
  next
    case False
    then have "0 < next_pos s" by (simp add: next_pos_def text_end_def)
    moreover have "0 < length (srt_text s)" using r unfolding room_def by linarith
    ultimately have "srt_text ?s ! 0 = srt_text s ! 0"
      using nth_blit_outside [of "next_pos s" "remove_tags line @ [0]" "srt_text s" 0] r
      by (simp add: added_def room_def)
    then show ?thesis using that False by simp
  qed
  moreover have "distinct_times (idx @ [new_entry line t0 t1 p])" for p
    using srt_wfD(3) [OF wf] d
    by (auto simp: distinct_times_def sorted_wrt_append list_ex_iff new_entry_def)
  moreover have "sub_pos (new_entry line t0 t1 (next_pos s)) +
      length (cstr (srt_text ?s) (sub_pos (new_entry line t0 t1 (next_pos s)))) + 1 \<le> text_end ?s"
    using added_text [OF r, of t0 t1] e by (simp add: new_entry_def)
  ultimately show ?thesis
    using old r srt_wfD(2) [OF wf] by (auto simp: srt_wf_def list_all_iff added_def room_def)
qed

lemma set_remove_tags: "set (remove_tags line) \<subseteq> set line"
proof (induction line rule: remove_tags.induct)
  case (1 line)
  show ?case
  proof (cases "\<exists>l r. find_sub line [60] = Some l \<and> find_sub line [62] = Some r \<and> l < r")
    case True
    then obtain l r where lr: "find_sub line [60] = Some l" "find_sub line [62] = Some r" "l < r" by blast
    then have "remove_tags line = remove_tags (take l line @ drop (r + 1) line)"
      by (subst remove_tags.simps) simp
    moreover have "set (take l line @ drop (r + 1) line) \<subseteq> set line"
      using set_take_subset [of l line] set_drop_subset [of "r + 1" line] by auto
    moreover have "set (remove_tags (take l line @ drop (r + 1) line)) \<subseteq> set (take l line @ drop (r + 1) line)"
      by (rule "1.IH" [OF _ lr(1,2,3)]) simp
    ultimately show ?thesis by (metis subset_trans)
  next
    case False
    then show ?thesis by (subst remove_tags.simps) (auto split: option.splits)
  qed
qed

lemma near_entry: "near t0 t1 (entry data i) = same_time t0 t1 i"
  by (simp add: entry_def same_time_def)

lemma table_added:
  assumes "srt_wf s" "srt_index s = Some idx" "room line idx s" "0 \<notin> set line" "srt_text s ! 0 \<noteq> 0 \<or> idx = []"
  shows "table (added line t0 t1 idx s) =
    table s @ [(t0, t1, fst (offset_tag line), snd (offset_tag line), remove_tags line)]"
proof -
  have "0 \<notin> set (remove_tags line)" using assms(4) set_remove_tags [of line] by auto
  then have "takeWhile (\<lambda>c. c \<noteq> 0) (remove_tags line) = remove_tags line"
    by (rule takeWhile_nonzero)
  then have "entry (srt_text (added line t0 t1 idx s)) (new_entry line t0 t1 (next_pos s)) =
      (t0, t1, fst (offset_tag line), snd (offset_tag line), remove_tags line)"
    using added_text [OF assms(3), of t0 t1] by (simp add: entry_def new_entry_def)
  moreover have "map (entry (srt_text (added line t0 t1 idx s))) idx = map (entry (srt_text s)) idx"
    using added_keeps [OF assms(1-3)] assms(5) by (auto simp: entry_def)
  moreover have "srt_index (added line t0 t1 idx s) = Some (idx @ [new_entry line t0 t1 (next_pos s)])"
    by (simp add: added_def)
  ultimately show ?thesis using assms(2) by (simp add: table_def)
qed

text \<open>
  C14: the table of subtitles, with its texts in one character buffer, implements a list of timed texts:
  as long as there is room and the buffer does not start with an empty text, \<open>direct_add_subtitle\<close> acts
  as \<^const>\<open>add_text\<close>, and returns what that returns; the texts stored before stay as they are.
\<close>

theorem direct_add_refines:
  assumes "srt_wf s" "srt_index s = Some idx" "length (noted tr s line) < 1024"
    "room (noted tr s line) idx s" "0 \<notin> set (noted tr s line)" "srt_text s ! 0 \<noteq> 0 \<or> idx = []"
  shows "map_option (\<lambda>(r, s'). (r, table s')) (direct_add_subtitle tr line t0 t1 s) =
    Some (add_text (noted tr s line) t0 t1 (table s))"
proof -
  have "list_ex (near t0 t1) (table s) = list_ex (same_time t0 t1) idx"
    using assms(2) by (auto simp: table_def list_ex_iff near_entry)
  then show ?thesis
    using assms(3,4) table_added [OF assms(1,2,4-6), of t0 t1]
    by (simp add: direct_add_eq [OF assms(2,1)] add_text_def)
qed

definition sample_table :: srt_parser where
  "sample_table =
     \<lparr>srt_index = Some [\<lparr>time_start = 1000, time_end = 2000, sub_pos = 0, sub_offset = 0, sub_has_offset = False\<rparr>],
      srt_num = 3, srt_text = [104, 105, 0, 7, 7, 7, 7, 7], srt_text_pos = 0, srt_last_type = 2, srt_ass = False,
      srt_ass_events_start = False, srt_tmp = [], srt_tmp_start = 0, srt_tmp_end = 0\<rparr>"

theorem direct_add_refines_witness:
  "map_option (\<lambda>(r, s'). (r, table s')) (direct_add_subtitle id (wlit ''<offset=5>yes'') 3000 4000 sample_table) =
    Some (add_text (wlit ''<offset=5>yes'') 3000 4000 (table sample_table))"
proof -
  have 1: "srt_wf sample_table" by code_simp
  have 2: "srt_index sample_table =
    Some [\<lparr>time_start = 1000, time_end = 2000, sub_pos = 0, sub_offset = 0, sub_has_offset = False\<rparr>]"
    by (simp add: sample_table_def)
  have 3: "length (noted id sample_table (wlit ''<offset=5>yes'')) < 1024" by code_simp
  have 4: "room (noted id sample_table (wlit ''<offset=5>yes''))
    [\<lparr>time_start = 1000, time_end = 2000, sub_pos = 0, sub_offset = 0, sub_has_offset = False\<rparr>] sample_table"
    by code_simp
  have 5: "0 \<notin> set (noted id sample_table (wlit ''<offset=5>yes''))" by code_simp
  have 6: "srt_text sample_table ! 0 \<noteq> 0" by code_simp
  have n: "noted id sample_table l = l" for l by (simp add: noted_def sample_table_def)
  show ?thesis
    using direct_add_refines [OF 1 2 3 4 5 disjI1 [OF 6], of 3000 4000] unfolding n .
qed

lemma first_index_append_None:
  "\<not> list_ex P xs \<Longrightarrow> first_index P k (xs @ [y]) = (if P y then Some (k + length xs, y) else None)"
  by (induction xs arbitrary: k) auto

text \<open>
  a text just added is what a lookup at one of its times returns, with its index, its text without
  tags and its offset, when no earlier subtitle covers that time.
\<close>

theorem added_text_is_found:
  assumes "srt_wf s" "srt_index s = Some idx" "length (noted tr s line) < 1024"
    "room (noted tr s line) idx s" "0 \<notin> set (noted tr s line)"
    "\<not> list_ex (same_time t0 t1) idx" "\<not> list_ex (shows_at t t) idx" "t0 \<le> t" "t \<le> t1"
  shows "map_option (\<lambda>(r, s'). (r, get_subtitle t t False s')) (direct_add_subtitle tr line t0 t1 s) =
    Some (0, int (length idx), Some (remove_tags (noted tr s line)), Some (offset_tag (noted tr s line)))"
proof -
  let ?l = "noted tr s line"
  have "0 \<notin> set (remove_tags ?l)" using assms(5) set_remove_tags [of ?l] by auto
  then have "cstr (srt_text (added ?l t0 t1 idx s)) (next_pos s) = remove_tags ?l"
    using added_text [OF assms(4)] takeWhile_nonzero by simp
  moreover have "shows_at t t (new_entry ?l t0 t1 p)" for p
    using assms(8,9) by (simp add: shows_at_def new_entry_def)
  moreover have "srt_index (added ?l t0 t1 idx s) = Some (idx @ [new_entry ?l t0 t1 (next_pos s)])"
    by (simp add: added_def)
  ultimately show ?thesis
    using assms(3,4,6,7)
    by (simp add: direct_add_eq [OF assms(2,1)] get_subtitle_def first_index_append_None) (simp add: new_entry_def)
qed

theorem added_text_is_found_witness:
  "map_option (\<lambda>(r, s'). (r, get_subtitle 3500 3500 False s')) (direct_add_subtitle id (wlit ''<offset=5>yes'') 3000 4000 sample_table) =
    Some (0, 1, Some (wlit ''yes''), Some (True, 5))"
proof -
  let ?l = "wlit ''<offset=5>yes''"
  have n: "noted id sample_table ?l = ?l" by (simp add: noted_def sample_table_def)
  have 1: "srt_wf sample_table" by code_simp
  obtain idx where 2: "srt_index sample_table = Some idx" "idx = the (srt_index sample_table)" by (simp add: sample_table_def)
  have 3: "length ?l < 1024" "room ?l (the (srt_index sample_table)) sample_table" "0 \<notin> set ?l"
    "\<not> list_ex (same_time 3000 4000) (the (srt_index sample_table))"
    "\<not> list_ex (shows_at 3500 3500) (the (srt_index sample_table))"
    by code_simp+
  have 4: "length (the (srt_index sample_table)) = 1" "remove_tags ?l = wlit ''yes''" "offset_tag ?l = (True, 5)"
    by code_simp+
  show ?thesis
    using added_text_is_found [OF 1 2(1), of id ?l 3000 4000 3500] 3 4 unfolding n 2(2) by simp
qed

text \<open>
  When the first text is empty after its tags are removed, it shares its place in the character
  buffer with the next one: the subtitle that shows nothing gets the text of its successor.
\<close>

theorem first_empty_text_lost:
  assumes "srt_wf s" "srt_index s = Some [i]" "srt_text s ! 0 = 0" "length (noted tr s line) < 1024"
    "room (noted tr s line) [i] s" "0 \<notin> set (noted tr s line)" "\<not> same_time t0 t1 i"
  shows "map_option (\<lambda>(r, s'). map (\<lambda>(a, b, c, d, text). text) (table s')) (direct_add_subtitle tr line t0 t1 s) =
    Some [remove_tags (noted tr s line), remove_tags (noted tr s line)]"
proof -
  let ?l = "noted tr s line"
  have "0 \<notin> set (remove_tags ?l)" using assms(6) set_remove_tags [of ?l] by auto
  then have "cstr (srt_text (added ?l t0 t1 [i] s)) 0 = remove_tags ?l"
    using added_text [OF assms(5)] takeWhile_nonzero added_empty [OF assms(1-3), of i] by simp
  moreover have "sub_pos i = 0" "next_pos s = 0" using added_empty [OF assms(1-3), of i] by simp_all
  moreover have "srt_index (added ?l t0 t1 [i] s) = Some [i, new_entry ?l t0 t1 (next_pos s)]"
    by (simp add: added_def)
  ultimately show ?thesis
    using assms(4,5,7)
    by (simp add: direct_add_eq [OF assms(2,1)] table_def entry_def) (simp add: new_entry_def)
qed

definition empty_first :: srt_parser where
  "empty_first =
     sample_table\<lparr>srt_text := replicate 8 0,
       srt_index := Some [\<lparr>time_start = 0, time_end = 900, sub_pos = 0, sub_offset = 0, sub_has_offset = False\<rparr>]\<rparr>"

theorem first_empty_text_lost_witness:
  "map_option (\<lambda>(r, s'). map (\<lambda>(a, b, c, d, text). text) (table s'))
     (direct_add_subtitle id (wlit ''<i>yes'') 3000 4000 empty_first) = Some [wlit ''yes'', wlit ''yes'']"
proof -
  let ?i = "\<lparr>time_start = 0, time_end = 900, sub_pos = 0, sub_offset = 0, sub_has_offset = False\<rparr>"
  let ?l = "wlit ''<i>yes''"
  have n: "noted id empty_first ?l = ?l" by (simp add: noted_def empty_first_def sample_table_def)
  have 1: "srt_wf empty_first" by code_simp
  have 2: "srt_index empty_first = Some [?i]" by (simp add: empty_first_def)
  have 3: "srt_text empty_first ! 0 = 0" "length ?l < 1024" "room ?l [?i] empty_first" "0 \<notin> set ?l"
    "\<not> same_time 3000 4000 ?i" "remove_tags ?l = wlit ''yes''"
    by code_simp+
  show ?thesis
    using first_empty_text_lost [OF 1 2 3(1), of id ?l 3000 4000] 3 unfolding n by simp
qed

section \<open>Loading a file\<close>

lemma srt_wf_cong [simp]:
  "srt_wf (s\<lparr>srt_tmp := a\<rparr>) = srt_wf s" "srt_wf (s\<lparr>srt_last_type := b\<rparr>) = srt_wf s"
  "srt_wf (s\<lparr>srt_ass := c\<rparr>) = srt_wf s" "srt_wf (s\<lparr>srt_ass_events_start := c\<rparr>) = srt_wf s"
  "srt_wf (s\<lparr>srt_tmp_start := d\<rparr>) = srt_wf s" "srt_wf (s\<lparr>srt_tmp_end := d\<rparr>) = srt_wf s"
  by (simp_all add: srt_wf_def text_end_def cong: option.case_cong)

lemma direct_add_wf:
  assumes "direct_add_subtitle tr line t0 t1 s = Some (r, s')" "srt_wf s"
  shows "srt_wf s'"
proof -
  obtain idx where i: "srt_index s = Some idx"
    using assms(1) by (auto simp: direct_add_subtitle_def Let_def split: prod.splits if_splits option.splits)
  show ?thesis
    using assms(1) added_wf [OF assms(2) i] assms(2)
    by (auto simp: direct_add_eq [OF i assms(2)] split: if_splits)
qed

lemma flush_tmp_wf: "flush_tmp tr s = Some s' \<Longrightarrow> srt_wf s \<Longrightarrow> srt_wf s'"
  by (auto simp: flush_tmp_def split: if_splits dest: direct_add_wf)

lemma handle_text_wf: "handle_text line s = Some s' \<Longrightarrow> srt_wf s \<Longrightarrow> srt_wf s'"
  by (auto simp: handle_text_def set_tmp_def split: if_splits)

lemma handle_srt_wf: "handle_srt tr line s = Some s' \<Longrightarrow> srt_wf s \<Longrightarrow> srt_wf s'"
  by (auto simp: handle_srt_def Let_def split: if_splits option.splits bind_splits
        dest: flush_tmp_wf handle_text_wf)

fun flow_state :: "'a flow \<Rightarrow> 'a" where
  "flow_state (Return s) = s"
| "flow_state (Continue line s) = s"

lemma handle_dialog_wf: "handle_dialog tr line s = Some f \<Longrightarrow> srt_wf s \<Longrightarrow> srt_wf (flow_state f)"
  by (auto simp: handle_dialog_def Let_def split: option.splits prod.splits bind_splits dest: direct_add_wf)

lemma handle_line_wf: "handle_line tr line s = Some s' \<Longrightarrow> srt_wf s \<Longrightarrow> srt_wf s'"
proof -
  assume h: "handle_line tr line s = Some s'" and wf: "srt_wf s"
  then obtain f where f: "handle_ass tr line s = Some f" by (auto simp: handle_line_def split: bind_splits)
  have "srt_wf (flow_state f)"
    using f wf by (auto simp: handle_ass_def split: if_splits dest: handle_dialog_wf)
  then show ?thesis using h f by (auto simp: handle_line_def split: flow.splits dest: handle_srt_wf)
qed

lemma line_chars_wf:
  "line_chars tr conv newline cs st = Some st' \<Longrightarrow> srt_wf (snd st) \<Longrightarrow> srt_wf (snd st')"
proof (induction cs arbitrary: st)
  case (Cons c cs)
  from Cons.prems(1) obtain st1 where st1: "line_char tr conv newline c st = Some st1"
    "line_chars tr conv newline cs st1 = Some st'"
    by (auto split: bind_splits)
  have "srt_wf (snd st1)"
    using st1(1) Cons.prems(2)
    by (cases st) (auto simp: line_char_def Let_def split: if_splits dest: handle_line_wf)
  then show ?case using Cons.IH st1(2) by blast
qed simp


definition srt_empty :: srt_parser where
  "srt_empty =
     \<lparr>srt_index = None, srt_num = 0, srt_text = [], srt_text_pos = 0, srt_last_type = 0, srt_ass = False,
      srt_ass_events_start = False, srt_tmp = [], srt_tmp_start = 0, srt_tmp_end = 0\<rparr>"

definition sample_file :: "byte list" where
  "sample_file = map of_char (''1'' @ [CHR 10] @ ''00:00:01,000 --> 00:00:02,500'' @ [CHR 10] @ ''Hi <i>all</i>'' @ [CHR 10])"


end
