(* ===== verification/SrtFiles.thy ===== *)
theory SrtFiles
  imports SrtTable
begin

text \<open>
  The frame offsets that \<open>srt_parser\<close> attaches to its subtitles, and the files it writes
  (\<open>load_offset_metadata\<close>, \<open>save\<close>, \<open>save_as_ass\<close> of \<open>dwindow/srt/srt_parser.cpp\<close>).
\<close>

section \<open>Frame offsets\<close>

text \<open>\<open>unsigned char\<close> to a signed offset: bit 7 is the sign.\<close>

definition offset_value :: "byte \<Rightarrow> int" where
  "offset_value v = (if v AND 0x80 \<noteq> 0 then - uint (v AND 0x7f) else uint (v AND 0x7f))"

definition le32 :: "byte list \<Rightarrow> nat \<Rightarrow> nat" where
  "le32 d i = unat (d ! i) + 256 * (unat (d ! (i + 1)) + 256 * (unat (d ! (i + 2)) + 256 * unat (d ! (i + 3))))"

definition int_bytes :: "int \<Rightarrow> byte list" where
  "int_bytes n = map (\<lambda>k. word_of_int (n div 256 ^ k)) [0 ..< 4]"

definition int_at :: "byte list \<Rightarrow> nat \<Rightarrow> int" where
  "int_at d i = wrap32 (int (le32 d (4 * i)))"

text \<open>
  The bytes read from the file become \<open>int\<close>s in the same buffer, from the last to the first:
  element \<open>i\<close> is written to the bytes from \<open>4 * i\<close> on, byte \<open>i\<close> is read before.
\<close>

fun expand_offsets :: "nat \<Rightarrow> byte list \<Rightarrow> byte list" where
  "expand_offsets 0 d = d"
| "expand_offsets (Suc i) d = expand_offsets i (blit d (4 * i) (int_bytes (offset_value (d ! i))))"

text \<open>The frame counts per offset, and the first offset with the largest count.\<close>

definition count_offsets :: "int list \<Rightarrow> nat list" where
  "count_offsets os = fold (\<lambda>v l. l[nat (v + 128) := l ! nat (v + 128) + 1]) os (replicate 256 0)"

definition most_common :: "nat list \<Rightarrow> int" where
  "most_common l =
     fst (fold (\<lambda>j (offset, max_found). if l ! j > max_found then (int j - 128, l ! j) else (offset, max_found))
       [0 ..< 256] (0, 0))"

definition frame_of :: "int \<Rightarrow> int \<Rightarrow> int" where
  "frame_of t fps = cdiv (wrap32 (t * fps)) 1001"

definition set_offset :: "int \<Rightarrow> nat \<Rightarrow> byte list \<Rightarrow> subtitle_index \<Rightarrow> subtitle_index option" where
  "set_offset fps frame_count data i =
     (let frame_start = frame_of (time_start i) fps;
          frame_end = frame_of (time_end i) fps
      in if frame_start < int frame_count \<and> frame_end < int frame_count
         then if frame_start < 0 \<and> frame_start \<le> frame_end then None
              else Some (i\<lparr>sub_has_offset := True,
                           sub_offset := most_common (count_offsets
                             (map (int_at data) [nat frame_start ..< nat (frame_end + 1)]))\<rparr>)
         else Some i)"

fun map_option_list :: "('a \<Rightarrow> 'b option) \<Rightarrow> 'a list \<Rightarrow> 'b list option" where
  "map_option_list f [] = Some []"
| "map_option_list f (x # xs) = do { y \<leftarrow> f x; ys \<leftarrow> map_option_list f xs; Some (y # ys) }"

text \<open>
  The buffer from \<open>malloc\<close> has the contents \<open>junk\<close>.  A file shorter than its header leaves the header
  uninitialised; a frame rate that is no \<open>int\<close> is undefined.
\<close>

definition load_offset_metadata ::
  "byte list \<Rightarrow> byte list option \<Rightarrow> srt_parser \<Rightarrow> (int \<times> srt_parser) option" where
  "load_offset_metadata junk file s =
     (case file of
        None \<Rightarrow> Some (-1, s)
      | Some f \<Rightarrow>
          if length f < 20 then None
          else if le32 f 4 \<noteq> 1 then Some (-1, s)
          else if take 4 f \<noteq> [0x6f, 0x66, 0x66, 0x73] then Some (-1, s)
          else if le32 f 8 > 512000 then Some (-1, s)
          else if le32 f 16 = 0 \<or> le32 f 12 div le32 f 16 \<ge> 2 ^ 31 then None
          else let fps = int (le32 f 12 div le32 f 16);
                   frame_count = le32 f 8;
                   points = slice 20 frame_count f
               in if length points \<noteq> frame_count then Some (-1, s)
                  else let data = expand_offsets frame_count (blit junk 0 points)
                  in case srt_index s of
                       None \<Rightarrow> Some (0, s)
                     | Some idx \<Rightarrow> do {
                         idx \<leftarrow> map_option_list (set_offset fps frame_count data) idx;
                         Some (0, s\<lparr>srt_index := Some idx\<rparr>) })"

section \<open>Saving\<close>

text \<open>The first \<open>\n\<close> behind the first character with no \<open>\r\<close> before it.\<close>

definition bare_newline :: "wstr \<Rightarrow> nat \<Rightarrow> bool" where
  "bare_newline text j \<longleftrightarrow> 1 \<le> j \<and> j < length text \<and> text ! j = 10 \<and> text ! (j - 1) \<noteq> 13"

text \<open>\<open>text[1024]\<close> receives a \<open>\r\<close> before each such newline, with a new search after each.\<close>

partial_function (option) insert_cr :: "wstr \<Rightarrow> wstr option" where
  "insert_cr text =
     (if length text \<ge> 1024 then None
      else case find (bare_newline text) [1 ..< length text] of
        None \<Rightarrow> Some text
      | Some j \<Rightarrow> insert_cr (take j text @ 13 # drop j text))"

definition crlf :: wstr where
  "crlf = [13, 10]"

definition save_entry :: "u16 list \<Rightarrow> nat \<times> subtitle_index \<Rightarrow> wstr option" where
  "save_entry data ki =
     (case ki of (k, i) \<Rightarrow> do {
        start \<leftarrow> decimal_to_time (time_start i);
        stop \<leftarrow> decimal_to_time (time_end i);
        text \<leftarrow> insert_cr (cstr data (sub_pos i));
        Some (fmt_int 1 (int k + 1) @ crlf @ start @ wlit '' --> '' @ stop @ crlf @
              (if sub_has_offset i then wlit ''<offset='' @ fmt_int 1 (sub_offset i) @ wlit ''>'' else []) @
              text @ crlf @ crlf) })"

text \<open>The written file as 16-bit units; \<open>writable\<close> is whether \<open>_wfopen\<close> succeeds.\<close>

definition srt_save :: "bool \<Rightarrow> srt_parser \<Rightarrow> (int \<times> wstr) option" where
  "srt_save writable s =
     (if \<not> writable then Some (-1, [])
      else case srt_index s of
        None \<Rightarrow> Some (0, [0xFEFF])
      | Some idx \<Rightarrow> do {
          ts \<leftarrow> map_option_list (save_entry (srt_text s)) (enumerate 0 idx);
          Some (0, 0xFEFF # concat ts) })"

definition ass_header :: "wstr list" where
  "ass_header =
     [wlit ''[Script Info]'', wlit ''Title:DWindow'', wlit ''Original Script:DWindow'',
      wlit ''Synch Point:0'', wlit ''ScriptType:v4.00+'', wlit ''Collisions:Normal'', wlit ''PlayResX:640'',
      wlit ''PlayResY:360'', wlit ''Timer:100.0000'', [], wlit ''[V4+ Styles]'',
      wlit ''Format: Name, Fontname, Fontsize, PrimaryColour, SecondaryColour, OutlineColour, BackColour, Bold, Italic, Underline, StrikeOut, ScaleX, ScaleY, Spacing, Angle, BorderStyle, Outline, Shadow, Alignment, MarginL, MarginR, MarginV, Encoding'',
      wlit ''Style: Default,'' @ [0x5FAE, 0x8F6F, 0x96C5, 0x9ED1] @
        wlit '',25,&H00FFFFFF,&HF0000000,&H00000000,&H80000000,-1,0,0,0,100,100,0,0.00,1,1,1,2,30,30,10,134'',
      [], wlit ''[Events]'',
      wlit ''Format: Layer, Start, End, Style, Actor, MarginL, MarginR, MarginV, Effect, Text'']"

definition save_ass_entry :: "u16 list \<Rightarrow> subtitle_index \<Rightarrow> wstr option" where
  "save_ass_entry data i = do {
     start \<leftarrow> decimal_to_time_ass (time_start i);
     stop \<leftarrow> decimal_to_time_ass (time_end i);
     text \<leftarrow> (if length (cstr data (sub_pos i)) < 1024 then Some (cstr data (sub_pos i)) else None);
     (_, text) \<leftarrow> wcs_replace text crlf [10];
     (_, text) \<leftarrow> wcs_replace text [10] (wlit [CHR 0x5C, CHR ''N'']);
     Some (wlit ''Dialogue: 0,'' @ start @ wlit '','' @ stop @ wlit '',*Default,NTP,0000,0000,0000,,'' @
           text @ crlf) }"

definition save_as_ass :: "bool \<Rightarrow> srt_parser \<Rightarrow> (int \<times> wstr) option" where
  "save_as_ass writable s =
     (if \<not> writable then Some (-1, [])
      else let header = concat (map (\<lambda>h. h @ crlf) ass_header)
      in case srt_index s of
        None \<Rightarrow> Some (0, 0xFEFF # header)
      | Some idx \<Rightarrow> do {
          ts \<leftarrow> map_option_list (save_ass_entry (srt_text s)) idx;
          Some (0, 0xFEFF # header @ concat ts) })"

section \<open>Line ends\<close>

text \<open>Reference: a \<open>\r\<close> before every \<open>\n\<close> that has none, the first character excepted.\<close>

fun cr_after :: "u16 \<Rightarrow> wstr \<Rightarrow> wstr" where
  "cr_after p [] = []"
| "cr_after p (c # cs) = (if c = 10 \<and> p \<noteq> 13 then [13, 10] else [c]) @ cr_after c cs"

fun crlf_text :: "wstr \<Rightarrow> wstr" where
  "crlf_text [] = []"
| "crlf_text (c # cs) = c # cr_after c cs"

lemma cr_after_append: "cr_after p (xs @ ys) = cr_after p xs @ cr_after (last (p # xs)) ys"
  by (induction xs arbitrary: p) auto

lemma length_cr_after: "length cs \<le> length (cr_after p cs)"
  by (induction p cs rule: cr_after.induct) auto

lemma length_crlf_text: "length text \<le> length (crlf_text text)"
  by (cases "text") (simp_all add: length_cr_after)

lemma cr_after_none:
  "(\<And>j. j < length cs \<Longrightarrow> cs ! j = 10 \<Longrightarrow> (p # cs) ! j = 13) \<Longrightarrow> cr_after p cs = cs"
proof (induction p cs rule: cr_after.induct)
  case (2 p c cs)
  have "c = 10 \<Longrightarrow> p = 13" using "2.prems" [of 0] by simp
  moreover have "cr_after c cs = cs"
    using "2.prems" [of "Suc j" for j] by (intro "2.IH") simp
  ultimately show ?case by simp
qed simp

lemma crlf_text_none:
  assumes "find (bare_newline text) [1 ..< length text] = None"
  shows "crlf_text text = text"
proof (cases "text")
  case (Cons c cs)
  have "\<not> bare_newline text (Suc j)" if "j < length cs" for j
  proof -
    have "Suc j \<in> set [1 ..< length text]" using that Cons by auto
    then show ?thesis using assms unfolding find_None_iff by blast
  qed
  then have "cr_after c cs = cs"
    by (intro cr_after_none) (auto simp: bare_newline_def Cons)
  then show ?thesis using Cons by simp
qed simp

lemma crlf_text_step:
  assumes "bare_newline text j"
  shows "crlf_text (take j text @ 13 # drop j text) = crlf_text text"
proof -
  obtain c cs where t: "text = c # cs" using assms by (cases "text") (auto simp: bare_newline_def)
  obtain i where j: "j = Suc i" "i < length cs" "cs ! i = 10" "(c # cs) ! i \<noteq> 13"
    using assms by (cases j) (auto simp: bare_newline_def t)
  have d: "drop i cs = 10 # drop (Suc i) cs" using j by (metis Cons_nth_drop_Suc)
  have l: "last (c # take i cs) = (c # cs) ! i" using j(2) by (cases i) (auto simp: last_conv_nth)
  have "cr_after c cs = cr_after c (take i cs @ drop i cs)" by simp
  also have "\<dots> = cr_after c (take i cs) @ 13 # 10 # cr_after 10 (drop (Suc i) cs)"
    using l j(4) by (simp only: cr_after_append d) simp
  also have "\<dots> = cr_after c (take i cs @ 13 # drop i cs)"
    using l j(4) by (simp only: cr_after_append d) simp
  finally show ?thesis by (simp add: t j(1))
qed

text \<open>
  C16: the search that \<open>save\<close> starts again after every inserted \<open>\r\<close> ends, and the text is then the one of
  the reference, for every text that fits the buffer; the copy fails exactly when that text does not fit.
\<close>

theorem insert_cr_correct:
  "insert_cr text = (if length (crlf_text text) < 1024 then Some (crlf_text text) else None)"
proof (induction "length (crlf_text text) - length text" arbitrary: "text")
  case 0
  then have "crlf_text text = text \<or> length text \<ge> 1024 \<or> find (bare_newline text) [1 ..< length text] \<noteq> None"
    using crlf_text_none by blast
  moreover have "find (bare_newline text) [1 ..< length text] = None"
  proof (rule ccontr)
    assume "\<not> ?thesis"
    then obtain j where "find (bare_newline text) [1 ..< length text] = Some j" by auto
    then have "bare_newline text j" by (auto simp: find_Some_iff)
    then have "length (take j text @ 13 # drop j text) \<le> length (crlf_text text)"
      using length_crlf_text crlf_text_step by metis
    then show False using 0 \<open>bare_newline text j\<close> by (simp add: bare_newline_def)
  qed
  ultimately show ?case using crlf_text_none by (subst insert_cr.simps) auto
next
  case (Suc n)
  then have "crlf_text text \<noteq> text" by auto
  then obtain j where j: "find (bare_newline text) [1 ..< length text] = Some j" using crlf_text_none by fastforce
  then have b: "bare_newline text j" by (auto simp: find_Some_iff)
  have "insert_cr (take j text @ 13 # drop j text) =
      (if length (crlf_text text) < 1024 then Some (crlf_text text) else None)"
    using Suc.hyps(1) [of "take j text @ 13 # drop j text"] Suc.hyps(2) b crlf_text_step [OF b]
    by (simp add: bare_newline_def)
  then show ?case using j Suc.hyps(2) by (subst insert_cr.simps) auto
qed

section \<open>Replacing\<close>

lemma replace_shorter:
  assumes "find_sub s p = Some i" "length r < length p"
  shows "length (take 1023 (take i s @ r @ drop (i + length p) s)) < length s"
proof -
  have "length (take 1023 (take i s @ r @ drop (i + length p) s)) \<le> length (take i s @ r @ drop (i + length p) s)"
    unfolding length_take by simp
  also have "\<dots> < length s" using find_sub_Some [OF assms(1)] assms(2) by simp arith
  finally show ?thesis .
qed

lemma count_list_take: "count_list (take n xs) c \<le> count_list xs c"
  by (metis append_take_drop_id count_list_append le_add1)

lemma replace_rarer:
  assumes "find_sub s [c] = Some i" "c \<notin> set r"
  shows "count_list (take 1023 (take i s @ r @ drop (i + length [c]) s)) c < count_list s c"
proof -
  have i: "i < length s" "s ! i = c" using assms(1) by (auto simp: find_sub_char)
  have "count_list s c = count_list (take i s @ s ! i # drop (Suc i) s) c"
    using i(1) by (simp only: id_take_nth_drop [symmetric])
  then have "count_list s c = count_list (take i s) c + Suc (count_list (drop (Suc i) s) c)"
    using i(2) by simp
  moreover have "count_list (take i s @ r @ drop (i + length [c]) s) c = count_list (take i s) c + count_list (drop (Suc i) s) c"
    using assms(2) by simp
  ultimately show ?thesis
    using count_list_take [of 1023 "take i s @ r @ drop (i + length [c]) s" c] by linarith
qed

text \<open>
  \<open>wcs_replace\<close> ends, reports success, leaves no occurrence of the pattern and does not make a
  string of fewer than 1024 characters longer than that, in the two ways it is called: with a replacement
  shorter than the pattern, and with a one-character pattern that the replacement does not contain.
\<close>

theorem wcs_replace_terminates:
  assumes "length s < 1024" "length r < length p \<or> (\<exists>c. p = [c] \<and> c \<notin> set r)"
  shows "\<exists>t. wcs_replace s p r = Some (True, t) \<and> find_sub t p = None \<and> length t < 1024"
  using assms
proof (induction s rule: measure_induct_rule [of "\<lambda>s. if length r < length p then length s else count_list s (hd p)"])
  case (less s)
  show ?case
  proof (cases "find_sub s p")
    case None
    then show ?thesis using less.prems by (subst wcs_replace.simps) simp
  next
    case (Some i)
    let ?s = "take 1023 (take i s @ r @ drop (i + length p) s)"
    have "(if length r < length p then length ?s else count_list ?s (hd p)) <
        (if length r < length p then length s else count_list s (hd p))"
      using Some less.prems(2) replace_shorter [of s p i r] replace_rarer [of s "hd p" i r] by auto
    moreover have "length ?s < 1024" unfolding length_take by linarith
    moreover have "wcs_replace s p r = wcs_replace ?s p r"
      using Some less.prems(1) by (subst wcs_replace.simps) (simp del: take_append)
    ultimately show ?thesis using less.IH [OF _ _ less.prems(2), of ?s] by presburger
  qed
qed

theorem wcs_replace_terminates_witness:
  "\<exists>t. wcs_replace [65, 10, 66, 10] [10] (wlit [CHR 0x5C, CHR ''N'']) = Some (True, t) \<and>
     find_sub t [10] = None \<and> length t < 1024"
proof (rule wcs_replace_terminates)
  show "length ([65, 10, 66, 10] :: wstr) < 1024" by simp
  have "(10 :: u16) \<notin> set (wlit [CHR 0x5C, CHR ''N''])" by code_simp
  then show "length (wlit [CHR 0x5C, CHR ''N'']) < length ([10] :: wstr) \<or>
      (\<exists>c. [10] = [c] \<and> c \<notin> set (wlit [CHR 0x5C, CHR ''N'']))" by simp
qed

section \<open>The offsets\<close>

lemma low_bits: "0 \<le> uint (v AND 0x7f :: byte) \<and> uint (v AND 0x7f :: byte) < 128"
proof -
  have "v AND 0x7f = take_bit 7 v" by (simp add: take_bit_eq_mask mask_eq_exp_minus_1)
  then show ?thesis using take_bit_int_less_exp [of 7 "uint v"] by (simp add: unsigned_take_bit_eq)
qed

lemma offset_value_range: "- 128 < offset_value v" "offset_value v < 128"
proof -
  obtain n where n: "uint (v AND 0x7f) = n" "0 \<le> n" "n < 128" using low_bits [of v] by blast
  show "- 128 < offset_value v" "offset_value v < 128" using n(2,3) by (simp_all add: offset_value_def n(1))
qed

text \<open>A value stored as four bytes reads back, and a read outside a write sees the old bytes.\<close>

lemma length_int_bytes [simp]: "length (int_bytes v) = 4"
  by (simp add: int_bytes_def)

lemma four_digits:
  "x = 256 * b + a \<Longrightarrow> y = 65536 * c + x \<Longrightarrow> z = 16777216 * d + y \<Longrightarrow>
   a + 256 * (b + 256 * (c + 256 * d)) = (z :: int)"
  by simp

lemma le32_int_bytes:
  assumes "\<And>k. k < 4 \<Longrightarrow> d ! (i + k) = int_bytes v ! k"
  shows "int (le32 d i) = v mod 2 ^ 32"
proof -
  have e: "int (unat (word_of_int n :: byte)) = n mod 256" for n
    by (simp add: take_bit_eq_mod uint_word_of_int)
  have "int (le32 d i) = v mod 256 + 256 * (v div 256 mod 256 + 256 * (v div 65536 mod 256 + 256 * (v div 16777216 mod 256)))"
    using assms [of 0] assms [of 1] assms [of 2] assms [of 3]
    by (simp add: le32_def int_bytes_def e del: of_nat_unat)
  also have "\<dots> = v mod 2 ^ 32"
  proof (rule four_digits)
    show "v mod 65536 = 256 * (v div 256 mod 256) + v mod 256"
      using zmod_zmult2_eq [of 256 v 256] by simp
    show "v mod 16777216 = 65536 * (v div 65536 mod 256) + v mod 65536"
      using zmod_zmult2_eq [of 256 v 65536] by simp
    show "v mod 2 ^ 32 = 16777216 * (v div 16777216 mod 256) + v mod 16777216"
      using zmod_zmult2_eq [of 256 v 16777216] by simp
  qed
  finally show ?thesis .
qed

lemma int_at_blit_same:
  assumes "4 * i + 4 \<le> length d" "- (2 ^ 31) \<le> v" "v < 2 ^ 31"
  shows "int_at (blit d (4 * i) (int_bytes v)) i = v"
proof -
  have "int (le32 (blit d (4 * i) (int_bytes v)) (4 * i)) = v mod 2 ^ 32"
    using assms(1) by (intro le32_int_bytes) (simp add: blit_nth)
  then show ?thesis using assms(2,3) by (simp add: int_at_def wrap32_def mod_simps)
qed

lemma int_at_blit_other:
  assumes "j \<noteq> i" "4 * i + 4 \<le> length d" "4 * j + 4 \<le> length d"
  shows "int_at (blit d (4 * i) (int_bytes v)) j = int_at d j"
proof -
  have "4 * j + 4 \<le> 4 * i \<or> 4 * i + 4 \<le> 4 * j" using assms(1) by linarith
  then show ?thesis using assms(2,3) by (auto simp: int_at_def le32_def nth_blit_outside)
qed

lemma expand_offsets_above:
  "n \<le> j \<Longrightarrow> 4 * n \<le> length d \<Longrightarrow> 4 * j + 4 \<le> length d \<Longrightarrow> int_at (expand_offsets n d) j = int_at d j"
  by (induction n d rule: expand_offsets.induct) (simp_all add: int_at_blit_other)

lemma expand_offsets_nth:
  "j < n \<Longrightarrow> 4 * n \<le> length d \<Longrightarrow> int_at (expand_offsets n d) j = offset_value (d ! j)"
proof (induction n d rule: expand_offsets.induct)
  case (2 i d)
  let ?d = "blit d (4 * i) (int_bytes (offset_value (d ! i)))"
  have l: "length ?d = length d" using 2 by simp
  show ?case
  proof (cases "j = i")
    case True
    then show ?thesis
      using 2 l expand_offsets_above [of i i ?d] int_at_blit_same [of i d "offset_value (d ! i)"]
        offset_value_range [of "d ! i"] by simp
  next
    case False
    then show ?thesis using 2 l by (simp add: nth_blit_outside)
  qed
qed simp

text \<open>
  C17: the expansion of the offsets in place, which overwrites four bytes for each byte it reads, never
  overwrites one that it still has to read: every \<open>int\<close> of the result is the offset that its byte encodes.
\<close>

theorem expand_offsets_map:
  assumes "4 * n \<le> length d"
  shows "map (int_at (expand_offsets n d)) [0 ..< n] = map offset_value (take n d)"
  using assms by (intro nth_equalityI) (auto simp: expand_offsets_nth)

theorem expand_offsets_map_witness:
  "map (int_at (expand_offsets 3 ([5, 0x83, 0x7f] @ replicate 9 0))) [0 ..< 3] = [5, -3, 127]"
proof -
  have "map offset_value (take 3 ([5, 0x83, 0x7f] @ replicate 9 0)) = [5, -3, 127]" by code_simp
  then show ?thesis using expand_offsets_map [of 3 "[5, 0x83, 0x7f] @ replicate 9 0"] by simp
qed

lemma count_offsets_fold:
  "list_all (\<lambda>v. - 128 \<le> v \<and> v < 128) os \<Longrightarrow> length l = 256 \<Longrightarrow> k < 256 \<Longrightarrow>
   fold (\<lambda>v l. l[nat (v + 128) := l ! nat (v + 128) + 1]) os l ! k = l ! k + count_list os (int k - 128)"
proof (induction os arbitrary: l)
  case (Cons v os)
  let ?l = "l[nat (v + 128) := l ! nat (v + 128) + 1]"
  have v: "- 128 \<le> v" "v < 128" using Cons.prems(1) by simp_all
  then have "nat (v + 128) = k \<longleftrightarrow> v = int k - 128" by linarith
  then have "?l ! k = l ! k + (if v = int k - 128 then 1 else 0)"
    using Cons.prems(2,3) by (auto simp: nth_list_update)
  then show ?case using Cons.IH [of ?l] Cons.prems by simp
qed simp

lemma count_offsets_nth:
  "list_all (\<lambda>v. - 128 \<le> v \<and> v < 128) os \<Longrightarrow> k < 256 \<Longrightarrow> count_offsets os ! k = count_list os (int k - 128)"
  unfolding count_offsets_def by (subst count_offsets_fold) simp_all

lemma largest_fold:
  "case fold (\<lambda>j (offset, m). if l ! j > m then (int j - 128, l ! j) else (offset, m)) [0 ..< n] (0, 0 :: nat) of
     (offset, m) \<Rightarrow> (\<forall>j<n. l ! j \<le> m) \<and> (0 < m \<longrightarrow> (\<exists>j<n. offset = int j - 128 \<and> l ! j = m))"
proof (induction n)
  case (Suc n)
  then show ?case by (auto split: prod.splits simp: less_Suc_eq)
qed simp

lemma most_common_largest:
  assumes "j < 256" "0 < l ! j"
  shows "\<exists>k<256. most_common l = int k - 128 \<and> 0 < l ! k \<and> (\<forall>i<256. l ! i \<le> l ! k)"
proof -
  obtain v m where f: "fold (\<lambda>j (offset, m). if l ! j > m then (int j - 128, l ! j) else (offset, m)) [0 ..< 256] (0, 0) = (v, m)"
    by fastforce
  have "\<forall>i<256. l ! i \<le> m" "0 < m \<longrightarrow> (\<exists>k<256. v = int k - 128 \<and> l ! k = m)"
    using largest_fold [of 256 l] by (simp_all add: f)
  then show ?thesis using assms by (force simp: most_common_def f)
qed

lemma most_common_count:
  assumes "list_all (\<lambda>v. - 128 \<le> v \<and> v < 128) os" "os \<noteq> []"
  shows "most_common (count_offsets os) \<in> set os"
    "count_list os w \<le> count_list os (most_common (count_offsets os))"
proof -
  have at: "count_list os v = count_offsets os ! nat (v + 128) \<and> nat (v + 128) < 256" if "v \<in> set os" for v
    using that assms(1) count_offsets_nth [OF assms(1), of "nat (v + 128)"] by (auto simp: list_all_iff)
  have "hd os \<in> set os" using assms(2) by simp
  with at have h: "nat (hd os + 128) < 256" "0 < count_offsets os ! nat (hd os + 128)"
    by (metis count_list_0_iff gr0I)+
  from most_common_largest [OF h] obtain k where k: "k < 256" "most_common (count_offsets os) = int k - 128"
    "0 < count_offsets os ! k" "\<forall>i<256. count_offsets os ! i \<le> count_offsets os ! k" by blast
  have ck: "count_offsets os ! k = count_list os (most_common (count_offsets os))"
    using count_offsets_nth [OF assms(1) k(1)] k(2) by simp
  show "most_common (count_offsets os) \<in> set os" using k(3) ck by (metis count_list_0_iff less_irrefl)
  show "count_list os w \<le> count_list os (most_common (count_offsets os))"
    using at [of w] k(4) ck by (cases "w \<in> set os") (auto simp: count_list_0_iff)
qed

text \<open>
  the offset that a subtitle gets is one that occurs most often among the encoded offsets of the
  frames it is shown on.
\<close>

theorem set_offset_most_common:
  assumes "4 * n \<le> length d" "frame_of (time_start i) fps = int a" "frame_of (time_end i) fps = int b" "a \<le> b" "b < n"
  shows "\<exists>v. set_offset fps n (expand_offsets n d) i = Some (i\<lparr>sub_has_offset := True, sub_offset := v\<rparr>) \<and>
    v \<in> set (map offset_value (slice a (b + 1 - a) d)) \<and>
    (\<forall>w. count_list (map offset_value (slice a (b + 1 - a) d)) w \<le>
         count_list (map offset_value (slice a (b + 1 - a) d)) v)"
proof -
  let ?os = "map offset_value (slice a (b + 1 - a) d)"
  have os: "map (int_at (expand_offsets n d)) [a ..< b + 1] = ?os"
    using assms by (intro nth_equalityI) (auto simp: expand_offsets_nth slice_nth simp del: upt_Suc)
  have "?os \<noteq> []" using assms by (simp add: slice_def)
  moreover have "- 128 \<le> offset_value v \<and> offset_value v < 128" for v
    using offset_value_range [of v] by simp
  then have "list_all (\<lambda>v. - 128 \<le> v \<and> v < 128) ?os" by (auto simp: list_all_iff)
  moreover have "nat (int b + 1) = b + 1" by simp
  then have "set_offset fps n (expand_offsets n d) i =
      Some (i\<lparr>sub_has_offset := True, sub_offset := most_common (count_offsets ?os)\<rparr>)"
    using assms(2-5) os by (simp add: set_offset_def del: upt_Suc)
  ultimately show ?thesis using most_common_count [of ?os] by blast
qed

theorem set_offset_most_common_witness:
  "\<exists>v. set_offset 24 3 (expand_offsets 3 ([5, 0x83, 0x83] @ replicate 9 0))
         \<lparr>time_start = 0, time_end = 90, sub_pos = 0, sub_offset = 0, sub_has_offset = False\<rparr> =
       Some \<lparr>time_start = 0, time_end = 90, sub_pos = 0, sub_offset = v, sub_has_offset = True\<rparr> \<and> v \<in> {5, -3}"
proof -
  let ?i = "\<lparr>time_start = 0, time_end = 90, sub_pos = 0, sub_offset = 0, sub_has_offset = False\<rparr>"
  have 1: "frame_of (time_start ?i) 24 = int 0" "frame_of (time_end ?i) 24 = int 2" by code_simp+
  have 2: "set (map offset_value (slice 0 (2 + 1 - 0) ([5, 0x83, 0x83] @ replicate 9 0))) = {5, -3}" by code_simp
  show ?thesis
    using set_offset_most_common [of 3 "[5, 0x83, 0x83] @ replicate 9 0" ?i 24 0 2] 1
    unfolding 2 by auto
qed

end
