(* ===== verification/Interlacer.thy ===== *)
theory Interlacer
  imports FileBuffer SrtFiles "HOL-Library.Code_Target_Nat"
begin

text \<open>
  The stream splitter of \<open>mvc_interlacer/interlacer.cpp\<close>: NAL units of an H.264/MVC byte stream are read
  from a \<open>CFileBuffer\<close> that another thread fills, joined to access units, and the depth offsets in SEI
  messages are written to an offset file (\<open>main3\<close>), the format that \<open>srt_parser\<close> loads.
\<close>

section \<open>NAL units\<close>

definition max_nal_size :: nat where
  "max_nal_size = 1024000 * 5"

text \<open>The type and the start code length, when it is written; \<open>d\<close> is the memory from the read position.\<close>

definition nal_type :: "byte list \<Rightarrow> (int \<times> nat option) option" where
  "nal_type d = do {
     d2 \<leftarrow> rd d 2;
     four \<leftarrow> (if d2 = 0 then map_option (\<lambda>c. c = 1) (rd d 3) else Some False);
     if four then map_option (\<lambda>c. (uint (c AND 0x1f), Some 4)) (rd d 4)
     else do {
       d1 \<leftarrow> rd d 1;
       if d1 = 0 \<and> d2 = 1 then map_option (\<lambda>c. (uint (c AND 0x1f), Some 3)) (rd d 3) else Some (-1, None) } }"

text \<open>The test for a start code, with its lazy reads.\<close>

definition start_code_at :: "byte list \<Rightarrow> bool option" where
  "start_code_at d = do {
     d0 \<leftarrow> rd d 0;
     if d0 \<noteq> 0 then Some False
     else do {
       d1 \<leftarrow> rd d 1;
       if d1 \<noteq> 0 then Some False
       else do {
         d2 \<leftarrow> rd d 2;
         if d2 = 0 then map_option (\<lambda>c. c = 1) (rd d 3) else Some (d2 = 1) } } }"

text \<open>The loop over \<open>i\<close>; \<open>d\<close> is the memory from \<open>read_buffer + i\<close>.\<close>

fun find_start :: "nat \<Rightarrow> nat \<Rightarrow> byte list \<Rightarrow> nat option option" where
  "find_start i limit [] = (if i < limit then None else Some None)"
| "find_start i limit (b # d) =
     (if i < limit
      then case start_code_at (b # d) of
             None \<Rightarrow> None
           | Some True \<Rightarrow> Some (Some i)
           | Some False \<Rightarrow> find_start (Suc i) limit d
      else Some None)"

definition memory :: "file_buffer \<Rightarrow> byte list" where
  "memory fb = drop (fb_data_start fb) (fb_the_buffer fb)"

text \<open>\<open>data_read - 3\<close> is computed as an \<open>unsigned int\<close>.\<close>

definition read_a_nal :: "file_buffer \<Rightarrow> (nat \<times> file_buffer) option attempt" where
  "read_a_nal fb =
     (case wait_for_data max_nal_size fb of
        Retry \<Rightarrow> Retry
      | Done (data_read, fb) \<Rightarrow>
          Done (if data_read = 0 then Some (0, fb)
                else case find_start 3 (unat (word_of_nat data_read - 3 :: u32)) (drop 3 (memory fb)) of
                       None \<Rightarrow> None
                     | Some r \<Rightarrow> Some (case r of None \<Rightarrow> data_read | Some i \<Rightarrow> i, fb)))"

section \<open>Offsets in SEI messages\<close>

text \<open>A number coded as a run of \<open>0xff\<close> bytes and a last byte; the rest of the memory is returned.\<close>

fun ff_sum :: "nat \<Rightarrow> byte list \<Rightarrow> (nat \<times> byte list) option" where
  "ff_sum acc [] = None"
| "ff_sum acc (b # d) = (if b = 0xff then ff_sum (acc + 255) d else Some (acc + unat b, d))"

text \<open>The points of a metadata block at \<open>data\<close>, which is \<open>pos\<close> bytes behind the read position.\<close>

fun read_points :: "nat \<Rightarrow> nat \<Rightarrow> nat \<Rightarrow> byte list \<Rightarrow> int list option" where
  "read_points 0 pos nal_size data = Some []"
| "read_points (Suc n) pos nal_size data =
     (if pos > nal_size then Some []
      else case data of
        [] \<Rightarrow> None
      | b # rest \<Rightarrow> map_option ((#) (offset_value b)) (read_points n (pos + 1) nal_size rest))"

text \<open>The outer result is a read outside the memory, the inner one that there is no offset metadata.\<close>

definition parse_sei :: "nat \<Rightarrow> nat \<Rightarrow> byte list \<Rightarrow> int list option option" where
  "parse_sei start_code_len nal_size mem = do {
     (sei_type, d) \<leftarrow> ff_sum 0 (drop (start_code_len + 1) mem);
     (sei_size, d) \<leftarrow> ff_sum 0 d;
     if sei_type \<noteq> 37 \<or> sei_size \<le> 3 + 30 then Some None
     else do {
       b \<leftarrow> rd d 0;
       if drop_bit 7 b \<noteq> 0 then Some None
       else do {
         (nest_size, e) \<leftarrow> ff_sum 0 (drop 2 d);
         if nest_size \<le> 30 then Some None
         else if (length mem - length d) + nest_size > nal_size then Some None
         else do {
           point_count \<leftarrow> rd e 27;
           _ \<leftarrow> rd e 29;
           points \<leftarrow> read_points (min (unat point_count) 128) (length mem - length e + 30) nal_size (drop 30 e);
           Some (Some points) } } } }"

section \<open>Access units\<close>

text \<open>The globals that the loop sets; \<open>offset_metadata\<close> has 128 entries.\<close>

record nal_globals =
  n_slice :: nat
  is_idr :: bool
  offset_metadata :: "int list"
  offset_metadata_count :: int
  nal_type_found :: "nat list"

text \<open>What the feeding thread does while this one runs or waits: insert bytes, end, or nothing.\<close>

datatype feed = Feed "byte list" | Feed_end | Feed_none

fun apply_feed :: "feed \<Rightarrow> file_buffer \<Rightarrow> byte list \<times> file_buffer" where
  "apply_feed (Feed bs) fb = (case put_op bs fb of None \<Rightarrow> ([], fb) | Some fb' \<Rightarrow> (bs, fb'))"
| "apply_feed Feed_end fb = ([], fb\<lparr>fb_no_more_data := True\<rparr>)"
| "apply_feed Feed_none fb = ([], fb)"

text \<open>\<open>Fault\<close> is an access outside a buffer, \<open>Waiting\<close> that the thread still waits or runs.\<close>

datatype 'a outcome = Fault | Waiting | Finished 'a

definition note_nal :: "int \<Rightarrow> nal_globals \<Rightarrow> nal_globals" where
  "note_nal t g =
     g\<lparr>n_slice := n_slice g + (if (1 \<le> t \<and> t \<le> 5) \<or> t = 20 then 1 else 0),
       is_idr := is_idr g \<or> t = 5,
       nal_type_found := (if t = 0x18 then (nal_type_found g)[0x18 := nal_type_found g ! 0x18 + 1] else nal_type_found g)\<rparr>"

definition note_sei :: "int \<Rightarrow> nat \<Rightarrow> nat \<Rightarrow> byte list \<Rightarrow> nal_globals \<Rightarrow> nal_globals option" where
  "note_sei t scl nal_size mem g =
     (if t = 6
      then case parse_sei scl nal_size mem of
             None \<Rightarrow> None
           | Some None \<Rightarrow> Some g
           | Some (Some points) \<Rightarrow> Some (g\<lparr>offset_metadata := blit (offset_metadata g) 0 points,
                                         offset_metadata_count := int (length points)\<rparr>)
      else Some g)"

text \<open>A start code of three bytes becomes one of four.\<close>

definition append_nal :: "byte list \<Rightarrow> byte list \<Rightarrow> nat \<Rightarrow> byte list option" where
  "append_nal out mem nal_size = do {
     d2 \<leftarrow> rd mem 2;
     let out = out @ (if d2 = 1 then [0] else []) @ take nal_size mem;
     if nal_size \<le> length mem \<and> length out \<le> max_nal_size then Some out else None }"

text \<open>
  The loop of \<open>read_a_delimeter\<close> over what the feeding thread does before each look at the buffer: \<open>out\<close>
  are the bytes in \<open>delimeter_buffer\<close>; the bytes that arrived are the last component of the result.
\<close>

fun delimeter_loop ::
  "feed list \<Rightarrow> bool \<Rightarrow> byte list \<Rightarrow> nal_globals \<Rightarrow> byte list \<Rightarrow> file_buffer \<Rightarrow>
   (byte list \<times> nal_globals \<times> file_buffer \<times> byte list) outcome" where
  "delimeter_loop [] current_start out g fed fb = Waiting"
| "delimeter_loop (f # fs) current_start out g fed fb =
     (case apply_feed f fb of
        (bs, fb) \<Rightarrow>
          (case read_a_nal fb of
             Retry \<Rightarrow> delimeter_loop fs current_start out g (fed @ bs) fb
           | Done None \<Rightarrow> Fault
           | Done (Some (nal_size, fb)) \<Rightarrow>
               (case nal_type (memory fb) of
                  None \<Rightarrow> Fault
                | Some (t, scl) \<Rightarrow>
                    (case note_sei t (case scl of None \<Rightarrow> 4 | Some l \<Rightarrow> l) nal_size (memory fb) g of
                       None \<Rightarrow> Fault
                     | Some g \<Rightarrow>
                         if t = 31
                         then delimeter_loop fs current_start out (note_nal t g) (fed @ bs) (remove_data nal_size fb)
                         else if nal_size = 0 \<or> ((t = 9 \<or> t = 0x18) \<and> current_start)
                         then Finished (out, note_nal t g, fb, fed @ bs)
                         else case append_nal out (memory fb) nal_size of
                                None \<Rightarrow> Fault
                              | Some out \<Rightarrow>
                                  delimeter_loop fs (current_start \<or> t = 9 \<or> t = 0x18) out (note_nal t g)
                                    (fed @ bs) (remove_data nal_size fb)))))"

definition read_a_delimeter ::
  "feed list \<Rightarrow> nal_globals \<Rightarrow> file_buffer \<Rightarrow> (byte list \<times> nal_globals \<times> file_buffer \<times> byte list) outcome" where
  "read_a_delimeter fs g fb = delimeter_loop fs False [] (g\<lparr>is_idr := False, n_slice := 0\<rparr>) [] fb"

text \<open>
  \<open>feeder_thread\<close> on a raw stream.  When the file cannot be opened, the end of the data is not announced
  either.
\<close>

function chunks :: "nat \<Rightarrow> 'a list \<Rightarrow> 'a list list" where
  "chunks n xs = (if n = 0 \<or> xs = [] then [] else take n xs # chunks n (drop n xs))"
  by pat_completeness auto
termination
  by (relation "measure (\<lambda>(n, xs). length xs)") auto

declare chunks.simps [simp del]

definition feeder_thread :: "byte list option \<Rightarrow> feed list" where
  "feeder_thread file = (case file of None \<Rightarrow> [] | Some f \<Rightarrow> map Feed (chunks 102400 f) @ [Feed_end])"

section \<open>The muxed file\<close>

definition watermark :: "byte list" where
  "watermark = [0, 0, 0, 1, 31] @ map of_char (''my12doom'' @ [CHR 0x27] @ ''s mvc interlacer.'')"

text \<open>
  The loop of \<open>main\<close>: access units, each with a watermark behind it, collected in a buffer that is
  written when it holds \<open>max_nal_size * 2\<close> bytes.
\<close>

fun mux_loop :: "feed list list \<Rightarrow> nal_globals \<Rightarrow> file_buffer \<Rightarrow> byte list \<Rightarrow> byte list \<Rightarrow> byte list outcome" where
  "mux_loop [] g fb out_buffer file = Waiting"
| "mux_loop (fs # fss) g fb out_buffer file =
     (case read_a_delimeter fs g fb of
        Fault \<Rightarrow> Fault
      | Waiting \<Rightarrow> Waiting
      | Finished (unit, g, fb, _) \<Rightarrow>
          (let out_buffer = out_buffer @ unit @ watermark;
               (out_buffer, file) = (if length out_buffer \<ge> max_nal_size * 2 then ([], file @ out_buffer)
                                     else (out_buffer, file))
           in if unit = [] then Finished (file @ out_buffer) else mux_loop fss g fb out_buffer file))"

section \<open>The offset file\<close>

text \<open>The byte of one frame, and the count that is taken down without moving the array.\<close>

definition frame_byte :: "nal_globals \<Rightarrow> byte" where
  "frame_byte g =
     (if offset_metadata_count g > 0
      then (let o0 = offset_metadata g ! 0
            in if o0 \<ge> 0 then word_of_int o0 else word_of_int (- o0) OR 0x80)
      else 0x80)"

definition le32_bytes :: "nat \<Rightarrow> byte list" where
  "le32_bytes n = int_bytes (int n)"

text \<open>The file after frame \<open>n\<close>: the header is written over the start, the byte at the end.\<close>

definition offset_header :: "nat \<Rightarrow> byte list" where
  "offset_header n =
     [0x6f, 0x66, 0x66, 0x73] @ le32_bytes 0 @ le32_bytes (n + 1) @ le32_bytes 24000 @ le32_bytes 1001"

definition write_frame :: "nat \<Rightarrow> nal_globals \<Rightarrow> byte list \<Rightarrow> nal_globals \<times> byte list" where
  "write_frame n g file =
     (g\<lparr>offset_metadata_count := offset_metadata_count g - 1\<rparr>, blit file 0 (offset_header n) @ [frame_byte g])"

text \<open>
  \<open>main3\<close>: access units until an empty one; each call of \<open>read_a_delimeter\<close> has its own feeding schedule.
\<close>

fun offset_loop :: "feed list list \<Rightarrow> nat \<Rightarrow> nal_globals \<Rightarrow> file_buffer \<Rightarrow> byte list \<Rightarrow> byte list outcome" where
  "offset_loop [] n g fb file = Waiting"
| "offset_loop (fs # fss) n g fb file =
     (case read_a_delimeter fs g fb of
        Fault \<Rightarrow> Fault
      | Waiting \<Rightarrow> Waiting
      | Finished (out, g, fb, _) \<Rightarrow>
          if out = [] then Finished file
          else (case write_frame n g file of (g, file) \<Rightarrow> offset_loop fss (n + 1) g fb file))"

section \<open>Splitting the stream\<close>

lemma find_start_Some:
  "find_start i limit d = Some (Some k) \<Longrightarrow>
   i \<le> k \<and> k < limit \<and> start_code_at (drop (k - i) d) = Some True \<and>
   (\<forall>j. i \<le> j \<and> j < k \<longrightarrow> start_code_at (drop (j - i) d) = Some False)"
proof (induction i limit d rule: find_start.induct)
  case (2 i limit b d)
  show ?case
  proof (cases "start_code_at (b # d) = Some True")
    case True
    then show ?thesis using "2.prems" by (auto split: if_splits)
  next
    case False
    then have f: "start_code_at (b # d) = Some False" "i < limit" "find_start (Suc i) limit d = Some (Some k)"
      using "2.prems" by (auto split: if_splits option.splits bool.splits)
    note ih = "2.IH" [OF f(2,1) refl f(3)]
    have d: "drop (j - i) (b # d) = drop (j - Suc i) d" if "i < j" for j
      using that by (simp add: drop_Cons' Suc_diff_Suc)
    show ?thesis
      using ih f(1) d by (auto simp: Suc_le_eq) (metis drop0 diff_self_eq_0 le_neq_implies_less)
  qed
qed (auto split: if_splits)

lemma find_start_None:
  "find_start i limit d = Some None \<Longrightarrow> i \<le> j \<Longrightarrow> j < limit \<Longrightarrow> start_code_at (drop (j - i) d) = Some False"
proof (induction i limit d arbitrary: j rule: find_start.induct)
  case (2 i limit b d)
  have f: "start_code_at (b # d) = Some False" "i < limit" "find_start (Suc i) limit d = Some None"
    using "2.prems" by (auto split: if_splits option.splits bool.splits)
  show ?case
  proof (cases "j = i")
    case False
    then have "j - i = Suc (j - Suc i)" using "2.prems"(2) by linarith
    then have "drop (j - i) (b # d) = drop (j - Suc i) d" by simp
    then show ?thesis using "2.IH" [OF f(2,1) refl f(3), of j] False "2.prems"(2,3) by simp
  qed (simp add: f)
qed (auto split: if_splits)

definition starts_nal :: "byte list \<Rightarrow> bool" where
  "starts_nal d \<longleftrightarrow> is_prefix_of [0, 0, 1] d \<or> is_prefix_of [0, 0, 0, 1] d"

lemma start_code_at_four: "start_code_at (a # b # c # d # r) = Some (starts_nal (a # b # c # d # r))"
proof -
  have r: "rd (a # b # c # d # r) 0 = Some a" "rd (a # b # c # d # r) 1 = Some b"
    "rd (a # b # c # d # r) 2 = Some c" "rd (a # b # c # d # r) 3 = Some d"
    by (simp_all add: rd_def)
  show ?thesis unfolding start_code_at_def r by (auto simp: starts_nal_def)
qed

lemma start_code_at_take:
  assumes "4 \<le> length d" "4 \<le> m"
  shows "start_code_at d = Some (starts_nal (take m d))"
proof -
  obtain a b c e r where d: "d = a # b # c # e # r"
    using assms(1) by (auto simp: Suc_le_length_iff numeral_eq_Suc)
  have "take m d = a # b # c # e # take (m - 4) r" using assms(2) by (simp add: d take_Cons' numeral_eq_Suc)
  then show ?thesis by (simp add: d start_code_at_four starts_nal_def)
qed

lemma max_nal_size_small: "max_nal_size < 2 ^ 32"
  by (simp add: max_nal_size_def)

lemma limit_value: "3 \<le> n \<Longrightarrow> n < 2 ^ 32 \<Longrightarrow> unat (word_of_nat n - 3 :: u32) = n - 3"
  by (simp add: unat_sub_if_size unat_of_nat word_size unsigned_of_nat take_bit_nat_eq_self)

lemma read_a_nal_next:
  assumes "fb_inv fb" "read_a_nal fb = Done (Some (k, fb'))"
    "d = take max_nal_size (contents fb)" "d = [] \<or> 3 \<le> length d"
  shows "contents fb' = contents fb \<and> k \<le> length d \<and> (k = length d \<or> 3 \<le> k \<and> starts_nal (drop k d)) \<and>
    list_all (\<lambda>j. \<not> starts_nal (drop j d)) [3 ..< min k (length d - 3)]"
proof -
  obtain m fb1 where w: "wait_for_data max_nal_size fb = Done (m, fb1)"
    using assms(2) by (auto simp: read_a_nal_def split: attempt.splits)
  note wd = wait_data [OF assms(1) w]
  have d: "d = take m (memory fb1)" "m = length d" "m \<le> length (memory fb1)" "m < 2 ^ 32"
  proof -
    have m: "m = min max_nal_size (fb_data_size fb)" using wd by blast
    show "m < 2 ^ 32" using m max_nal_size_small by linarith
    show "m = length d" using m assms(3) by simp
    show "m \<le> length (memory fb1)" using wd fb_invD(1) [of fb1] by (auto simp: memory_def)
    have "take m (memory fb1) = take m (contents fb)" using wd by (auto simp: slice_def memory_def)
    then show "d = take m (memory fb1)" using assms(3) m by (simp add: min_def)
  qed
  show ?thesis
  proof (cases "m = 0")
    case True
    then have "k = 0" "fb' = fb1" using assms(2) by (auto simp: read_a_nal_def w)
    moreover have "length d = 0" using d(2) True by simp
    ultimately show ?thesis using wd by simp
  next
    case False
    then have m: "3 \<le> m" using assms(4) d(2) by auto
    obtain r where r: "find_start 3 (m - 3) (drop 3 (memory fb1)) = Some r" "fb' = fb1"
      "k = (case r of None \<Rightarrow> m | Some i \<Rightarrow> i)"
      using assms(2) False limit_value [OF m d(4)] by (auto simp: read_a_nal_def w split: option.splits)
    have at: "start_code_at (drop (j - 3) (drop 3 (memory fb1))) = Some (starts_nal (drop j d))"
      if "3 \<le> j" "j < m - 3" for j
    proof -
      have "drop j d = take (m - j) (drop j (memory fb1))" using d(1) drop_take by metis
      then show ?thesis using that d(3) start_code_at_take [of "drop j (memory fb1)" "m - j"] by simp
    qed
    have keep: "contents fb' = contents fb" using wd r(2) by simp
    show ?thesis
    proof (cases r)
      case None
      have "\<not> starts_nal (drop j d)" if "3 \<le> j" "j < m - 3" for j
        using find_start_None [OF r(1) [unfolded None] that] at [OF that] by simp
      then show ?thesis using keep r(3) None d(2) by (simp add: list_all_iff)
    next
      case (Some i)
      note f = find_start_Some [OF r(1) [unfolded Some]]
      have k: "k = i" "3 \<le> i" "i < m - 3" using f r(3) Some by simp_all
      have "Some (starts_nal (drop i d)) = Some True" using f at [OF k(2,3)] by argo
      then have "starts_nal (drop i d)" by simp
      moreover have "\<not> starts_nal (drop j d)" if "3 \<le> j" "j < i" for j
        using f that at [of j] k(3) by simp
      moreover have "i \<le> length d" using k(3) d(2) by linarith
      ultimately show ?thesis using keep k by (simp add: list_all_iff)
    qed
  qed
qed

text \<open>
  C19: \<open>read_a_nal\<close> consumes nothing and returns where the next NAL unit starts: with the next
  \<open>max_nal_size\<close> bytes of the stream, if there are any at least three, the returned size is that of all of
  them or the position of a start code, and no start code stands between the third byte and there, unless
  in the last three bytes.
\<close>

theorem read_a_nal_boundary:
  assumes "fb_inv fb" "read_a_nal fb = Done (Some (k, fb'))"
    "d = take max_nal_size (contents fb)" "d = [] \<or> 3 \<le> length d"
  shows "contents fb' = contents fb \<and> k \<le> length d \<and> (k = length d \<or> 3 \<le> k \<and> starts_nal (drop k d)) \<and>
    list_all (\<lambda>j. \<not> starts_nal (drop j d)) [3 ..< min k (length d - 3)]"
  by (rule read_a_nal_next [OF assms])

definition stream_buffer :: file_buffer where
  "stream_buffer =
     \<lparr>fb_the_buffer = [0, 0, 1, 9, 0x10, 0, 0, 1, 0x65, 0x88, 0x84], fb_buffer_size = 11, fb_data_size = 11,
      fb_data_start = 0, fb_no_more_data = True, fb_no_more_remove = False\<rparr>"

theorem read_a_nal_boundary_witness:
  "\<exists>fb'. read_a_nal stream_buffer = Done (Some (5, fb')) \<and> starts_nal (drop 5 (contents stream_buffer))"
proof -
  have i: "fb_inv stream_buffer" by (simp add: fb_inv_def stream_buffer_def)
  have l: "length (contents stream_buffer) = 11" by (simp add: stream_buffer_def)
  have m: "11 \<le> max_nal_size" by (simp add: max_nal_size_def)
  have t: "take max_nal_size (contents stream_buffer) = contents stream_buffer" using l m by simp
  have "resort stream_buffer = stream_buffer" by code_simp
  then have w: "wait_for_data max_nal_size stream_buffer = Done (11, stream_buffer)"
    using m by (simp add: wait_for_data_def) (simp add: stream_buffer_def)
  have "find_start 3 (unat (word_of_nat 11 - 3 :: u32)) (drop 3 (memory stream_buffer)) = Some (Some 5)" by code_simp
  then have r: "read_a_nal stream_buffer = Done (Some (5, stream_buffer))"
    by (simp add: read_a_nal_def w)
  show ?thesis using read_a_nal_boundary [OF i r refl] r l unfolding t by simp
qed

section \<open>The stream through the splitter\<close>

text \<open>
  A unit that was consumed: the memory from its start, its size and the number of bytes in view.  It takes
  its bytes from the stream and, unless it is a watermark, writes them with a four-byte start code.
\<close>

type_synonym nal = "byte list \<times> nat \<times> nat"

definition nal_taken :: "nal \<Rightarrow> byte list" where
  "nal_taken = (\<lambda>(mem, k, a). take (min k a) mem)"

definition nal_written :: "nal \<Rightarrow> byte list" where
  "nal_written = (\<lambda>(mem, k, a).
     if map_option fst (nal_type mem) = Some 31 then [] else (if mem ! 2 = 1 then [0] else []) @ take k mem)"

definition nal_in_view :: "nal \<Rightarrow> bool" where
  "nal_in_view = (\<lambda>(mem, k, a). k \<le> a \<or> a < 3)"

lemma read_a_nal_view:
  assumes "fb_ok fb" "read_a_nal fb = Done (Some (k, fb'))"
  shows "fb_ok fb' \<and> contents fb' = contents fb \<and>
    (\<exists>a. a \<le> fb_data_size fb \<and> take a (memory fb') = take a (contents fb) \<and> (k \<le> a \<or> a < 3 \<and> a = fb_data_size fb))"
proof -
  obtain m fb1 where w: "wait_for_data max_nal_size fb = Done (m, fb1)"
    using assms(2) by (auto simp: read_a_nal_def split: attempt.splits)
  have inv: "fb_inv fb" "\<not> fb_no_more_remove fb" using assms(1) by (simp_all add: fb_ok_def)
  note wd = wait_data [OF inv(1) w]
  have fb': "fb' = fb1" using assms(2) by (auto simp: read_a_nal_def w split: if_splits option.splits)
  have m: "m = min max_nal_size (fb_data_size fb)" using wd by blast
  have "take m (memory fb') = take m (contents fb)" using wd fb' by (auto simp: slice_def memory_def)
  moreover have "k \<le> m \<or> m < 3"
  proof (cases "3 \<le> m")
    case True
    let ?d = "take max_nal_size (contents fb)"
    have d: "length ?d = m" using m by simp
    then have "?d = [] \<or> 3 \<le> length ?d" using True by simp
    from read_a_nal_next [OF inv(1) assms(2) refl this] have "k \<le> length ?d" by blast
    then show ?thesis unfolding d by (rule disjI1)
  qed simp
  moreover have "m < 3 \<Longrightarrow> m = fb_data_size fb" using m by (simp add: min_def max_nal_size_def split: if_splits)
  moreover have "m \<le> fb_data_size fb" using m by simp
  moreover have "fb_ok fb'" using wd fb' wait_no_more_remove [OF inv(1) w] inv(2) by (simp add: fb_ok_def)
  ultimately show ?thesis using wd fb' by blast
qed

lemma apply_feed_ok:
  "apply_feed f fb = (bs, fb') \<Longrightarrow> fb_ok fb \<Longrightarrow> fb_ok fb' \<and> contents fb' = contents fb @ bs"
proof (cases f)
  case Feed_end
  then show "apply_feed f fb = (bs, fb') \<Longrightarrow> fb_ok fb \<Longrightarrow> ?thesis"
    by (auto simp: fb_ok_def fb_inv_def contents_def)
qed (auto split: option.splits dest: fb_ok_put)

text \<open>One unit leaves the buffer.\<close>

lemma take_unit:
  assumes "fb_ok fb" "take a (memory fb) = take a (contents fb)" "k \<le> a \<or> a = fb_data_size fb" "a \<le> fb_data_size fb"
  shows "fb_ok (remove_data k fb) \<and> contents fb = nal_taken (memory fb, k, a) @ contents (remove_data k fb)"
proof -
  have "take k (contents fb) = take (min k a) (contents fb)" using assms(3) by (auto simp: min_def)
  also have "\<dots> = take (min k a) (memory fb)" using assms(2) by (metis min.commute take_take)
  finally have "contents fb = take (min k a) (memory fb) @ drop k (contents fb)" by (metis append_take_drop_id)
  then show ?thesis
    using remove_data_contents [of fb k] assms(1) by (simp add: fb_ok_def nal_taken_def)
qed

lemma delimeter_loop_stream:
  "delimeter_loop fs cs out g fed fb = Finished (out', g', fb', fed') \<Longrightarrow> fb_ok fb \<Longrightarrow>
   \<exists>nals more. fed' = fed @ more \<and> contents fb @ more = concat (map nal_taken nals) @ contents fb' \<and>
     out' = out @ concat (map nal_written nals) \<and> fb_ok fb' \<and> list_all nal_in_view nals"
proof (induction fs arbitrary: cs out g fed fb)
  case (Cons f fs)
  obtain bs fb0 where f: "apply_feed f fb = (bs, fb0)" by fastforce
  note fb0 = apply_feed_ok [OF f Cons.prems(2)]
  show ?case
  proof (cases "read_a_nal fb0")
    case Retry
    then have "delimeter_loop fs cs out g (fed @ bs) fb0 = Finished (out', g', fb', fed')"
      using Cons.prems(1) f by simp
    from Cons.IH [OF this] fb0 obtain nals more where
      "fed' = (fed @ bs) @ more" "contents fb0 @ more = concat (map nal_taken nals) @ contents fb'"
      "out' = out @ concat (map nal_written nals)" "fb_ok fb'" "list_all nal_in_view nals" by blast
    then show ?thesis using fb0 by (intro exI [of _ nals] exI [of _ "bs @ more"]) simp
  next
    case (Done r)
    then obtain k fb1 where r: "read_a_nal fb0 = Done (Some (k, fb1))"
      using Cons.prems(1) f by (cases r) auto
    from read_a_nal_view [OF conjunct1 [OF fb0] r] obtain a where
      fb1: "fb_ok fb1" "contents fb1 = contents fb0" "a \<le> fb_data_size fb0"
      "take a (memory fb1) = take a (contents fb0)" "k \<le> a \<or> a < 3 \<and> a = fb_data_size fb0" by blast
    have sz: "fb_data_size fb1 = fb_data_size fb0" using arg_cong [OF fb1(2), of length] by simp
    obtain t scl where t: "nal_type (memory fb1) = Some (t, scl)"
      using Cons.prems(1) f r by (auto split: option.splits)
    obtain g1 where g1: "note_sei t (case scl of None \<Rightarrow> 4 | Some l \<Rightarrow> l) k (memory fb1) g = Some g1"
      using Cons.prems(1) f r t by (auto split: option.splits)
    let ?n = "(memory fb1, k, a)"
    have u: "fb_ok (remove_data k fb1) \<and> contents fb1 = nal_taken ?n @ contents (remove_data k fb1)"
      using fb1 sz by (intro take_unit) auto
    have v: "nal_in_view ?n" using fb1(5) by (auto simp: nal_in_view_def)
    have step: ?thesis
      if "delimeter_loop fs cs1 out1 g2 (fed @ bs) (remove_data k fb1) = Finished (out', g', fb', fed')"
        "out1 = out @ nal_written ?n" for cs1 out1 g2
    proof -
      from Cons.IH [OF that(1)] u obtain nals more where
        "fed' = (fed @ bs) @ more" "contents (remove_data k fb1) @ more = concat (map nal_taken nals) @ contents fb'"
        "out' = out1 @ concat (map nal_written nals)" "fb_ok fb'" "list_all nal_in_view nals" by blast
      moreover have "contents fb @ bs @ more = nal_taken ?n @ contents (remove_data k fb1) @ more"
        using u fb0 fb1(2) by (metis append_assoc)
      ultimately show ?thesis using v that(2)
        by (intro exI [of _ "?n # nals"] exI [of _ "bs @ more"]) simp
    qed
    show ?thesis
    proof (cases "t = 31")
      case True
      then show ?thesis using Cons.prems(1) f r t g1 by (intro step) (auto simp: nal_written_def)
    next
      case False
      show ?thesis
      proof (cases "k = 0 \<or> ((t = 9 \<or> t = 0x18) \<and> cs)")
        case True
        then have "out' = out" "fb' = fb1" "fed' = fed @ bs" using Cons.prems(1) f r t g1 False by auto
        then show ?thesis using fb0 fb1 by (intro exI [of _ "[]"] exI [of _ bs]) simp
      next
        case n: False
        obtain out1 where o: "append_nal out (memory fb1) k = Some out1"
          using Cons.prems(1) f r t g1 False n by (auto split: option.splits)
        have "out1 = out @ nal_written ?n"
          using o t False by (auto simp: append_nal_def nal_written_def Let_def rd_eq_Some_iff split: bind_splits if_splits)
        then show ?thesis using Cons.prems(1) f r t g1 False n o by (intro step) auto
      qed
    qed
  qed
qed simp


definition no_globals :: nal_globals where
  "no_globals =
     \<lparr>n_slice = 0, is_idr = False, offset_metadata = replicate 128 0, offset_metadata_count = 0,
      nal_type_found = replicate 255 0\<rparr>"

definition split_all :: "(byte list \<times> byte list \<times> byte list) outcome" where
  "split_all =
     (case read_a_delimeter (replicate 4 Feed_none) no_globals stream_buffer of
        Fault \<Rightarrow> Fault | Waiting \<Rightarrow> Waiting | Finished (out, g, fb, a) \<Rightarrow> Finished (out, contents fb, a))"


section \<open>The offset file\<close>

lemma small_byte:
  assumes "0 \<le> n" "n < 128"
  shows "(word_of_int n :: byte) AND 0x80 = 0" "uint ((word_of_int n :: byte) AND 0x7f) = n"
    "(word_of_int n OR 0x80 :: byte) AND 0x80 \<noteq> 0" "uint ((word_of_int n OR 0x80 :: byte) AND 0x7f) = n"
proof -
  let ?w = "word_of_int n :: byte"
  have u: "uint ?w = n" using assms by (simp add: uint_word_of_int)
  have t: "?w AND 0x7f = take_bit 7 ?w" by (simp add: take_bit_eq_mask mask_eq_exp_minus_1)
  have "uint (take_bit 7 ?w) = take_bit 7 n" using u by (simp add: unsigned_take_bit_eq)
  then have l: "uint (?w AND 0x7f) = n" using assms by (simp add: t take_bit_int_eq_self)
  then have w: "?w AND 0x7f = ?w" using u by (metis word_uint_eqI)
  have "?w AND 0x80 = ?w AND (0x7f AND 0x80)" using w by (metis and.assoc)
  then show "?w AND 0x80 = 0" by simp
  show "uint (?w AND 0x7f) = n" by (rule l)
  show "(?w OR 0x80) AND 0x80 \<noteq> 0" by (simp add: bit.conj_disj_distrib2)
  have "(?w OR 0x80) AND 0x7f = ?w AND 0x7f" by (simp add: bit.conj_disj_distrib2)
  then show "uint ((?w OR 0x80) AND 0x7f) = n" using l by simp
qed

text \<open>
  the byte written for a frame encodes its offset in the way that the subtitle parser, and the reader
  of SEI messages, decode it, for every offset that such a byte can have.
\<close>

theorem frame_byte_roundtrip:
  assumes "0 < offset_metadata_count g" "\<bar>offset_metadata g ! 0\<bar> < 128"
  shows "offset_value (frame_byte g) = offset_metadata g ! 0"
  using assms small_byte [of "\<bar>offset_metadata g ! 0\<bar>"]
  by (cases "offset_metadata g ! 0 \<ge> 0") (simp_all add: frame_byte_def offset_value_def Let_def)

theorem frame_byte_roundtrip_witness:
  "offset_value (frame_byte (no_globals\<lparr>offset_metadata := [-5], offset_metadata_count := 1\<rparr>)) = -5"
  using frame_byte_roundtrip [of "no_globals\<lparr>offset_metadata := [-5], offset_metadata_count := 1\<rparr>"] by simp

text \<open>
  C21: the subtitle parser rejects every offset file that the interlacer writes: the interlacer writes
  version 0 in the header, \<open>load_offset_metadata\<close> accepts only version 1.
\<close>

theorem offset_file_rejected:
  "load_offset_metadata junk (Some (snd (write_frame n g file))) s = Some (-1, s)"
proof -
  let ?f = "snd (write_frame n g file)"
  have h: "length (offset_header n) = 20" by (simp add: offset_header_def le32_bytes_def)
  then have f: "?f = offset_header n @ drop 20 file @ [frame_byte g]" by (simp add: write_frame_def blit_def)
  have "le32 ?f 4 = le32 (offset_header n) 4" using h by (simp add: f le32_def nth_append)
  also have "\<dots> = 0" by (simp add: le32_def offset_header_def le32_bytes_def int_bytes_def nth_append)
  finally show ?thesis using h f by (simp add: load_offset_metadata_def)
qed

end
