(* ===== verification/EsCounters.thy ===== *)
theory EsCounters
  imports Prelude
begin

text \<open>
  The frame counters of the transport stream demultiplexer: \<open>h264::counter\<close> and \<open>ac3::counter\<close>
  (\<open>mvc_interlacer/tsdemux/h264.h\<close>, \<open>ac3.h\<close>).  They see an elementary stream in the pieces that the
  packets carry.
\<close>

unbundle bit_operations_syntax

section \<open>H.264\<close>

record h264_counter =
  h_ctx :: u32
  h_frame_num :: u64

definition h264_byte :: "byte \<Rightarrow> h264_counter \<Rightarrow> h264_counter" where
  "h264_byte b c =
     (let ctx = push_bit 8 (h_ctx c) + ucast b
      in c\<lparr>h_ctx := ctx,
           h_frame_num := (if ctx AND 0xffffff1f = 0x00000109 then h_frame_num c + 1 else h_frame_num c)\<rparr>)"

definition h264_parse :: "byte list \<Rightarrow> h264_counter \<Rightarrow> h264_counter" where
  "h264_parse p c = fold h264_byte p c"

section \<open>AC-3\<close>

record ac3_counter =
  a_st :: nat
  a_ctx :: u32
  a_skip :: u16
  a_frame_num :: u64

definition frame_size_32khz :: "nat list" where
  "frame_size_32khz =
     [96, 96, 120, 120, 144, 144, 168, 168, 192, 192, 240, 240, 288, 288, 336, 336, 384, 384, 480, 480, 576, 576,
      672, 672, 768, 768, 960, 960, 1152, 1152, 1344, 1344, 1536, 1536, 1728, 1728, 1920, 1920]"

definition frame_size_44khz :: "nat list" where
  "frame_size_44khz =
     [69, 70, 87, 88, 104, 105, 121, 122, 139, 140, 174, 175, 208, 209, 243, 244, 278, 279, 348, 349, 417, 418,
      487, 488, 557, 558, 696, 697, 835, 836, 975, 976, 1114, 1115, 1253, 1254, 1393, 1394]"

definition frame_size_48khz :: "nat list" where
  "frame_size_48khz =
     [64, 64, 80, 80, 96, 96, 112, 112, 128, 128, 160, 160, 192, 192, 224, 224, 256, 256, 320, 320, 384, 384,
      448, 448, 512, 512, 640, 640, 768, 768, 896, 896, 1024, 1024, 1152, 1152, 1280, 1280]"

text \<open>\<open>skip = framesize*2-6\<close>, computed as an \<open>int\<close> and stored in 16 bits.\<close>

definition ac3_skip :: "u32 \<Rightarrow> u16" where
  "ac3_skip ctx =
     (let cod = unat (drop_bit 8 ctx AND 0x3f);
          frmsizecod = (if cod > 37 then 0 else cod);
          rate = unat (drop_bit 14 ctx AND 0x03);
          framesize = (if rate = 0 then frame_size_48khz ! frmsizecod
                       else if rate = 1 then frame_size_44khz ! frmsizecod
                       else if rate = 2 then frame_size_32khz ! frmsizecod else 0)
      in word_of_int (int framesize * 2 - 6))"

definition ac3_byte :: "byte \<Rightarrow> ac3_counter \<Rightarrow> ac3_counter" where
  "ac3_byte b c =
     (let ctx = push_bit 8 (a_ctx c) + ucast b; c = c\<lparr>a_ctx := ctx\<rparr>
      in if a_st c = 0
         then if ctx AND 0xffff0000 = 0x0b770000 then c\<lparr>a_st := 1, a_frame_num := a_frame_num c + 1\<rparr> else c
         else if a_st c = 1 then c\<lparr>a_st := 2\<rparr>
         else if a_st c = 2 then c\<lparr>a_st := 0, a_skip := ac3_skip ctx\<rparr>
         else c)"

text \<open>The loop of \<open>parse\<close>, which jumps over the bytes of a frame.\<close>

function ac3_loop :: "byte list \<Rightarrow> nat \<Rightarrow> ac3_counter \<Rightarrow> ac3_counter" where
  "ac3_loop p i c =
     (if i < length p
      then if a_skip c > 0
           then (let n = min (length p - i) (unat (a_skip c)); c = c\<lparr>a_skip := a_skip c - word_of_nat n\<rparr>
                 in if i + n \<ge> length p then c else ac3_loop p (i + n + 1) (ac3_byte (p ! (i + n)) c))
           else ac3_loop p (i + 1) (ac3_byte (p ! i) c)
      else c)"
  by pat_completeness auto
termination
  by (relation "measure (\<lambda>(p, i, c). length p - i)") auto

declare ac3_loop.simps [simp del]

definition ac3_parse :: "byte list \<Rightarrow> ac3_counter \<Rightarrow> ac3_counter" where
  "ac3_parse p c = ac3_loop p 0 c"

section \<open>Pieces\<close>

text \<open>The automaton that takes one byte at a time.\<close>

definition ac3_step :: "byte \<Rightarrow> ac3_counter \<Rightarrow> ac3_counter" where
  "ac3_step b c = (if a_skip c > 0 then c\<lparr>a_skip := a_skip c - 1\<rparr> else ac3_byte b c)"

lemma ac3_step_byte: "\<not> a_skip c > 0 \<Longrightarrow> ac3_step b c = ac3_byte b c"
  by (simp add: ac3_step_def)

lemma ac3_step_skip: "a_skip c > 0 \<Longrightarrow> ac3_step b c = c\<lparr>a_skip := a_skip c - 1\<rparr>"
  by (simp add: ac3_step_def)

lemma fold_split: "fold f xs c = fold f (drop n xs) (fold f (take n xs) c)"
proof -
  have "fold f xs c = fold f (take n xs @ drop n xs) c" by (simp only: append_take_drop_id)
  then show ?thesis by (simp only: fold_append comp_apply)
qed

lemma ac3_skip_steps:
  "length bs \<le> unat (a_skip c) \<Longrightarrow> fold ac3_step bs c = c\<lparr>a_skip := a_skip c - word_of_nat (length bs)\<rparr>"
proof (induction bs arbitrary: c)
  case (Cons b bs)
  have "unat (a_skip c) \<noteq> 0" using Cons.prems by simp
  then have pos: "a_skip c > 0" by (auto simp: word_neq_0_conv [symmetric])
  then have "unat (a_skip c - 1) = unat (a_skip c) - 1" by (metis unat_minus_one word_neq_0_conv)
  then have "fold ac3_step bs (c\<lparr>a_skip := a_skip c - 1\<rparr>) =
      c\<lparr>a_skip := a_skip c - 1 - word_of_nat (length bs)\<rparr>"
    using Cons.IH [of "c\<lparr>a_skip := a_skip c - 1\<rparr>"] Cons.prems by simp
  then show ?case using pos by (simp add: ac3_step_skip algebra_simps)
qed simp

lemma ac3_loop_fold: "ac3_loop p i c = fold ac3_step (drop i p) c"
proof (induction p i c rule: ac3_loop.induct)
  case (1 p i c)
  show ?case
  proof (cases "i < length p")
    case True
    note i = True
    show ?thesis
    proof (cases "a_skip c > 0")
      case False
      then have "ac3_loop p i c = fold ac3_step (drop (i + 1) p) (ac3_byte (p ! i) c)"
        using i "1.IH"(2) by (subst ac3_loop.simps) simp
      then show ?thesis using i False by (simp add: ac3_step_byte flip: Cons_nth_drop_Suc)
    next
      case sk: True
      let ?n = "min (length p - i) (unat (a_skip c))"
      let ?c = "c\<lparr>a_skip := a_skip c - word_of_nat ?n\<rparr>"
      have "fold ac3_step (take ?n (drop i p)) c = ?c"
        using ac3_skip_steps [of "take ?n (drop i p)" c] by simp
      then have split: "fold ac3_step (drop i p) c = fold ac3_step (drop (i + ?n) p) ?c"
        using fold_split [of ac3_step "drop i p" c ?n] by (simp only: drop_drop add.commute)
      show ?thesis
      proof (cases "i + ?n \<ge> length p")
        case True
        then show ?thesis using i sk split by (subst ac3_loop.simps) (simp add: Let_def)
      next
        case False
        then have n: "?n = unat (a_skip c)" by simp
        then have z: "a_skip ?c = 0" by simp
        have "ac3_loop p i c = ac3_loop p (i + ?n + 1) (ac3_byte (p ! (i + ?n)) ?c)"
          using i sk False by (subst ac3_loop.simps) (simp add: Let_def)
        also have "\<dots> = fold ac3_step (drop (i + ?n + 1) p) (ac3_byte (p ! (i + ?n)) ?c)"
          using "1.IH"(1) [OF i sk refl refl] False by simp
        also have "\<dots> = fold ac3_step (drop (i + ?n) p) ?c"
          using False z by (simp add: ac3_step_byte flip: Cons_nth_drop_Suc)
        finally show ?thesis using split by simp
      qed
    qed
  qed (subst ac3_loop.simps, simp)
qed

text \<open>
  the counters do not depend on how the elementary stream is cut into packets: counting two
  pieces one after the other is counting their concatenation, also where a cut falls into a frame that
  the AC-3 counter jumps over or into a start code.
\<close>

theorem counters_pieces:
  "ac3_parse (p @ q) c = ac3_parse q (ac3_parse p c) \<and> h264_parse (p @ q) h = h264_parse q (h264_parse p h)"
  by (simp_all add: ac3_parse_def ac3_loop_fold h264_parse_def)

end
