(* ===== verification/TsDemux.thy ===== *)
theory TsDemux
  imports EsCounters "HOL-Library.Code_Target_Nat"
begin

text \<open>
  The MPEG transport stream demultiplexer (\<open>mvc_interlacer/tsdemux/ts.cpp\<close>, \<open>ts.h\<close>): tables and PES
  headers are collected over packets, H.264 and MVC payload goes to the two stream buffers.
  \<^theory_text>\<open>None\<close> is an access outside the packet or a table buffer.  What the demultiplexer prints is left
  out; an output file is what is written to it.
\<close>

unbundle bit_operations_syntax

section \<open>State\<close>

record psi_table =
  t_buf :: "byte list"
  t_len :: nat
  t_offset :: nat

definition max_buf_len :: nat where
  "max_buf_len = 512"

definition table_reset :: "psi_table \<Rightarrow> psi_table" where
  "table_reset t = t\<lparr>t_offset := 0, t_len := 0\<rparr>"

record ts_stream =
  s_channel :: nat
  s_id :: byte
  s_type :: byte
  s_psi :: psi_table
  s_stream_id :: byte
  s_file :: "byte list option"
  s_dts :: u64
  s_first_dts :: u64
  s_first_pts :: u64
  s_last_pts :: u64
  s_frame_length :: u32
  s_frame_num :: u64
  s_h264 :: h264_counter
  s_ac3 :: ac3_counter

definition new_stream :: "byte list \<Rightarrow> ts_stream" where
  "new_stream junk =
     \<lparr>s_channel = 0xffff, s_id = 0, s_type = 0xff, s_psi = \<lparr>t_buf = junk, t_len = 0, t_offset = 0\<rparr>, s_stream_id = 0,
      s_file = None, s_dts = 0, s_first_dts = 0, s_first_pts = 0, s_last_pts = 0, s_frame_length = 0, s_frame_num = 0,
      s_h264 = \<lparr>h_ctx = 0, h_frame_num = 0\<rparr>, s_ac3 = \<lparr>a_st = 0, a_ctx = 0, a_skip = 0, a_frame_num = 0\<rparr>\<rparr>"

definition stream_reset :: "ts_stream \<Rightarrow> ts_stream" where
  "stream_reset s =
     s\<lparr>s_psi := table_reset (s_psi s), s_dts := 0, s_first_pts := 0, s_last_pts := 0, s_frame_length := 0, s_frame_num := 0,
       s_h264 := \<lparr>h_ctx = 0, h_frame_num = 0\<rparr>, s_ac3 := \<lparr>a_st = 0, a_ctx = 0, a_skip = 0, a_frame_num = 0\<rparr>\<rparr>"

definition get_es_frame_num :: "ts_stream \<Rightarrow> u64" where
  "get_es_frame_num s =
     (if h_frame_num (s_h264 s) \<noteq> 0 then h_frame_num (s_h264 s)
      else if a_frame_num (s_ac3 s) \<noteq> 0 then a_frame_num (s_ac3 s) else 0)"

text \<open>
  A target holds the calls of \<open>insert\<close> made so far.  \<open>d_junk\<close> are the contents of a new table buffer,
  \<open>d_can_open\<close> is whether the output file of a stream can be opened.
\<close>

record demuxer =
  demux_target_left :: "byte list list option"
  demux_target_right :: "byte list list option"
  d_streams :: "nat \<Rightarrow> ts_stream option"
  d_hdmv :: bool
  d_av_only :: bool
  d_parse_only :: bool
  d_channel :: nat
  d_pes_output :: bool
  d_es_parse :: bool
  d_junk :: "byte list"
  d_can_open :: "nat \<Rightarrow> bool"

text \<open>\<open>streams[pid]\<close>, which makes the entry when there is none.\<close>

definition stream_at :: "demuxer \<Rightarrow> nat \<Rightarrow> ts_stream" where
  "stream_at d pid = (case d_streams d pid of None \<Rightarrow> new_stream (d_junk d) | Some s \<Rightarrow> s)"

definition set_stream :: "nat \<Rightarrow> ts_stream \<Rightarrow> demuxer \<Rightarrow> demuxer" where
  "set_stream pid s d = d\<lparr>d_streams := (d_streams d)(pid \<mapsto> s)\<rparr>"

definition demuxer_reset :: "demuxer \<Rightarrow> demuxer" where
  "demuxer_reset d = d\<lparr>d_streams := \<lambda>pid. map_option stream_reset (d_streams d pid)\<rparr>"

section \<open>Reading\<close>

definition to_int :: "byte list \<Rightarrow> int \<Rightarrow> nat option" where
  "to_int mem i = do { a \<leftarrow> rd mem i; b \<leftarrow> rd mem (i + 1); Some (unat a * 256 + unat b) }"

definition copy_from :: "byte list \<Rightarrow> int \<Rightarrow> int \<Rightarrow> byte list option" where
  "copy_from mem ptr len =
     (if 0 \<le> ptr \<and> 0 \<le> len \<and> ptr + len \<le> int (length mem) then Some (slice (nat ptr) (nat len) mem) else None)"

definition copy_to :: "byte list \<Rightarrow> nat \<Rightarrow> byte list \<Rightarrow> byte list option" where
  "copy_to buf off bs = (if off + length bs \<le> length buf then Some (blit buf off bs) else None)"

text \<open>\<open>strchr\<close> also finds the terminator: type 0 is accepted.\<close>

definition validate_type :: "demuxer \<Rightarrow> byte \<Rightarrow> bool" where
  "validate_type d ty =
     (if d_av_only d then ty \<in> set [0x01, 0x02, 0x80, 0x1b, 0xea, 0x81, 0x06, 0x83, 0x03, 0x04, 0] else True)"

text \<open>
  The terms are \<open>int\<close>s: the first one shifts bit 3 of the byte out of the word and bit 2 into the sign,
  which \<open>u_int64_t\<close> extends.
\<close>

definition decode_pts :: "byte list \<Rightarrow> u64 option" where
  "decode_pts p = do {
     p0 \<leftarrow> rd p 0; p1 \<leftarrow> rd p 1; p2 \<leftarrow> rd p 2; p3 \<leftarrow> rd p 3; p4 \<leftarrow> rd p 4;
     Some ((((word_of_int (wrap32 (uint (p0 AND 0xe) * 2 ^ 29)) OR word_of_int (uint p1 * 2 ^ 22)) OR
             word_of_int (uint (p2 AND 0xfe) * 2 ^ 14)) OR word_of_int (uint p3 * 2 ^ 7)) OR
           word_of_int (uint (p4 AND 0xfe) div 2)) }"

section \<open>Tables\<close>

datatype psi_out = Psi_return int | Psi_table "byte list" int int

text \<open>
  The table of a packet, or of several: memory, \<open>ptr\<close> and \<open>end_ptr\<close>.  The test for the reserved bits
  (\<open>l&0x3000!=0x3000\<close>) compares first and never fails.
\<close>

definition psi_begin :: "byte list \<Rightarrow> int \<Rightarrow> int \<Rightarrow> psi_table \<Rightarrow> (psi_out \<times> psi_table) option" where
  "psi_begin pkt ptr end_ptr t =
     (let ptr = ptr + 1
      in if ptr \<ge> end_ptr then Some (Psi_return (-4), t)
         else do {
           c \<leftarrow> rd pkt ptr;
           if c \<noteq> 0 \<and> c \<noteq> 2 then Some (Psi_return 0, t)
           else if end_ptr - ptr < 3 then Some (Psi_return (-5), t)
           else do {
             l \<leftarrow> map_option (\<lambda>l. l mod 4096) (to_int pkt (ptr + 1));
             let ptr = ptr + 3;
             let len = end_ptr - ptr;
             if int l > len
             then if l > max_buf_len then Some (Psi_return (-7), t)
                  else do {
                    bs \<leftarrow> copy_from pkt ptr len;
                    buf \<leftarrow> copy_to (t_buf t) 0 bs;
                    Some (Psi_return 0, \<lparr>t_buf = buf, t_len = l, t_offset = nat len\<rparr>) }
             else Some (Psi_table pkt ptr (ptr + int l), t) } })"

definition psi_next :: "byte list \<Rightarrow> int \<Rightarrow> int \<Rightarrow> psi_table \<Rightarrow> (psi_out \<times> psi_table) option" where
  "psi_next pkt ptr end_ptr t =
     (let len = end_ptr - ptr
      in if t_offset t = 0 then Some (Psi_return (-8), t)
         else if len > int max_buf_len - int (t_offset t) then Some (Psi_return (-9), t)
         else do {
           bs \<leftarrow> copy_from pkt ptr len;
           buf \<leftarrow> copy_to (t_buf t) (t_offset t) bs;
           let t = t\<lparr>t_buf := buf, t_offset := t_offset t + nat len\<rparr>;
           if t_offset t < t_len t then Some (Psi_return 0, t)
           else Some (Psi_table buf 0 (int (t_len t)), t) })"

fun pat_loop :: "nat \<Rightarrow> byte list \<Rightarrow> int \<Rightarrow> demuxer \<Rightarrow> demuxer option" where
  "pat_loop 0 mem ptr d = Some d"
| "pat_loop (Suc n) mem ptr d = do {
     channel \<leftarrow> to_int mem ptr;
     pid \<leftarrow> map_option (\<lambda>p. p mod 8192) (to_int mem (ptr + 2));
     pat_loop n mem (ptr + 4)
       (if d_channel d = 0 \<or> d_channel d = channel
        then set_stream pid ((stream_at d pid)\<lparr>s_channel := channel, s_type := 0xff\<rparr>) d else d) }"

definition parse_pat :: "byte list \<Rightarrow> int \<Rightarrow> int \<Rightarrow> demuxer \<Rightarrow> (int \<times> demuxer) option" where
  "parse_pat mem ptr end_ptr d =
     (let ptr = ptr + 5; len = end_ptr - ptr - 4
      in if ptr \<ge> end_ptr then Some (-10, d)
         else if len < 0 \<or> len mod 4 \<noteq> 0 then Some (-11, d)
         else map_option (Pair 0) (pat_loop (nat (len div 4)) mem ptr d))"

text \<open>The entry of a program map, with the table's own stream \<open>pid\<close>; the two may be the same.\<close>

definition pmt_entry :: "nat \<Rightarrow> nat \<Rightarrow> byte \<Rightarrow> demuxer \<Rightarrow> demuxer" where
  "pmt_entry pid es ty d =
     (if \<not> validate_type d ty then d
      else let d = set_stream es (stream_at d es) d; ss = stream_at d es; s = stream_at d pid
      in if s_channel ss \<noteq> s_channel s \<or> s_type ss \<noteq> ty
         then let d = set_stream es (ss\<lparr>s_channel := s_channel s, s_type := ty\<rparr>) d;
                  d = set_stream pid ((stream_at d pid)\<lparr>s_id := s_id (stream_at d pid) + 1\<rparr>) d;
                  d = set_stream es ((stream_at d es)\<lparr>s_id := s_id (stream_at d pid)\<rparr>) d
              in if \<not> d_parse_only d \<and> s_file (stream_at d es) = None \<and> d_can_open d es
                 then set_stream es ((stream_at d es)\<lparr>s_file := Some []\<rparr>) d else d
         else d)"

function pmt_loop :: "byte list \<Rightarrow> int \<Rightarrow> int \<Rightarrow> nat \<Rightarrow> demuxer \<Rightarrow> (int \<times> demuxer) option" where
  "pmt_loop mem ptr end_ptr pid d =
     (if ptr < end_ptr
      then if end_ptr - ptr < 5 then Some (-15, d)
           else case (rd mem ptr, to_int mem (ptr + 1), to_int mem (ptr + 3)) of
                  (Some ty, Some es, Some info) \<Rightarrow>
                    pmt_loop mem (ptr + 5 + int (info mod 4096)) end_ptr pid (pmt_entry pid (es mod 8192) ty d)
                | _ \<Rightarrow> None
      else Some (if ptr \<noteq> end_ptr then -18 else 0, d))"
  by pat_completeness auto
termination
  by (relation "measure (\<lambda>(mem, ptr, end_ptr, pid, d). nat (end_ptr - ptr))") auto

declare pmt_loop.simps [simp del]

definition parse_pmt :: "byte list \<Rightarrow> int \<Rightarrow> int \<Rightarrow> nat \<Rightarrow> demuxer \<Rightarrow> (int \<times> demuxer) option" where
  "parse_pmt mem ptr end_ptr pid d =
     (let ptr = ptr + 7
      in if ptr \<ge> end_ptr then Some (-13, d)
         else do {
           info_len \<leftarrow> map_option (\<lambda>l. l mod 4096) (to_int mem ptr);
           let ptr = ptr + int info_len + 2;
           let end_ptr = end_ptr - 4;
           if ptr \<ge> end_ptr then Some (-14, d) else pmt_loop mem ptr end_ptr pid d })"

definition psi_packet :: "byte list \<Rightarrow> int \<Rightarrow> int \<Rightarrow> bool \<Rightarrow> nat \<Rightarrow> demuxer \<Rightarrow> (int \<times> demuxer) option" where
  "psi_packet pkt ptr end_ptr start pid d = do {
     (r, t) \<leftarrow> (if start then psi_begin else psi_next) pkt ptr end_ptr (s_psi (stream_at d pid));
     let d = set_stream pid ((stream_at d pid)\<lparr>s_psi := t\<rparr>) d;
     case r of
       Psi_return n \<Rightarrow> Some (n, d)
     | Psi_table mem ptr end_ptr \<Rightarrow>
         if pid = 0 then parse_pat mem ptr end_ptr d else parse_pmt mem ptr end_ptr pid d }"

section \<open>PES packets\<close>

text \<open>
  The loop that collects a header; the result is the new \<open>ptr\<close>, or \<^theory_text>\<open>None\<close> inside when the packet ends
  before the header.  The length byte is added whenever the length is 9 after a copy.
\<close>

function pes_collect :: "byte list \<Rightarrow> int \<Rightarrow> int \<Rightarrow> psi_table \<Rightarrow> (int option \<times> psi_table) option" where
  "pes_collect pkt ptr end_ptr t =
     (if t_offset t < t_len t
      then if end_ptr - ptr \<le> 0 then Some (None, t)
           else let len = min (end_ptr - ptr) (int (t_len t) - int (t_offset t))
                in case copy_from pkt ptr len of
                     None \<Rightarrow> None
                   | Some bs \<Rightarrow>
                       (case copy_to (t_buf t) (t_offset t) bs of
                          None \<Rightarrow> None
                        | Some buf \<Rightarrow>
                            pes_collect pkt (ptr + len) end_ptr
                              \<lparr>t_buf = buf, t_len = t_len t + (if t_len t = 9 then unat (buf ! 8) else 0),
                               t_offset = t_offset t + nat len\<rparr>)
      else Some (Some ptr, t))"
  by pat_completeness auto
termination
  by (relation "measure (\<lambda>(pkt, ptr, end_ptr, t). nat (end_ptr - ptr))") auto

declare pes_collect.simps [simp del]

definition pts_only :: "u64 \<Rightarrow> ts_stream \<Rightarrow> ts_stream" where
  "pts_only pts s =
     s\<lparr>s_frame_length := (if s_dts s > 0 \<and> pts > s_dts s then ucast (pts - s_dts s) else s_frame_length s),
       s_dts := pts,
       s_last_pts := (if pts > s_last_pts s then pts else s_last_pts s),
       s_first_pts := (if s_first_pts s = 0 then pts else s_first_pts s)\<rparr>"

definition pts_and_dts :: "u64 \<Rightarrow> u64 \<Rightarrow> ts_stream \<Rightarrow> ts_stream" where
  "pts_and_dts pts dts s =
     s\<lparr>s_frame_length := (if s_dts s > 0 \<and> dts > s_dts s then ucast (dts - s_dts s) else s_frame_length s),
       s_dts := dts,
       s_last_pts := (if pts > s_last_pts s then pts else s_last_pts s),
       s_first_dts := (if s_first_dts s = 0 then dts else s_first_dts s)\<rparr>"

text \<open>The complete header: a returned code, or 0.\<close>

definition pes_header :: "demuxer \<Rightarrow> ts_stream \<Rightarrow> (int \<times> ts_stream) option" where
  "pes_header d s =
     (let buf = t_buf (s_psi s)
      in if slice 0 3 buf \<noteq> [0, 0, 1] then Some (-19, s)
         else do {
           sid \<leftarrow> rd buf 3;
           flags \<leftarrow> rd buf 7;
           let s = s\<lparr>s_stream_id := sid, s_frame_num := s_frame_num s + 1\<rparr>;
           s \<leftarrow> (if flags AND 0xc0 = 0x80 then map_option (\<lambda>pts. pts_only pts s) (decode_pts (drop 9 buf))
                 else if flags AND 0xc0 = 0xc0
                 then do { pts \<leftarrow> decode_pts (drop 9 buf); dts \<leftarrow> decode_pts (drop 14 buf); Some (pts_and_dts pts dts s) }
                 else Some s);
           let s = (case s_file s of
                      None \<Rightarrow> s
                    | Some f \<Rightarrow> if d_pes_output d then s\<lparr>s_file := Some (f @ take (t_len (s_psi s)) buf)\<rparr> else s);
           Some (0, s\<lparr>s_psi := table_reset (s_psi s)\<rparr>) })"

definition append_call :: "byte list \<Rightarrow> byte list list option \<Rightarrow> byte list list option" where
  "append_call bs target = map_option (\<lambda>calls. calls @ [bs]) target"

definition pes_payload :: "byte list \<Rightarrow> nat \<Rightarrow> demuxer \<Rightarrow> demuxer" where
  "pes_payload bs pid d =
     (let s = stream_at d pid;
          s = (if d_es_parse d
               then if s_type s = 0x1b then s\<lparr>s_h264 := h264_parse bs (s_h264 s)\<rparr>
                    else if s_type s \<in> set [0x06, 0x81, 0x83] then s\<lparr>s_ac3 := ac3_parse bs (s_ac3 s)\<rparr>
                    else s
               else s);
          d = set_stream pid s d;
          d = (if s_type s = 0x1b then d\<lparr>demux_target_left := append_call bs (demux_target_left d)\<rparr> else d)
      in if s_type s = 0x20 then d\<lparr>demux_target_right := append_call bs (demux_target_right d)\<rparr> else d)"

definition pes_packet :: "byte list \<Rightarrow> int \<Rightarrow> int \<Rightarrow> bool \<Rightarrow> nat \<Rightarrow> demuxer \<Rightarrow> (int \<times> demuxer) option" where
  "pes_packet pkt ptr end_ptr start pid d =
     (let s = stream_at d pid;
          t = (if start then (table_reset (s_psi s))\<lparr>t_len := 9\<rparr> else s_psi s)
      in case pes_collect pkt ptr end_ptr t of
           None \<Rightarrow> None
         | Some (None, t) \<Rightarrow> Some (0, set_stream pid (s\<lparr>s_psi := t\<rparr>) d)
         | Some (Some ptr, t) \<Rightarrow> do {
             (r, s) \<leftarrow> (if t_len t \<noteq> 0 then pes_header d (s\<lparr>s_psi := t\<rparr>) else Some (0, s\<lparr>s_psi := t\<rparr>));
             let d = set_stream pid s d;
             if r \<noteq> 0 then Some (r, d)
             else if s_frame_num s \<noteq> 0
             then do { bs \<leftarrow> copy_from pkt ptr (end_ptr - ptr); Some (0, pes_payload bs pid d) }
             else Some (0, d) })"

section \<open>Packets and files\<close>

definition demux_ts_packet :: "byte list \<Rightarrow> demuxer \<Rightarrow> (int \<times> demuxer) option" where
  "demux_ts_packet pkt d = do {
     let p = (if d_hdmv d then 4 else 0);
     let end_ptr = p + 188;
     b \<leftarrow> rd pkt p;
     if b \<noteq> 0x47 then Some (-1, d)
     else do {
       w \<leftarrow> to_int pkt (p + 1);
       flags \<leftarrow> rd pkt (p + 3);
       let pid = w mod 8192;
       let start = odd (w div 16384);
       if odd (w div 32768) then Some (-2, d)
       else if pid = 0x1fff \<or> flags AND 0x10 = 0 then Some (0, d)
       else do {
         skip \<leftarrow> (if flags AND 0x20 \<noteq> 0 then map_option (\<lambda>a. int (unat a) + 1) (rd pkt (p + 4)) else Some 0);
         let ptr = p + 4 + skip;
         if flags AND 0x20 \<noteq> 0 \<and> ptr \<ge> end_ptr then Some (-3, d)
         else let d = set_stream pid (stream_at d pid) d; s = stream_at d pid
         in if pid = 0 \<or> (s_channel s \<noteq> 0xffff \<and> s_type s = 0xff) then psi_packet pkt ptr end_ptr start pid d
            else if s_type s \<noteq> 0xff then pes_packet pkt ptr end_ptr start pid d
            else Some (0, d) } } }"

text \<open>
  The loop of \<open>demux_file\<close> over the rest of the file; \<open>buf\<close> is the array of 192 bytes, \<open>buf_len\<close> is 0
  until the kind of stream is known.
\<close>

definition stream_kind :: "byte list \<Rightarrow> (nat \<times> bool) option" where
  "stream_kind buf =
     (if buf ! 0 = 0x47 \<and> buf ! 4 \<noteq> 0x47 then Some (188, False)
      else if buf ! 0 \<noteq> 0x47 \<and> buf ! 4 = 0x47 then Some (192, True) else None)"

function demux_loop :: "nat \<Rightarrow> byte list \<Rightarrow> byte list \<Rightarrow> demuxer \<Rightarrow> (int \<times> demuxer) option" where
  "demux_loop buf_len buf rest d =
     (if length rest < (if buf_len = 0 then 188 else buf_len) then Some (0, d)
      else if buf_len = 0
      then (let buf = blit buf 0 (take 188 rest)
            in case stream_kind buf of
                 None \<Rightarrow> Some (-1, d)
               | Some (n, hdmv) \<Rightarrow>
                   if length rest < n then Some (0, d)
                   else (let buf = blit buf 0 (take n rest)
                         in case demux_ts_packet buf (d\<lparr>d_hdmv := hdmv\<rparr>) of
                              None \<Rightarrow> None
                            | Some (r, d) \<Rightarrow> if r \<noteq> 0 then Some (-1, d) else demux_loop n buf (drop n rest) d))
      else (let buf = blit buf 0 (take buf_len rest)
            in case demux_ts_packet buf d of
                 None \<Rightarrow> None
               | Some (r, d) \<Rightarrow> if r \<noteq> 0 then Some (-1, d) else demux_loop buf_len buf (drop buf_len rest) d))"
  by pat_completeness auto
termination
  by (relation "measure (\<lambda>(n, buf, rest, d). length rest)") (auto simp: stream_kind_def split: if_splits)

declare demux_loop.simps [simp del]

definition demux_file :: "byte list \<Rightarrow> byte list option \<Rightarrow> demuxer \<Rightarrow> (int \<times> demuxer) option" where
  "demux_file junk file d = (case file of None \<Rightarrow> Some (-1, d) | Some f \<Rightarrow> demux_loop 0 junk f d)"

section \<open>Time stamps\<close>

lemma and_push_mask: "x AND push_bit m (mask k) = push_bit m (take_bit k (drop_bit m x))" for x :: int
  by (rule bit_eqI) (auto simp: bit_simps)

lemma and_shifted_mask: "x AND ((2 ^ k - 1) * 2) = x div 2 mod 2 ^ k * 2" for x :: int
  using and_push_mask [of x 1 k] by (simp add: push_bit_eq_mult take_bit_eq_mod drop_bit_eq_div mask_eq_exp_minus_1)

lemma and_0e: "uint (b AND 0xe) = uint (b :: byte) div 2 mod 8 * 2"
  using and_shifted_mask [of "uint b" 3] by (simp add: unsigned_and_eq)

lemma and_fe: "uint (b AND 0xfe) = uint (b :: byte) div 2 * 2"
proof -
  have "uint b div 2 < 128" using byte_range [of b] by simp
  then show ?thesis
    using and_shifted_mask [of "uint b" 7] by (simp add: unsigned_and_eq)
qed

lemma int_bit_below: "0 \<le> x \<Longrightarrow> x < 2 ^ k \<Longrightarrow> bit x n \<Longrightarrow> n < k" for x :: int
  by (metis bit_take_bit_iff take_bit_int_eq_self)

text \<open>The bits of a field at position \<open>m\<close>.\<close>

lemma bit_field:
  "bit (word_of_int (x * 2 ^ m) :: u64) n \<Longrightarrow> m \<le> n"
  "0 \<le> x \<Longrightarrow> x < 2 ^ k \<Longrightarrow> bit (word_of_int (x * 2 ^ m) :: u64) n \<Longrightarrow> n < m + k"
  using int_bit_below [of x k "n - m"]
  by (auto simp: bit_word_of_int_iff bit_push_bit_iff_int simp flip: push_bit_eq_mult)

lemma or_field:
  assumes "\<forall>n. bit a n \<longrightarrow> m + k \<le> n" "0 \<le> y" "y < 2 ^ k"
  shows "a OR word_of_int (y * 2 ^ m) = a + (word_of_int (y * 2 ^ m) :: u64) \<and>
    (\<forall>n. bit (a + word_of_int (y * 2 ^ m)) n \<longrightarrow> m \<le> n)"
proof -
  have "a OR word_of_int (y * 2 ^ m) = a + word_of_int (y * 2 ^ m)"
    using assms(1) bit_field(2) [OF assms(2,3)] by (intro disjunctive_add [symmetric]) force
  moreover have "\<forall>n. bit (a OR word_of_int (y * 2 ^ m)) n \<longrightarrow> m \<le> n"
    using assms(1) bit_field(1) [of y m] by (fastforce simp: bit_or_iff)
  ultimately show ?thesis by simp
qed

text \<open>A time stamp of 33 bits as the MPEG-2 systems layer writes it, with the prefix \<open>k\<close>.\<close>

definition encode_pts :: "nat \<Rightarrow> nat \<Rightarrow> byte list" where
  "encode_pts k t =
     map word_of_nat
       [k * 16 + t div 2 ^ 30 * 2 + 1, t div 2 ^ 22, t div 2 ^ 15 mod 128 * 2 + 1, t div 2 ^ 7, t mod 128 * 2 + 1]"

lemma decode_pts_sum:
  assumes "p = [p0, p1, p2, p3, p4]"
  shows "decode_pts p = Some (word_of_int (wrap32 (uint p0 div 2 mod 8 * 2 ^ 30) + uint p1 * 2 ^ 22 +
    uint p2 div 2 * 2 ^ 15 + uint p3 * 2 ^ 7 + uint p4 div 2))"
proof -
  let ?a = "wrap32 (uint p0 div 2 mod 8 * 2 ^ 30)"
  have r: "rd p 0 = Some p0" "rd p 1 = Some p1" "rd p 2 = Some p2" "rd p 3 = Some p3" "rd p 4 = Some p4"
    by (simp_all add: assms rd_def)
  have a: "uint (p0 AND 0xe) * 2 ^ 29 = uint p0 div 2 mod 8 * 2 ^ 30" by (simp add: and_0e)
  have c: "uint (p2 AND 0xfe) * 2 ^ 14 = uint p2 div 2 * 2 ^ 15" by (simp add: and_fe)
  have e: "uint (p4 AND 0xfe) div 2 = uint p4 div 2 * 2 ^ 0" by (simp add: and_fe)
  obtain x where x: "?a = x * 2 ^ 30"
  proof
    show "?a = ((uint p0 div 2 mod 8 + 2) mod 4 - 2) * 2 ^ 30"
      using mult_mod_left [of "uint p0 div 2 mod 8 + 2" 4 "2 ^ 30"] by (simp add: wrap32_def algebra_simps)
  qed
  have b: "0 \<le> uint p1" "uint p1 < 2 ^ 8" "0 \<le> uint p2 div 2" "uint p2 div 2 < 2 ^ 7"
    "0 \<le> uint p3" "uint p3 < 2 ^ 8" "0 \<le> uint p4 div 2" "uint p4 div 2 < 2 ^ 7"
    using byte_range [of p1] byte_range [of p2] byte_range [of p3] byte_range [of p4] by simp_all
  have f0: "\<forall>n. bit (word_of_int ?a :: u64) n \<longrightarrow> 22 + 8 \<le> n"
    unfolding x using bit_field(1) [of x 30] by simp
  note f1 = or_field [OF f0 b(1,2)]
  have "\<forall>n. bit (word_of_int ?a + word_of_int (uint p1 * 2 ^ 22) :: u64) n \<longrightarrow> 15 + 7 \<le> n" using f1 by simp
  note f2 = or_field [OF this b(3,4)]
  have "\<forall>n. bit (word_of_int ?a + word_of_int (uint p1 * 2 ^ 22) + word_of_int (uint p2 div 2 * 2 ^ 15) :: u64) n \<longrightarrow>
      7 + 8 \<le> n" using f2 by simp
  note f3 = or_field [OF this b(5,6)]
  have "\<forall>n. bit (word_of_int ?a + word_of_int (uint p1 * 2 ^ 22) + word_of_int (uint p2 div 2 * 2 ^ 15) +
      word_of_int (uint p3 * 2 ^ 7) :: u64) n \<longrightarrow> 0 + 7 \<le> n" using f3 by simp
  note f4 = or_field [OF this b(7,8)]
  have "decode_pts p = Some (word_of_int ?a + word_of_int (uint p1 * 2 ^ 22) + word_of_int (uint p2 div 2 * 2 ^ 15) +
      word_of_int (uint p3 * 2 ^ 7) + word_of_int (uint p4 div 2 * 2 ^ 0))"
    unfolding decode_pts_def r bind.simps a c e conjunct1 [OF f1] conjunct1 [OF f2] conjunct1 [OF f3] conjunct1 [OF f4] ..
  then show ?thesis by (simp only: of_int_add power_0 mult_1_right)
qed

lemma time_fields_sum:
  fixes t :: int
  shows "t div 2 ^ 22 mod 2 ^ 8 * 2 ^ 22 + t div 2 ^ 15 mod 2 ^ 7 * 2 ^ 15 + t div 2 ^ 7 mod 2 ^ 8 * 2 ^ 7 + t mod 2 ^ 7 =
    t mod 2 ^ 30"
proof -
  have "t mod 2 ^ 15 = 2 ^ 7 * (t div 2 ^ 7 mod 2 ^ 8) + t mod 2 ^ 7" using zmod_zmult2_eq [of "2 ^ 8" t "2 ^ 7"] by simp
  moreover have "t mod 2 ^ 22 = 2 ^ 15 * (t div 2 ^ 15 mod 2 ^ 7) + t mod 2 ^ 15"
    using zmod_zmult2_eq [of "2 ^ 7" t "2 ^ 15"] by simp
  moreover have "t mod 2 ^ 30 = 2 ^ 22 * (t div 2 ^ 22 mod 2 ^ 8) + t mod 2 ^ 22"
    using zmod_zmult2_eq [of "2 ^ 8" t "2 ^ 22"] by simp
  ultimately show ?thesis by simp
qed

lemma wrap32_high: "0 \<le> r \<Longrightarrow> r < 2 ^ 30 \<Longrightarrow> wrap32 (q * 2 ^ 30) + r = wrap32 (q * 2 ^ 30 + r)"
proof -
  assume r: "0 \<le> r" "r < 2 ^ 30"
  have d: "(y * 2 ^ 30 + r) mod (2 ^ 30 * 4) = y mod 4 * 2 ^ 30 + r" for y
  proof -
    have "(y * 2 ^ 30 + r) div 2 ^ 30 = y" "(y * 2 ^ 30 + r) mod 2 ^ 30 = r" using r by simp_all
    then show ?thesis using zmod_zmult2_eq [of 4 "y * 2 ^ 30 + r" "2 ^ 30"] by simp
  qed
  have "wrap32 (q * 2 ^ 30 + r) = ((q + 2) * 2 ^ 30 + r) mod (2 ^ 30 * 4) - 2 ^ 31"
    by (simp add: wrap32_def algebra_simps)
  moreover have "wrap32 (q * 2 ^ 30) = (q + 2) * 2 ^ 30 mod (4 * 2 ^ 30) - 2 ^ 31"
    by (simp add: wrap32_def algebra_simps)
  moreover have "(q + 2) * 2 ^ 30 mod (4 * 2 ^ 30) = (q + 2) mod 4 * (2 ^ 30 :: int)"
    by (rule mult_mod_left [symmetric])
  ultimately show ?thesis using d [of "q + 2"] by simp
qed

text \<open>
  C22: what \<open>decode_pts\<close> makes of a time stamp of 33 bits is its low 32 bits as a signed \<open>int\<close>, extended to
  64 bits: exact below \<open>2^31\<close> (6.6 hours), a huge number from there to \<open>2^32\<close>, and without the top
  bit above.
\<close>

theorem decode_encode_pts:
  assumes "t < 2 ^ 33" "k < 16"
  shows "decode_pts (encode_pts k t) = Some (word_of_int (wrap32 (int t)))"
proof -
  let ?t = "int t"
  have q: "t div 2 ^ 30 < 8" using assms(1) by (simp add: less_mult_imp_div_less)
  have u: "uint (word_of_nat n :: byte) = int n mod 256" for n
    by (simp add: unsigned_of_nat take_bit_eq_mod of_nat_mod flip: uint_nat)
  have p0: "uint (word_of_nat (k * 16 + t div 2 ^ 30 * 2 + 1) :: byte) div 2 mod 8 = ?t div 2 ^ 30"
  proof -
    have "k * 16 + t div 2 ^ 30 * 2 + 1 < 256" using q assms(2) by linarith
    then have "uint (word_of_nat (k * 16 + t div 2 ^ 30 * 2 + 1) :: byte) = int (k * 16 + t div 2 ^ 30 * 2 + 1)"
      by (simp only: u) simp
    also have "\<dots> div 2 mod 8 = int ((k * 16 + t div 2 ^ 30 * 2 + 1) div 2 mod 8)" by (simp only: zdiv_int zmod_int) simp
    also have "(k * 16 + t div 2 ^ 30 * 2 + 1) div 2 = t div 2 ^ 30 + k * 8" by simp
    also have "(t div 2 ^ 30 + k * 8) mod 8 = t div 2 ^ 30" using q by simp
    finally show ?thesis by (simp add: zdiv_int)
  qed
  have m: "uint (word_of_nat (n mod 128 * 2 + 1) :: byte) div 2 = int n mod 2 ^ 7" for n
  proof -
    have "n mod 128 * 2 + 1 < 256" using mod_less_divisor [of 128 n] by linarith
    then have "uint (word_of_nat (n mod 128 * 2 + 1) :: byte) = int (n mod 128 * 2 + 1)" by (simp only: u) simp
    then show ?thesis by (simp add: zmod_int)
  qed
  have "decode_pts (encode_pts k t) =
      Some (word_of_int (wrap32 (?t div 2 ^ 30 * 2 ^ 30) + (?t div 2 ^ 22 mod 2 ^ 8 * 2 ^ 22 + ?t div 2 ^ 15 mod 2 ^ 7 * 2 ^ 15 +
        ?t div 2 ^ 7 mod 2 ^ 8 * 2 ^ 7 + ?t mod 2 ^ 7)))"
    unfolding encode_pts_def list.map decode_pts_sum [OF refl] p0 m by (simp add: u zdiv_int add.assoc)
  also have "\<dots> = Some (word_of_int (wrap32 ?t))"
    unfolding time_fields_sum by (subst wrap32_high) simp_all
  finally show ?thesis .
qed

theorem decode_encode_pts_witness:
  "decode_pts (encode_pts 2 8589934591) = Some (word_of_int (-1)) \<and> decode_pts (encode_pts 2 2147483647) = Some 2147483647"
  using decode_encode_pts [of 8589934591 2] decode_encode_pts [of 2147483647 2] by (simp add: wrap32_def)

section \<open>Memory safety\<close>

definition wf_table :: "psi_table \<Rightarrow> bool" where
  "wf_table t \<longleftrightarrow> length (t_buf t) = max_buf_len \<and> t_len t \<le> max_buf_len \<and> t_offset t \<le> max_buf_len"

definition wf_demuxer :: "demuxer \<Rightarrow> bool" where
  "wf_demuxer d \<longleftrightarrow>
     length (d_junk d) = max_buf_len \<and> (\<forall>pid s. d_streams d pid = Some s \<longrightarrow> wf_table (s_psi s))"

definition targets :: "demuxer \<Rightarrow> byte list list option \<times> byte list list option" where
  "targets d = (demux_target_left d, demux_target_right d)"

text \<open>A step that does not fault, ends in a well-formed state and sends nothing to the stream buffers.\<close>

definition silent :: "demuxer \<Rightarrow> ('r \<times> demuxer) option \<Rightarrow> bool" where
  "silent d0 x = (case x of None \<Rightarrow> False | Some (r, d) \<Rightarrow> wf_demuxer d \<and> targets d = targets d0)"

lemma silent_simps [simp]: "silent d0 (Some (r, d)) = (wf_demuxer d \<and> targets d = targets d0)" "\<not> silent d0 None"
  by (simp_all add: silent_def)

lemma silent_cong: "targets d0 = targets d1 \<Longrightarrow> silent d0 x \<Longrightarrow> silent d1 x"
  by (auto simp: silent_def split: option.splits)

lemma targets_set_stream [simp]: "targets (set_stream pid s d) = targets d"
  by (simp add: targets_def set_stream_def)

lemma wf_reset [simp]: "wf_table t \<Longrightarrow> wf_table (table_reset t)"
  by (simp add: wf_table_def table_reset_def)

lemma wf_stream_at: "wf_demuxer d \<Longrightarrow> wf_table (s_psi (stream_at d pid))"
  by (auto simp: wf_demuxer_def stream_at_def new_stream_def wf_table_def split: option.splits)

lemma wf_set_stream: "wf_demuxer d \<Longrightarrow> wf_table (s_psi s) \<Longrightarrow> wf_demuxer (set_stream pid s d)"
  by (auto simp: wf_demuxer_def set_stream_def)

lemma wf_targets [simp]:
  "wf_demuxer (d\<lparr>demux_target_left := x\<rparr>) = wf_demuxer d" "wf_demuxer (d\<lparr>demux_target_right := x\<rparr>) = wf_demuxer d"
  by (simp_all add: wf_demuxer_def)

lemma to_int_Some: "0 \<le> i \<Longrightarrow> i + 1 < int (length mem) \<Longrightarrow> \<exists>v. to_int mem i = Some v"
  by (simp add: to_int_def rd_def)

lemma copy_from_Some:
  "0 \<le> ptr \<Longrightarrow> 0 \<le> len \<Longrightarrow> ptr + len \<le> int (length mem) \<Longrightarrow>
   \<exists>bs. copy_from mem ptr len = Some bs \<and> length bs = nat len"
  by (simp add: copy_from_def nat_add_distrib [symmetric])

lemma copy_to_Some:
  "off + length bs \<le> length buf \<Longrightarrow> \<exists>b. copy_to buf off bs = Some b \<and> length b = length buf"
  by (simp add: copy_to_def)

lemma pat_loop_safe:
  "wf_demuxer d \<Longrightarrow> 0 \<le> ptr \<Longrightarrow> ptr + 4 * int n \<le> int (length mem) \<Longrightarrow>
   \<exists>d'. pat_loop n mem ptr d = Some d' \<and> wf_demuxer d' \<and> targets d' = targets d"
proof (induction n mem ptr d rule: pat_loop.induct)
  case (2 n mem ptr d)
  obtain a where a: "to_int mem ptr = Some a" using to_int_Some [of ptr mem] "2.prems" by auto
  obtain b where b: "to_int mem (ptr + 2) = Some b" using to_int_Some [of "ptr + 2" mem] "2.prems" by auto
  let ?d = "if d_channel d = 0 \<or> d_channel d = a
      then set_stream (b mod 8192) ((stream_at d (b mod 8192))\<lparr>s_channel := a, s_type := 0xff\<rparr>) d else d"
  have "wf_demuxer ?d" "targets ?d = targets d"
    using "2.prems"(1) wf_stream_at [OF "2.prems"(1)] by (simp_all add: wf_set_stream)
  moreover have "pat_loop (Suc n) mem ptr d = pat_loop n mem (ptr + 4) ?d" by (simp add: a b)
  ultimately show ?case using "2.IH" [of a "b mod 8192"] "2.prems" by (simp add: a b)
qed simp

lemma parse_pat_safe:
  "wf_demuxer d \<Longrightarrow> 0 \<le> ptr \<Longrightarrow> end_ptr \<le> int (length mem) \<Longrightarrow> silent d (parse_pat mem ptr end_ptr d)"
proof -
  assume p: "wf_demuxer d" "0 \<le> ptr" "end_ptr \<le> int (length mem)"
  let ?n = "(end_ptr - (ptr + 5) - 4) div 4"
  show ?thesis
  proof (cases "ptr + 5 \<ge> end_ptr \<or> end_ptr - (ptr + 5) - 4 < 0")
    case False
    have "4 * ?n \<le> end_ptr - (ptr + 5) - 4" by simp
    then have "ptr + 5 + 4 * int (nat ?n) \<le> int (length mem)" using p False by linarith
    from pat_loop_safe [OF p(1) _ this] p False show ?thesis by (auto simp: parse_pat_def Let_def)
  qed (use p in \<open>auto simp: parse_pat_def Let_def\<close>)
qed

lemma targets_pmt_entry [simp]: "targets (pmt_entry pid es ty d) = targets d"
  by (simp add: pmt_entry_def Let_def)

lemma wf_pmt_entry: "wf_demuxer d \<Longrightarrow> wf_demuxer (pmt_entry pid es ty d)"
  by (simp add: pmt_entry_def Let_def wf_set_stream wf_stream_at)

lemma pmt_loop_safe:
  "wf_demuxer d \<Longrightarrow> 0 \<le> ptr \<Longrightarrow> end_ptr \<le> int (length mem) \<Longrightarrow> silent d (pmt_loop mem ptr end_ptr pid d)"
proof (induction mem ptr end_ptr pid d rule: pmt_loop.induct)
  case (1 mem ptr end_ptr pid d)
  show ?case
  proof (cases "ptr < end_ptr \<and> \<not> end_ptr - ptr < 5")
    case True
    obtain a b c where v: "rd mem ptr = Some a" "to_int mem (ptr + 1) = Some b" "to_int mem (ptr + 3) = Some c"
      using True "1.prems" to_int_Some [of "ptr + 1" mem] to_int_Some [of "ptr + 3" mem] by (auto simp: rd_def)
    have "silent (pmt_entry pid (b mod 8192) a d)
        (pmt_loop mem (ptr + 5 + int (c mod 4096)) end_ptr pid (pmt_entry pid (b mod 8192) a d))"
      using True v "1.prems" by (intro "1.IH") (simp_all add: wf_pmt_entry)
    then have "silent d (pmt_loop mem (ptr + 5 + int (c mod 4096)) end_ptr pid (pmt_entry pid (b mod 8192) a d))"
      by (rule silent_cong [rotated]) simp
    then show ?thesis using True v by (subst pmt_loop.simps) simp
  next
    case False
    then show ?thesis using "1.prems" by (subst pmt_loop.simps) auto
  qed
qed

lemma parse_pmt_safe:
  "wf_demuxer d \<Longrightarrow> 0 \<le> ptr \<Longrightarrow> end_ptr \<le> int (length mem) \<Longrightarrow> (ptr + 7 < end_ptr \<longrightarrow> ptr + 8 < int (length mem)) \<Longrightarrow>
   silent d (parse_pmt mem ptr end_ptr pid d)"
  using to_int_Some [of "ptr + 7" mem] by (auto simp: parse_pmt_def Let_def intro!: pmt_loop_safe)

text \<open>What the two table readers return.\<close>

definition table_out :: "byte list \<Rightarrow> (psi_out \<times> psi_table) option \<Rightarrow> bool" where
  "table_out pkt x =
     (case x of
        Some (Psi_return n, t) \<Rightarrow> wf_table t
      | Some (Psi_table mem ptr end_ptr, t) \<Rightarrow>
          wf_table t \<and> 0 \<le> ptr \<and> end_ptr \<le> int (length mem) \<and> (ptr + 7 < end_ptr \<longrightarrow> ptr + 8 < int (length mem))
      | None \<Rightarrow> False)"

lemma psi_begin_out:
  assumes "wf_table t" "0 \<le> ptr" "ptr \<le> end_ptr" "end_ptr < int (length pkt)"
  shows "table_out pkt (psi_begin pkt ptr end_ptr t)"
proof (cases "ptr + 1 < end_ptr \<and> \<not> end_ptr - (ptr + 1) < 3")
  case True
  obtain c where c: "rd pkt (ptr + 1) = Some c" using True assms by (auto simp: rd_def)
  obtain l where l: "to_int pkt (ptr + 2) = Some l" using to_int_Some [of "ptr + 2" pkt] True assms by auto
  obtain bs where bs: "copy_from pkt (ptr + 4) (end_ptr - (ptr + 4)) = Some bs" "length bs = nat (end_ptr - (ptr + 4))"
    using copy_from_Some [of "ptr + 4" "end_ptr - (ptr + 4)" pkt] True assms by auto
  have a: "ptr + 1 + 1 = ptr + 2" "ptr + 1 + 3 = ptr + 4" by simp_all
  show ?thesis
  proof (cases "int (l mod 4096) > end_ptr - (ptr + 4) \<and> l mod 4096 \<le> max_buf_len")
    case ll: True
    then have "length bs \<le> max_buf_len" using bs(2) by linarith
    moreover from this obtain buf where "copy_to (t_buf t) 0 bs = Some buf" "length buf = max_buf_len"
      using copy_to_Some [of 0 bs "t_buf t"] assms(1) by (auto simp: wf_table_def)
    ultimately show ?thesis using True c l bs ll assms(1) unfolding psi_begin_def Let_def a
      by (auto simp: table_out_def wf_table_def)
  next
    case False
    then show ?thesis using True c l assms unfolding psi_begin_def Let_def a
      by (auto simp: table_out_def)
  qed
next
  case False
  then show ?thesis using assms by (auto simp: psi_begin_def Let_def table_out_def rd_def)
qed

lemma psi_next_out:
  assumes "wf_table t" "0 \<le> ptr" "ptr \<le> end_ptr" "end_ptr < int (length pkt)"
  shows "table_out pkt (psi_next pkt ptr end_ptr t)"
proof (cases "t_offset t = 0 \<or> end_ptr - ptr > int max_buf_len - int (t_offset t)")
  case True
  then show ?thesis using assms(1) by (auto simp: psi_next_def Let_def table_out_def)
next
  case False
  obtain bs where bs: "copy_from pkt ptr (end_ptr - ptr) = Some bs" "length bs = nat (end_ptr - ptr)"
    using copy_from_Some [of ptr "end_ptr - ptr" pkt] assms by auto
  have fits: "t_offset t + length bs \<le> max_buf_len" using bs(2) False assms(1) by (auto simp: wf_table_def)
  then obtain buf where buf: "copy_to (t_buf t) (t_offset t) bs = Some buf" "length buf = max_buf_len"
    using copy_to_Some [of "t_offset t" bs "t_buf t"] assms(1) by (auto simp: wf_table_def)
  show ?thesis using False bs buf fits assms(1)
    by (auto simp: psi_next_def Let_def table_out_def wf_table_def max_buf_len_def)
qed

lemma psi_packet_safe:
  assumes "wf_demuxer d" "0 \<le> ptr" "ptr \<le> end_ptr" "end_ptr < int (length pkt)"
  shows "silent d (psi_packet pkt ptr end_ptr start pid d)"
proof -
  let ?x = "(if start then psi_begin else psi_next) pkt ptr end_ptr (s_psi (stream_at d pid))"
  have "table_out pkt ?x"
    using psi_begin_out psi_next_out wf_stream_at [OF assms(1)] assms(2-4) by simp
  then obtain r t where x: "?x = Some (r, t)" "wf_table t"
    "\<And>mem p e. r = Psi_table mem p e \<Longrightarrow> 0 \<le> p \<and> e \<le> int (length mem) \<and> (p + 7 < e \<longrightarrow> p + 8 < int (length mem))"
    by (auto simp: table_out_def split: option.splits prod.splits psi_out.splits)
  let ?d = "set_stream pid ((stream_at d pid)\<lparr>s_psi := t\<rparr>) d"
  have w: "wf_demuxer ?d" using assms(1) x(2) by (simp add: wf_set_stream)
  show ?thesis
  proof (cases r)
    case (Psi_return n)
    then show ?thesis using x(1) w by (simp add: psi_packet_def)
  next
    case (Psi_table mem p e)
    have "silent ?d (parse_pat mem p e ?d)" "silent ?d (parse_pmt mem p e pid ?d)"
      using x(3) [OF Psi_table] parse_pat_safe [OF w, of p e mem] parse_pmt_safe [OF w, of p e mem pid] by simp_all
    then have "silent ?d (if pid = 0 then parse_pat mem p e ?d else parse_pmt mem p e pid ?d)" by presburger
    then have "silent d (if pid = 0 then parse_pat mem p e ?d else parse_pmt mem p e pid ?d)"
      by (rule silent_cong [rotated]) simp
    then show ?thesis using x(1) Psi_table by (simp add: psi_packet_def Let_def)
  qed
qed

section \<open>Payload\<close>

lemma pes_collect_out:
  "wf_table t \<Longrightarrow> 0 \<le> ptr \<Longrightarrow> ptr \<le> end_ptr \<Longrightarrow> end_ptr \<le> int (length pkt) \<Longrightarrow>
   \<exists>r t'. pes_collect pkt ptr end_ptr t = Some (r, t') \<and> wf_table t' \<and>
     (case r of None \<Rightarrow> True | Some p \<Rightarrow> ptr \<le> p \<and> p \<le> end_ptr)"
proof (induction pkt ptr end_ptr t rule: pes_collect.induct)
  case (1 pkt ptr end_ptr t)
  show ?case
  proof (cases "t_offset t < t_len t \<and> \<not> end_ptr - ptr \<le> 0")
    case True
    let ?len = "min (end_ptr - ptr) (int (t_len t) - int (t_offset t))"
    obtain bs where bs: "copy_from pkt ptr ?len = Some bs" "length bs = nat ?len"
    proof -
      have "0 \<le> ?len" "ptr + ?len \<le> int (length pkt)" using True "1.prems" by linarith+
      then show ?thesis using copy_from_Some [of ptr ?len pkt] "1.prems" that by blast
    qed
    have fits: "t_offset t + length bs \<le> max_buf_len" using bs(2) True "1.prems"(1) by (auto simp: wf_table_def)
    then obtain buf where buf: "copy_to (t_buf t) (t_offset t) bs = Some buf" "length buf = max_buf_len"
      using copy_to_Some [of "t_offset t" bs "t_buf t"] "1.prems"(1) by (auto simp: wf_table_def)
    let ?t = "\<lparr>t_buf = buf, t_len = t_len t + (if t_len t = 9 then unat (buf ! 8) else 0),
               t_offset = t_offset t + nat ?len\<rparr>"
    have "unat (buf ! 8) < 256" using unsigned_less [of "buf ! 8"] by simp
    then have wf: "wf_table ?t" using buf fits bs(2) "1.prems"(1) by (auto simp: wf_table_def max_buf_len_def)
    have e: "pes_collect pkt ptr end_ptr t = pes_collect pkt (ptr + ?len) end_ptr ?t"
      using True bs(1) buf(1) by (subst pes_collect.simps) (simp add: Let_def)
    have "\<exists>r t'. pes_collect pkt (ptr + ?len) end_ptr ?t = Some (r, t') \<and> wf_table t' \<and>
        (case r of None \<Rightarrow> True | Some p \<Rightarrow> ptr + ?len \<le> p \<and> p \<le> end_ptr)"
      using True "1.prems" wf by (intro "1.IH" [OF _ _ refl bs(1) buf(1)]) auto
    moreover have "0 \<le> ?len" using True by simp
    ultimately show ?thesis unfolding e by (fastforce split: option.splits)
  next
    case False
    then show ?thesis using "1.prems" by (subst pes_collect.simps) auto
  qed
qed

lemma decode_pts_Some: "5 \<le> length p \<Longrightarrow> \<exists>v. decode_pts p = Some v"
  by (auto simp: decode_pts_def rd_def)

lemma pes_header_out:
  assumes "wf_table (s_psi s)"
  shows "\<exists>r s'. pes_header d s = Some (r, s') \<and> wf_table (s_psi s')"
proof -
  let ?b = "t_buf (s_psi s)"
  have l: "length ?b = 512" using assms by (simp add: wf_table_def max_buf_len_def)
  obtain pts dts where v: "decode_pts (drop 9 ?b) = Some pts" "decode_pts (drop 14 ?b) = Some dts"
    using decode_pts_Some [of "drop 9 ?b"] decode_pts_Some [of "drop 14 ?b"] l by auto
  have r: "rd ?b 3 = Some (?b ! 3)" "rd ?b 7 = Some (?b ! 7)" using l by (simp_all add: rd_def)
  show ?thesis using assms
    by (simp add: pes_header_def Let_def v r pts_only_def pts_and_dts_def split: option.splits)
qed

text \<open>The part of a packet that goes to a stream buffer, if any does.\<close>

definition sends :: "demuxer \<Rightarrow> byte list \<Rightarrow> (int \<times> demuxer) option \<Rightarrow> bool" where
  "sends d0 bs x =
     (case x of
        None \<Rightarrow> False
      | Some (r, d) \<Rightarrow>
          wf_demuxer d \<and>
          (targets d = targets d0 \<or>
           targets d = (append_call bs (demux_target_left d0), demux_target_right d0) \<or>
           targets d = (demux_target_left d0, append_call bs (demux_target_right d0))))"

lemma sends_cong: "targets d0 = targets d1 \<Longrightarrow> sends d0 bs x = sends d1 bs x"
  by (cases x) (auto simp: sends_def targets_def)

lemma silent_sends: "silent d0 x \<Longrightarrow> sends d0 bs x"
  by (auto simp: silent_def sends_def split: option.splits)

lemma pes_payload_sends:
  assumes "wf_demuxer d" "targets d = targets d0"
  shows "sends d0 bs (Some (0, pes_payload bs pid d))"
proof -
  have t: "demux_target_left d = demux_target_left d0" "demux_target_right d = demux_target_right d0"
    using assms(2) by (simp_all add: targets_def)
  have w: "wf_demuxer (set_stream pid s d)" if "s_psi s = s_psi (stream_at d pid)" for s
    using that assms(1) wf_stream_at [OF assms(1), of pid] by (simp add: wf_set_stream)
  show ?thesis using w t
    by (auto simp: sends_def pes_payload_def Let_def targets_def set_stream_def)
qed

lemma pes_packet_sends:
  assumes "wf_demuxer d" "0 \<le> ptr" "ptr \<le> end_ptr" "end_ptr \<le> int (length pkt)"
  shows "\<exists>p. ptr \<le> p \<and> p \<le> end_ptr \<and> sends d (slice (nat p) (nat (end_ptr - p)) pkt) (pes_packet pkt ptr end_ptr start pid d)"
proof -
  let ?s = "stream_at d pid"
  let ?t = "if start then (table_reset (s_psi ?s))\<lparr>t_len := 9\<rparr> else s_psi ?s"
  have "wf_table (s_psi ?s)" using wf_stream_at [OF assms(1)] .
  then have "wf_table ?t" by (simp add: wf_table_def table_reset_def max_buf_len_def)
  from pes_collect_out [OF this assms(2-4)] obtain r t where
    c: "pes_collect pkt ptr end_ptr ?t = Some (r, t)" "wf_table t"
    "case r of None \<Rightarrow> True | Some p \<Rightarrow> ptr \<le> p \<and> p \<le> end_ptr" by blast
  show ?thesis
  proof (cases r)
    case None
    then have "silent d (pes_packet pkt ptr end_ptr start pid d)"
      using c assms(1) by (simp add: pes_packet_def wf_set_stream)
    then show ?thesis using silent_sends assms(3) by blast
  next
    case (Some p)
    obtain n s where h: "(if t_len t \<noteq> 0 then pes_header d (?s\<lparr>s_psi := t\<rparr>) else Some (0, ?s\<lparr>s_psi := t\<rparr>)) = Some (n, s)"
      "wf_table (s_psi s)"
    proof (cases "t_len t = 0")
      case True
      then show ?thesis using that [of 0 "?s\<lparr>s_psi := t\<rparr>"] c(2) by simp
    next
      case False
      then show ?thesis using that pes_header_out [of "?s\<lparr>s_psi := t\<rparr>" d] c(2) by auto
    qed
    let ?d = "set_stream pid s d"
    have w: "wf_demuxer ?d" "targets ?d = targets d" using assms(1) h(2) by (simp_all add: wf_set_stream)
    have p: "ptr \<le> p" "p \<le> end_ptr" using c(3) Some by simp_all
    let ?bs = "slice (nat p) (nat (end_ptr - p)) pkt"
    have bs: "copy_from pkt p (end_ptr - p) = Some ?bs" using p assms by (simp add: copy_from_def)
    have e: "pes_packet pkt ptr end_ptr start pid d =
        (if n \<noteq> 0 then Some (n, ?d) else if s_frame_num s \<noteq> 0 then Some (0, pes_payload ?bs pid ?d) else Some (0, ?d))"
      using c(1) Some h(1) bs by (simp add: pes_packet_def Let_def)
    have "sends d ?bs (pes_packet pkt ptr end_ptr start pid d)"
      unfolding e using w pes_payload_sends [OF w] silent_sends [of d "Some (n, ?d)"] silent_sends [of d "Some (0, ?d)"]
      by simp
    then show ?thesis using p by blast
  qed
qed

text \<open>The dispatch of a packet: the byte where its payload starts, and the stream it belongs to.\<close>

definition payload_start :: "byte \<Rightarrow> byte \<Rightarrow> int" where
  "payload_start flags a = 4 + (if flags AND 0x20 \<noteq> 0 then int (unat a) + 1 else 0)"

lemma demux_ts_packet_eq:
  assumes "\<not> d_hdmv d" "rd pkt 0 = Some b" "to_int pkt 1 = Some w" "rd pkt 3 = Some flags" "rd pkt 4 = Some a"
    "d1 = set_stream (w mod 8192) (stream_at d (w mod 8192)) d" "s = stream_at d1 (w mod 8192)"
  shows "demux_ts_packet pkt d =
    (if b \<noteq> 0x47 then Some (-1, d)
     else if odd (w div 32768) then Some (-2, d)
     else if w mod 8192 = 0x1fff \<or> flags AND 0x10 = 0 then Some (0, d)
     else if flags AND 0x20 \<noteq> 0 \<and> payload_start flags a \<ge> 188 then Some (-3, d)
     else if w mod 8192 = 0 \<or> (s_channel s \<noteq> 0xffff \<and> s_type s = 0xff)
     then psi_packet pkt (payload_start flags a) 188 (odd (w div 16384)) (w mod 8192) d1
     else if s_type s \<noteq> 0xff then pes_packet pkt (payload_start flags a) 188 (odd (w div 16384)) (w mod 8192) d1
     else Some (0, d1))"
  using assms by (simp add: demux_ts_packet_def Let_def payload_start_def)

lemma demux_cases:
  assumes "\<not> d_hdmv d" "length pkt = 192" "wf_demuxer d"
  shows "silent d (demux_ts_packet pkt d) \<or>
    (\<exists>d1 ptr start pid. wf_demuxer d1 \<and> targets d1 = targets d \<and> 4 \<le> ptr \<and> ptr \<le> 188 \<and>
       demux_ts_packet pkt d \<in> {psi_packet pkt ptr 188 start pid d1, pes_packet pkt ptr 188 start pid d1})"
proof -
  obtain b w flags a where v: "rd pkt 0 = Some b" "to_int pkt 1 = Some w" "rd pkt 3 = Some flags" "rd pkt 4 = Some a"
    using assms(2) to_int_Some [of 1 pkt] by (auto simp: rd_def)
  let ?d = "set_stream (w mod 8192) (stream_at d (w mod 8192)) d"
  have wd: "wf_demuxer ?d" "targets ?d = targets d" using assms(3) by (simp_all add: wf_set_stream wf_stream_at)
  note e = demux_ts_packet_eq [OF assms(1) v refl refl]
  show ?thesis
  proof (cases "b \<noteq> 0x47 \<or> odd (w div 32768) \<or> (w mod 8192 = 0x1fff \<or> flags AND 0x10 = 0) \<or>
      (flags AND 0x20 \<noteq> 0 \<and> payload_start flags a \<ge> 188)")
    case True
    then have "silent d (demux_ts_packet pkt d)" unfolding e using assms(3) by auto
    then show ?thesis ..
  next
    case False
    then have ptr: "4 \<le> payload_start flags a" "payload_start flags a \<le> 188" by (auto simp: payload_start_def)
    have nf: "(b \<noteq> 0x47) = False" "odd (w div 32768) = False" "(w mod 8192 = 0x1fff \<or> flags AND 0x10 = 0) = False"
      "(flags AND 0x20 \<noteq> 0 \<and> payload_start flags a \<ge> 188) = False"
      using False by blast+
    note e2 = e [unfolded nf if_False]
    show ?thesis
    proof (cases "s_type (stream_at ?d (w mod 8192)) = 0xff \<and>
        \<not> (w mod 8192 = 0 \<or> s_channel (stream_at ?d (w mod 8192)) \<noteq> 0xffff)")
      case True
      then have "demux_ts_packet pkt d = Some (0, ?d)" unfolding e2 by simp
      then show ?thesis using wd by simp
    next
      case False
      then have "demux_ts_packet pkt d \<in>
        {psi_packet pkt (payload_start flags a) 188 (odd (w div 16384)) (w mod 8192) ?d,
         pes_packet pkt (payload_start flags a) 188 (odd (w div 16384)) (w mod 8192) ?d}"
        unfolding e2 by auto
      then show ?thesis using wd ptr by blast
    qed
  qed
qed


definition sample_demuxer :: demuxer where
  "sample_demuxer =
     \<lparr>demux_target_left = Some [], demux_target_right = Some [],
      d_streams = [32 \<mapsto> (new_stream (replicate 512 0))\<lparr>s_channel := 1, s_type := 0x1b, s_frame_num := 1\<rparr>,
                   1 \<mapsto> (new_stream (replicate 512 0))\<lparr>s_channel := 1\<rparr>],
      d_hdmv = False, d_av_only = False, d_parse_only = True, d_channel = 0, d_pes_output = False, d_es_parse = True,
      d_junk = replicate 512 0, d_can_open = \<lambda>_. False\<rparr>"

text \<open>A packet of stream 32 whose adaptation field leaves the last three bytes as payload.\<close>

definition sample_packet :: "byte list" where
  "sample_packet = [0x47, 0x00, 0x20, 0x30, 180] @ replicate 180 0xff @ [7, 8, 9] @ replicate 4 0"


text \<open>
  In an M2TS packet, which fills the array of 192 bytes, a program map whose header ends with the packet is
  read one byte behind it.
\<close>

theorem m2ts_map_reads_behind: "length pkt = 192 \<Longrightarrow> parse_pmt pkt 184 192 pid d = None"
  by (simp add: parse_pmt_def to_int_def rd_def)

text \<open>A PES header of which one packet holds four bytes: the length of the rest comes from an old byte.\<close>

theorem pes_length_from_old_byte:
  "map_option (\<lambda>(r, t). (r, t_len t))
     (pes_collect ([0, 0, 1, 0xe0] @ replicate 4 0) 0 4 \<lparr>t_buf = replicate 12 0x21, t_len = 9, t_offset = 0\<rparr>) =
   Some (None, 42)"
  by code_simp

end
