(* ===== verification/Pgs.thy ===== *)
theory Pgs
  imports SrtTable
begin

text \<open>
  The parser of Blu-ray presentation graphics (\<open>dwindow/PGS/PGSParser.cpp\<close>): packets in a byte stream that
  comes in pieces, the segments that make up a subtitle, the table of subtitles, and the run-length
  decoder.  \<^theory_text>\<open>None\<close> is an access outside a buffer.  The colour conversion \<open>YUV2RGB\<close>, which computes with
  doubles, is the parameter \<open>yuv\<close>.
\<close>

unbundle bit_operations_syntax

section \<open>State\<close>

record pgs_subtitle =
  g_start :: int
  g_end :: int
  g_window_left :: int
  g_window_top :: int
  g_window_width :: int
  g_window_height :: int
  g_left :: int
  g_top :: int
  g_width :: int
  g_height :: int
  g_rle_size :: int
  g_palette :: "u32 list"
  g_rle :: "byte list option"
  g_rgb :: "u32 list option"

text \<open>\<open>memset(&m_current_subtitle, 0, ...)\<close>\<close>

definition zero_subtitle :: pgs_subtitle where
  "zero_subtitle =
     \<lparr>g_start = 0, g_end = 0, g_window_left = 0, g_window_top = 0, g_window_width = 0, g_window_height = 0,
      g_left = 0, g_top = 0, g_width = 0, g_height = 0, g_rle_size = 0, g_palette = replicate 256 0,
      g_rle = None, g_rgb = None\<rparr>"

text \<open>\<open>pg_data\<close> are the first \<open>m_data_pos\<close> bytes of \<open>m_data\<close>, \<open>pg_subtitles\<close> the entries in use.\<close>

record pgs_parser =
  pg_data :: "byte list"
  pg_subtitles :: "pgs_subtitle list"
  pg_possible_start :: int
  pg_current :: pgs_subtitle
  pg_has_seg :: bool
  pg_total_width :: int
  pg_total_height :: int

definition pgs_seek :: "pgs_parser \<Rightarrow> pgs_parser" where
  "pgs_seek s = s\<lparr>pg_data := [], pg_current := zero_subtitle\<lparr>g_start := -1\<rparr>, pg_has_seg := False\<rparr>"

definition pgs_reset :: "pgs_parser \<Rightarrow> pgs_parser" where
  "pgs_reset s =
     s\<lparr>pg_data := [], pg_subtitles := [], pg_has_seg := False, pg_current := zero_subtitle\<lparr>g_start := -1\<rparr>\<rparr>"

section \<open>Segments\<close>

definition readDWORD :: "byte list \<Rightarrow> int option" where
  "readDWORD d = do { a \<leftarrow> rd d 0; b \<leftarrow> rd d 1; c \<leftarrow> rd d 2; e \<leftarrow> rd d 3; Some (be32 a b c e) }"

definition readWORD :: "byte list \<Rightarrow> int option" where
  "readWORD d = do { a \<leftarrow> rd d 0; b \<leftarrow> rd d 1; Some (be16 a b) }"

definition complete :: "pgs_subtitle \<Rightarrow> bool" where
  "complete c \<longleftrightarrow>
     g_start c \<noteq> -1 \<and> g_rle c \<noteq> None \<and> 0 < g_width c \<and> g_width c < 4096 \<and> 0 < g_height c \<and> g_height c < 4096"

definition near_sub :: "pgs_subtitle \<Rightarrow> pgs_subtitle \<Rightarrow> bool" where
  "near_sub c i \<longleftrightarrow>
     cabs (wrap32 (g_start i - g_start c)) < 10 \<and> cabs (wrap32 (g_end i - g_end c)) < 10"

definition parsePresentaionSegment :: "byte list \<Rightarrow> int \<Rightarrow> pgs_parser \<Rightarrow> (hresult \<times> pgs_parser) option" where
  "parsePresentaionSegment data time s =
     (let cur = (pg_current s)\<lparr>g_end := time\<rparr>
      in if complete (pg_current s) \<and> list_ex (near_sub cur) (pg_subtitles s)
         then Some (S_FALSE, s\<lparr>pg_current := zero_subtitle\<rparr>)
         else if complete (pg_current s) \<and> length (pg_subtitles s) \<ge> 40960 then None
         else do {
           let s = (if complete (pg_current s) then s\<lparr>pg_subtitles := pg_subtitles s @ [cur]\<rparr> else s);
           let s = s\<lparr>pg_current := zero_subtitle\<lparr>g_start := -1\<rparr>, pg_possible_start := time, pg_has_seg := True\<rparr>;
           if length data \<ge> 4
           then do { w \<leftarrow> readWORD data; h \<leftarrow> readWORD (drop 2 data);
                     Some (S_OK, s\<lparr>pg_total_width := w, pg_total_height := h\<rparr>) }
           else Some (S_OK, s) })"

definition parseWindow :: "byte list \<Rightarrow> pgs_parser \<Rightarrow> (hresult \<times> pgs_parser) option" where
  "parseWindow data s =
     (if \<not> pg_has_seg s then Some (S_OK, s)
      else if length data < 10 then Some (S_OK, s)
      else do {
        b \<leftarrow> rd data 0;
        if b = 0 then Some (S_OK, s)
        else do {
          l \<leftarrow> readWORD (drop 2 data); t \<leftarrow> readWORD (drop 4 data);
          w \<leftarrow> readWORD (drop 6 data); h \<leftarrow> readWORD (drop 8 data);
          Some (S_OK, s\<lparr>pg_current := (pg_current s)\<lparr>g_window_left := l, g_window_top := t,
            g_window_width := w, g_window_height := h\<rparr>\<rparr>) } })"

text \<open>The loop over the colours; \<open>tmp\<close> is the rest of the segment.\<close>

fun palette_loop ::
  "(byte \<Rightarrow> byte \<Rightarrow> byte \<Rightarrow> byte \<Rightarrow> u32) \<Rightarrow> nat \<Rightarrow> byte list \<Rightarrow> u32 list \<Rightarrow> u32 list option" where
  "palette_loop yuv 0 tmp pal = Some pal"
| "palette_loop yuv (Suc n) (i # y # cr # cb # a # tmp) pal = palette_loop yuv n tmp (pal[unat i := yuv y cr cb a])"
| "palette_loop yuv (Suc n) _ pal = None"

definition parsePalette ::
  "(byte \<Rightarrow> byte \<Rightarrow> byte \<Rightarrow> byte \<Rightarrow> u32) \<Rightarrow> byte list \<Rightarrow> pgs_parser \<Rightarrow> (hresult \<times> pgs_parser) option" where
  "parsePalette yuv data s =
     (let n_colors = nat (cdiv (int (length data) - 2) 5)
      in if \<not> pg_has_seg s then Some (S_OK, s)
         else if n_colors \<ge> 256 then Some (E_FAIL, s)
         else map_option (\<lambda>pal. (S_OK, s\<lparr>pg_current := (pg_current s)\<lparr>g_palette := pal\<rparr>\<rparr>))
                (palette_loop yuv n_colors (drop 2 data) (g_palette (pg_current s))))"

text \<open>An object of fewer than eleven bytes, or a continuation of fewer than four, copies a negative size.\<close>

definition parseObject :: "byte list \<Rightarrow> pgs_parser \<Rightarrow> (hresult \<times> pgs_parser) option" where
  "parseObject data s =
     (let cur = pg_current s; sz = int (length data)
      in if \<not> pg_has_seg s then Some (S_OK, s)
         else if g_rle_size cur = 0
         then do {
           w \<leftarrow> readWORD (drop 7 data); h \<leftarrow> readWORD (drop 9 data);
           if sz < 11 then None
           else Some (S_OK, s\<lparr>pg_current :=
             cur\<lparr>g_width := w, g_height := h,
                 g_left := g_window_left cur + cdiv (g_window_width cur - w) 2,
                 g_top := g_window_top cur + cdiv (g_window_height cur - h) 2,
                 g_rle_size := sz - 11, g_rle := Some (drop 11 data)\<rparr>\<rparr>) }
         else if sz < 4 then None
         else case g_rle cur of
                None \<Rightarrow> None
              | Some r \<Rightarrow> Some (S_OK, s\<lparr>pg_current :=
                  cur\<lparr>g_rle_size := g_rle_size cur + (sz - 4), g_rle := Some (r @ drop 4 data)\<rparr>\<rparr>))"

definition parseDisplay :: "pgs_parser \<Rightarrow> (hresult \<times> pgs_parser) option" where
  "parseDisplay s =
     (if \<not> pg_has_seg s then Some (S_OK, s)
      else Some (S_OK, s\<lparr>pg_current := (pg_current s)\<lparr>g_start := pg_possible_start s\<rparr>\<rparr>))"

definition parse_raw_element ::
  "(byte \<Rightarrow> byte \<Rightarrow> byte \<Rightarrow> byte \<Rightarrow> u32) \<Rightarrow> byte list \<Rightarrow> byte \<Rightarrow> int \<Rightarrow> pgs_parser \<Rightarrow> (hresult \<times> pgs_parser) option" where
  "parse_raw_element yuv data ty start s =
     (if ty = 0x16 then parsePresentaionSegment data start s
      else if ty = 0x17 then parseWindow data s
      else if ty = 0x14 then parsePalette yuv data s
      else if ty = 0x15 then parseObject data s
      else if ty = 0x80 then parseDisplay s
      else if ty \<in> set [0x18, 0x81, 0x82] then Some (S_OK, s)
      else Some (E_FAIL, s))"

section \<open>The stream\<close>

fun find_header :: "byte list \<Rightarrow> byte list" where
  "find_header (a # b # d) = (if a = 80 \<and> b = 0x47 then a # b # d else find_header (b # d))"
| "find_header d = d"

lemma length_find_header: "length (find_header d) \<le> length d"
  by (induction d rule: find_header.induct) auto

text \<open>The loop of \<open>parse\<close> over the data; what is left of them, and the new state.\<close>

definition packet_size :: "byte list \<Rightarrow> nat" where
  "packet_size d = nat (be16 (d ! 11) (d ! 12))"

definition packet_start :: "byte list \<Rightarrow> int" where
  "packet_start d = be32 (d ! 2) (d ! 3) (d ! 4) (d ! 5) div 90"

function parse_loop ::
  "(byte \<Rightarrow> byte \<Rightarrow> byte \<Rightarrow> byte \<Rightarrow> u32) \<Rightarrow> byte list \<Rightarrow> pgs_parser \<Rightarrow> (byte list \<times> pgs_parser) option" where
  "parse_loop yuv data s =
     (let d = find_header data
      in if length d < 13 then Some (d, s)
         else if length d < 13 + packet_size d then Some (d, s)
         else case parse_raw_element yuv (slice 13 (packet_size d) d) (d ! 10) (packet_start d) s of
                None \<Rightarrow> None
              | Some (hr, s) \<Rightarrow> parse_loop yuv (drop (13 + packet_size d) d) s)"
  by pat_completeness auto
termination
proof (relation "measure (\<lambda>(yuv, data, s). length data)", goal_cases)
  case (2 yuv data s d hr s')
  then show ?case
    using length_find_header [of data] by (simp add: not_less)
qed simp

declare parse_loop.simps [simp del]

definition pgs_add_data ::
  "(byte \<Rightarrow> byte \<Rightarrow> byte \<Rightarrow> byte \<Rightarrow> u32) \<Rightarrow> byte list \<Rightarrow> pgs_parser \<Rightarrow> (hresult \<times> pgs_parser) option" where
  "pgs_add_data yuv data s =
     (if length (pg_data s) + length data \<ge> 2048000 then Some (S_OK, s\<lparr>pg_data := []\<rparr>)
      else map_option (\<lambda>(d, s). (S_OK, s\<lparr>pg_data := d\<rparr>)) (parse_loop yuv (pg_data s @ data) s))"

section \<open>Run-length decoding\<close>

datatype rle_token = New_line | Run nat nat

text \<open>One code: what it says, and the rest.\<close>

definition rle_code :: "byte list \<Rightarrow> (rle_token \<times> byte list) option" where
  "rle_code r = do {
     b \<leftarrow> rd r 0;
     if b \<noteq> 0 then Some (Run 1 (unat b), drop 1 r)
     else do {
       b \<leftarrow> rd r 1;
       if b = 0 then Some (New_line, drop 2 r)
       else if b AND 0xC0 = 0x40 then do { c \<leftarrow> rd r 2; Some (Run ((unat b - 0x40) * 256 + unat c) 0, drop 3 r) }
       else if b AND 0xC0 = 0x80 then do { c \<leftarrow> rd r 2; Some (Run (unat b - 0x80) (unat c), drop 3 r) }
       else if b AND 0xC0 \<noteq> 0
       then do { c \<leftarrow> rd r 2; e \<leftarrow> rd r 3; Some (Run ((unat b - 0xC0) * 256 + unat c) (unat e), drop 4 r) }
       else Some (Run (unat b) 0, drop 2 r) } }"

lemma rle_code_shorter: "rle_code r = Some (t, r') \<Longrightarrow> length r' < length r"
  by (auto simp: rle_code_def rd_eq_Some_iff split: bind_splits if_splits)

text \<open>The loop that draws; whether the picture ran over, the position and the picture.\<close>

fun draw :: "nat \<Rightarrow> u32 \<Rightarrow> nat \<Rightarrow> nat \<Rightarrow> u32 list \<Rightarrow> bool \<times> nat \<times> u32 list" where
  "draw 0 v lim pos dec = (False, pos, dec)"
| "draw (Suc n) v lim pos dec =
     (if pos \<ge> lim then (True, pos, dec) else draw n v lim (pos + 1) (dec[pos := v]))"

function rle_loop :: "u32 list \<Rightarrow> nat \<Rightarrow> nat \<Rightarrow> byte list \<Rightarrow> nat \<Rightarrow> nat \<Rightarrow> u32 list \<Rightarrow> u32 list option" where
  "rle_loop pal w h r pos xpos dec =
     (case rle_code r of
        None \<Rightarrow> None
      | Some (New_line, r) \<Rightarrow>
          if w = 0 then None
          else (let pos = (if xpos < w then pos + (w - pos mod w) else pos - pos mod w)
                in if pos < w * h \<and> r \<noteq> [] then rle_loop pal w h r pos 0 dec else Some dec)
      | Some (Run n c, r) \<Rightarrow>
          (case draw n (pal ! c) (w * h) pos dec of
             (over, pos, dec) \<Rightarrow>
               if over then Some dec
               else if pos < w * h \<and> r \<noteq> [] then rle_loop pal w h r pos (xpos + n) dec else Some dec))"
  by pat_completeness auto
termination
  by (relation "measure (\<lambda>(pal, w, h, r, pos, xpos, dec). length r)") (auto dest: rle_code_shorter)

declare rle_loop.simps [simp del]

text \<open>\<open>decodeRLE\<close>; \<open>junk\<close> are the contents of the new picture.\<close>

definition decodeRLE :: "(nat \<Rightarrow> u32 list) \<Rightarrow> pgs_subtitle \<Rightarrow> (hresult \<times> pgs_subtitle) option" where
  "decodeRLE junk sub =
     (case g_rle sub of
        None \<Rightarrow> Some (E_FAIL, sub)
      | Some r \<Rightarrow>
          map_option (\<lambda>dec. (S_OK, sub\<lparr>g_rgb := Some dec\<rparr>))
            (rle_loop (g_palette sub) (nat (g_width sub)) (nat (g_height sub)) r 0 0
               (junk (nat (g_width sub) * nat (g_height sub)))))"

definition shown :: "int \<Rightarrow> int \<Rightarrow> pgs_subtitle \<Rightarrow> bool" where
  "shown t0 t1 i \<longleftrightarrow> (g_start i \<le> t0 \<and> t0 \<le> g_end i) \<or> (g_start i \<le> t1 \<and> t1 \<le> g_end i)"

text \<open>The index found, or \<open>E_FAIL\<close>, and \<open>*out\<close>.\<close>

definition pgs_find_subtitle ::
  "(nat \<Rightarrow> u32 list) \<Rightarrow> int \<Rightarrow> int \<Rightarrow> pgs_subtitle \<Rightarrow> pgs_parser \<Rightarrow> (nat option \<times> pgs_subtitle) option" where
  "pgs_find_subtitle junk t0 t1 out s =
     (case first_index (shown t0 t1) 0 (pg_subtitles s) of
        None \<Rightarrow> Some (None, out\<lparr>g_start := -1, g_end := -1, g_rgb := None\<rparr>)
      | Some (k, i) \<Rightarrow> map_option (\<lambda>(hr, out). (Some k, out\<lparr>g_rle := None\<rparr>)) (decodeRLE junk i))"

section \<open>Small instances\<close>

definition some_parser :: pgs_parser where
  "some_parser = \<lparr>pg_data = [], pg_subtitles = [], pg_possible_start = 0, pg_current = zero_subtitle\<lparr>g_start := -1\<rparr>,
     pg_has_seg = False, pg_total_width = 0, pg_total_height = 0\<rparr>"

definition some_yuv :: "byte \<Rightarrow> byte \<Rightarrow> byte \<Rightarrow> byte \<Rightarrow> u32" where
  "some_yuv y cr cb a = push_bit 24 (ucast a) OR push_bit 16 (ucast y) OR push_bit 8 (ucast y) OR ucast y"

section \<open>The decoder against a reference encoder\<close>

text \<open>The code for \<open>n\<close> pixels of colour \<open>c\<close>, and the code for a line.\<close>

definition encode_run :: "nat \<times> byte \<Rightarrow> byte list" where
  "encode_run = (\<lambda>(n, c).
     if c \<noteq> 0 \<and> n = 1 then [c]
     else if c = 0 \<and> n < 64 then [0, of_nat n]
     else if c = 0 then [0, 0x40 + of_nat (n div 256), of_nat (n mod 256)]
     else if n < 64 then [0, 0x80 + of_nat n, c]
     else [0, 0xC0 + of_nat (n div 256), of_nat (n mod 256), c])"

definition encode_line :: "(nat \<times> byte) list \<Rightarrow> byte list" where
  "encode_line l = concat (map encode_run l) @ [0, 0]"

definition run_ok :: "nat \<times> byte \<Rightarrow> bool" where
  "run_ok r \<longleftrightarrow> 0 < fst r \<and> fst r < 16384"

definition line_pixels :: "u32 list \<Rightarrow> (nat \<times> byte) list \<Rightarrow> u32 list" where
  "line_pixels pal l = concat (map (\<lambda>(n, c). replicate n (pal ! unat c)) l)"

definition line_width :: "(nat \<times> byte) list \<Rightarrow> nat" where
  "line_width l = sum_list (map fst l)"

lemma length_line_pixels [simp]: "length (line_pixels pal l) = line_width l"
  by (induction l) (auto simp: line_pixels_def line_width_def)

lemma flag_bits:
  "n < 64 \<Longrightarrow> unat (of_nat n :: byte) = n"
  "n < 64 \<Longrightarrow> (of_nat n :: byte) AND 0xC0 = 0"
  "n < 64 \<Longrightarrow> unat (0x40 + of_nat n :: byte) = 0x40 + n"
  "n < 64 \<Longrightarrow> (0x40 + of_nat n :: byte) AND 0xC0 = 0x40"
  "n < 64 \<Longrightarrow> unat (0x80 + of_nat n :: byte) = 0x80 + n"
  "n < 64 \<Longrightarrow> (0x80 + of_nat n :: byte) AND 0xC0 = 0x80"
  "n < 64 \<Longrightarrow> unat (0xC0 + of_nat n :: byte) = 0xC0 + n"
  "n < 64 \<Longrightarrow> (0xC0 + of_nat n :: byte) AND 0xC0 = 0xC0"
proof -
  have A: "\<forall>n\<in>set [0..<64]. unat (of_nat n :: byte) = n \<and> (of_nat n :: byte) AND 0xC0 = 0 \<and>
     unat (0x40 + of_nat n :: byte) = 0x40 + n \<and> (0x40 + of_nat n :: byte) AND 0xC0 = 0x40 \<and>
     unat (0x80 + of_nat n :: byte) = 0x80 + n \<and> (0x80 + of_nat n :: byte) AND 0xC0 = 0x80 \<and>
     unat (0xC0 + of_nat n :: byte) = 0xC0 + n \<and> (0xC0 + of_nat n :: byte) AND 0xC0 = 0xC0"
    by code_simp
  show "n < 64 \<Longrightarrow> unat (of_nat n :: byte) = n"
    "n < 64 \<Longrightarrow> (of_nat n :: byte) AND 0xC0 = 0"
    "n < 64 \<Longrightarrow> unat (0x40 + of_nat n :: byte) = 0x40 + n"
    "n < 64 \<Longrightarrow> (0x40 + of_nat n :: byte) AND 0xC0 = 0x40"
    "n < 64 \<Longrightarrow> unat (0x80 + of_nat n :: byte) = 0x80 + n"
    "n < 64 \<Longrightarrow> (0x80 + of_nat n :: byte) AND 0xC0 = 0x80"
    "n < 64 \<Longrightarrow> unat (0xC0 + of_nat n :: byte) = 0xC0 + n"
    "n < 64 \<Longrightarrow> (0xC0 + of_nat n :: byte) AND 0xC0 = 0xC0"
    using A by simp_all
qed

lemma flag_nonzero: "b AND 0xC0 = (c :: byte) \<Longrightarrow> c \<noteq> 0 \<Longrightarrow> b \<noteq> 0"
  by auto

lemma unat_low [simp]: "unat (of_nat (n mod 256) :: byte) = n mod 256"
  by (simp add: unat_of_nat)

lemma rle_code_encode_run:
  assumes "run_ok (n, c)"
  shows "rle_code (encode_run (n, c) @ r) = Some (Run n (unat c), r)"
proof -
  have n: "0 < n" "n < 16384"
    using assms by (auto simp: run_ok_def)
  then have d: "n div 256 < 64"
    by (simp add: less_mult_imp_div_less)
  have nz: "n < 64 \<Longrightarrow> (of_nat n :: byte) \<noteq> 0"
    using n flag_bits(1) [of n] by auto
  show ?thesis
    using n flag_bits [of n] flag_bits [OF d] nz
    by (auto simp: encode_run_def rle_code_def rd_tail flag_nonzero)
qed

text \<open>Drawing inside the picture is a copy of the run's pixels.\<close>

lemma draw_inside:
  "pos + n \<le> lim \<Longrightarrow> length dec = lim \<Longrightarrow> draw n v lim pos dec = (False, pos + n, blit dec pos (replicate n v))"
proof (induction n arbitrary: pos dec)
  case (Suc n)
  have "blit (dec[pos := v]) (Suc pos) (replicate n v) = blit dec pos (replicate (Suc n) v)"
    using Suc.prems by (intro nth_equalityI) (auto simp: blit_nth nth_list_update nth_Cons')
  then show ?case
    using Suc by simp
qed (simp add: blit_def)

lemma rle_loop_run:
  assumes "run_ok (n, c)" "pos + n \<le> w * h" "length dec = w * h" "r \<noteq> []"
  shows "rle_loop pal w h (encode_run (n, c) @ r) pos xpos dec =
    (let dec = blit dec pos (replicate n (pal ! unat c))
     in if pos + n < w * h then rle_loop pal w h r (pos + n) (xpos + n) dec else Some dec)"
  using assms by (subst rle_loop.simps) (simp add: rle_code_encode_run draw_inside Let_def)

lemma blit_blit: "i + length a + length b \<le> length d \<Longrightarrow> blit (blit d i a) (i + length a) b = blit d i (a @ b)"
  by (intro nth_equalityI) (auto simp: blit_nth nth_append)

lemma rle_loop_runs:
  assumes "list_all run_ok l" "pos + line_width l \<le> w * h" "length dec = w * h" "pos < w * h"
  shows "rle_loop pal w h (concat (map encode_run l) @ 0 # r) pos xpos dec =
    (let dec = blit dec pos (line_pixels pal l)
     in if pos + line_width l < w * h then rle_loop pal w h (0 # r) (pos + line_width l) (xpos + line_width l) dec
        else Some dec)"
  using assms
proof (induction l arbitrary: pos xpos dec)
  case Nil
  then show ?case
    by (simp add: line_width_def line_pixels_def blit_def)
next
  case (Cons x l)
  obtain n c where x: "x = (n, c)"
    by (cases x)
  have lw: "line_width (x # l) = n + line_width l" "line_pixels pal (x # l) = replicate n (pal ! unat c) @ line_pixels pal l"
    by (simp_all add: line_width_def line_pixels_def x)
  let ?r = "concat (map encode_run l) @ 0 # r" and ?d = "blit dec pos (replicate n (pal ! unat c))"
  have run: "rle_loop pal w h (encode_run x @ ?r) pos xpos dec =
      (if pos + n < w * h then rle_loop pal w h ?r (pos + n) (xpos + n) ?d else Some ?d)"
    using rle_loop_run [of n c pos w h dec ?r pal xpos] Cons.prems by (simp add: lw Let_def flip: x)
  have len: "length ?d = w * h"
    using Cons.prems by (simp add: lw)
  have blits: "blit ?d (pos + n) (line_pixels pal l) = blit dec pos (line_pixels pal (x # l))"
    using blit_blit [of pos "replicate n (pal ! unat c)" "line_pixels pal l" dec] Cons.prems by (simp add: lw)
  show ?case
  proof (cases "pos + n < w * h")
    case True
    then show ?thesis
      using Cons.IH [of "pos + n" ?d "xpos + n"] Cons.prems run len by (simp add: lw blits [unfolded lw] add.assoc Let_def)
  next
    case False
    then have "line_width l = 0"
      using Cons.prems by (simp add: lw)
    then have "line_pixels pal l = []"
      by (metis length_0_conv length_line_pixels)
    then show ?thesis
      using run False by (simp add: lw \<open>line_width l = 0\<close>)
  qed
qed

lemma rle_loop_new_line:
  assumes "0 < w" "pos = k * w" "k < h" "r \<noteq> []"
  shows "rle_loop pal w h (0 # 0 # r) pos w dec = rle_loop pal w h r pos 0 dec"
  using assms by (subst rle_loop.simps) (simp add: rle_code_def rd_tail)

text \<open>A picture: lines of the full width, as many as the height.\<close>

definition picture_ok :: "nat \<Rightarrow> nat \<Rightarrow> (nat \<times> byte) list list \<Rightarrow> bool" where
  "picture_ok w h ls \<longleftrightarrow> length ls = h \<and> list_all (\<lambda>l. list_all run_ok l \<and> line_width l = w) ls"

definition picture_pixels :: "u32 list \<Rightarrow> (nat \<times> byte) list list \<Rightarrow> u32 list" where
  "picture_pixels pal ls = concat (map (line_pixels pal) ls)"

definition encode_picture :: "(nat \<times> byte) list list \<Rightarrow> byte list" where
  "encode_picture ls = concat (map encode_line ls)"

lemma rle_loop_picture:
  assumes "0 < w" "picture_ok w n ls" "0 < n" "length dec = (k + n) * w"
  shows "rle_loop pal w (k + n) (encode_picture ls) (k * w) 0 dec = Some (blit dec (k * w) (picture_pixels pal ls))"
  using assms
proof (induction ls arbitrary: n k dec)
  case Nil
  then show ?case
    by (simp add: picture_ok_def)
next
  case (Cons l ls)
  obtain m where n: "n = Suc m"
    using Cons.prems(3) not0_implies_Suc by blast
  have l: "list_all run_ok l" "line_width l = w" and ls: "picture_ok w m ls"
    using Cons.prems(2) by (auto simp: picture_ok_def n)
  let ?d = "blit dec (k * w) (line_pixels pal l)"
  have len: "length ?d = (k + n) * w"
    using Cons.prems(4) l by (simp add: n algebra_simps)
  have more: "k * w + w < w * (k + n) \<longleftrightarrow> 0 < m"
    using Cons.prems(1) by (simp add: n algebra_simps)
  have line: "rle_loop pal w (k + n) (encode_picture (l # ls)) (k * w) 0 dec =
      (if 0 < m then rle_loop pal w (k + n) (0 # 0 # encode_picture ls) (k * w + w) w ?d else Some ?d)"
    using rle_loop_runs [of l "k * w" w "k + n" dec pal "0 # encode_picture ls" 0] Cons.prems(1,4) l more
    by (simp add: encode_picture_def encode_line_def n algebra_simps Let_def)
  show ?case
  proof (cases m)
    case 0
    then show ?thesis
      using line ls by (simp add: picture_ok_def picture_pixels_def)
  next
    case (Suc m')
    have "encode_picture ls \<noteq> []"
      using ls Suc by (cases ls) (auto simp: picture_ok_def encode_picture_def encode_line_def)
    then have "rle_loop pal w (k + n) (0 # 0 # encode_picture ls) (k * w + w) w ?d =
        rle_loop pal w (Suc k + m) (encode_picture ls) (Suc k * w) 0 ?d"
      using rle_loop_new_line [of w "k * w + w" "Suc k" "k + n" "encode_picture ls" pal ?d] Cons.prems(1) Suc
      by (simp add: n algebra_simps)
    also have "\<dots> = Some (blit ?d (Suc k * w) (picture_pixels pal ls))"
      using Cons.IH [of m ?d "Suc k"] Cons.prems(1) ls len Suc by (simp add: n)
    also have "blit ?d (Suc k * w) (picture_pixels pal ls) = blit dec (k * w) (picture_pixels pal (l # ls))"
    proof -
      have "length (picture_pixels pal ls) = m * w"
        using ls by (simp add: picture_pixels_def length_concat picture_ok_def list_all_iff comp_def
            sum_list_triv cong: map_cong)
      then show ?thesis
        using blit_blit [of "k * w" "line_pixels pal l" "picture_pixels pal ls" dec] Cons.prems(4) l
        by (simp add: picture_pixels_def n algebra_simps)
    qed
    finally show ?thesis
      using line Suc by simp
  qed
qed

lemma decode_picture:
  assumes "0 < g_width sub" "0 < g_height sub" "picture_ok (nat (g_width sub)) (nat (g_height sub)) ls"
    and "g_rle sub = Some (encode_picture ls)" "\<And>n. length (junk n) = n"
  shows "decodeRLE junk sub = Some (S_OK, sub\<lparr>g_rgb := Some (picture_pixels (g_palette sub) ls)\<rparr>)"
proof -
  let ?w = "nat (g_width sub)" and ?h = "nat (g_height sub)" and ?p = "picture_pixels (g_palette sub) ls"
  have "length ?p = ?h * ?w"
    using assms(3) by (simp add: picture_pixels_def length_concat picture_ok_def list_all_iff comp_def
        sum_list_triv cong: map_cong)
  then have "blit (junk (?w * ?h)) 0 ?p = ?p"
    using assms(5) by (simp add: blit_def mult.commute)
  then show ?thesis
    using rle_loop_picture [of ?w ?h ls "junk (?w * ?h)" 0 "g_palette sub"] assms
    by (simp add: decodeRLE_def mult.commute)
qed

text \<open>
  C24: the decoder inverts a reference encoder: for a picture of full lines, with runs of at most 16383
  pixels, \<open>decodeRLE\<close> stays inside both buffers and gives the colours of the palette, whatever the new
  buffer contained.
\<close>

theorem decode_encode_picture:
  assumes "0 < g_width sub" "0 < g_height sub" "picture_ok (nat (g_width sub)) (nat (g_height sub)) ls"
    and "g_rle sub = Some (encode_picture ls)" "\<And>n. length (junk n) = n"
  shows "decodeRLE junk sub = Some (S_OK, sub\<lparr>g_rgb := Some (picture_pixels (g_palette sub) ls)\<rparr>)"
  using assms by (rule decode_picture)

theorem decode_encode_picture_witness:
  "decodeRLE (\<lambda>n. replicate n 7)
     (zero_subtitle\<lparr>g_width := 3, g_height := 2, g_palette := [0, 10, 20],
        g_rle := Some (encode_picture [[(1, 1), (2, 2)], [(3, 0)]])\<rparr>) =
   Some (S_OK, zero_subtitle\<lparr>g_width := 3, g_height := 2, g_palette := [0, 10, 20],
        g_rle := Some (encode_picture [[(1, 1), (2, 2)], [(3, 0)]]), g_rgb := Some [10, 20, 20, 0, 0, 0]\<rparr>)"
proof -
  have "picture_pixels [0, 10, 20] [[(1, 1), (2, 2)], [(3, 0)]] = [10, 20, 20, 0, 0, 0]"
    "picture_ok 3 2 [[(1, 1), (2, 2)], [(3, 0)]]"
    by code_simp+
  then show ?thesis
    by (subst decode_encode_picture [where ls = "[[(1, 1), (2, 2)], [(3, 0)]]"]) (simp_all add: zero_subtitle_def)
qed

section \<open>The stream does not depend on how it is cut\<close>

lemma find_header_append: "find_header (find_header a @ b) = find_header (a @ b)"
  by (induction a rule: find_header.induct) auto

lemma find_header_found: "length (find_header a) \<ge> 2 \<Longrightarrow> find_header (a @ b) = find_header a @ b"
  by (induction a rule: find_header.induct) auto

lemma packet_append:
  assumes "13 \<le> length d"
  shows "packet_size (d @ b) = packet_size d" "packet_start (d @ b) = packet_start d" "(d @ b) ! 10 = d ! 10"
  using assms by (simp_all add: packet_size_def packet_start_def nth_append)

lemma parse_loop_append:
  "parse_loop yuv (a @ b) s =
     (case parse_loop yuv a s of None \<Rightarrow> None | Some (d, s) \<Rightarrow> parse_loop yuv (d @ b) s)"
proof (induction yuv a s rule: parse_loop.induct)
  case (1 yuv a s)
  let ?d = "find_header a"
  let ?n = "13 + packet_size ?d"
  have later: "parse_loop yuv (?d @ b) s = parse_loop yuv (a @ b) s"
    by (simp add: parse_loop.simps [of yuv "_ @ b"] find_header_append)
  show ?case
  proof (cases "13 \<le> length ?d \<and> ?n \<le> length ?d")
    case False
    then have "parse_loop yuv a s = Some (?d, s)"
      by (subst parse_loop.simps) (auto simp: Let_def)
    then show ?thesis
      by (simp add: later)
  next
    case True
    then have fh: "find_header (a @ b) = ?d @ b"
      by (intro find_header_found) simp
    have sl: "slice 13 (packet_size ?d) (?d @ b) = slice 13 (packet_size ?d) ?d"
      "drop ?n (?d @ b) = drop ?n ?d @ b"
      using True by (simp_all add: slice_def)
    show ?thesis
    proof (cases "parse_raw_element yuv (slice 13 (packet_size ?d) ?d) (?d ! 10) (packet_start ?d) s")
      case None
      then show ?thesis
        using True fh sl
        by (simp add: parse_loop.simps [of yuv "a @ b"] parse_loop.simps [of yuv a] packet_append Let_def)
    next
      case (Some x)
      then obtain hr s' where el: "parse_raw_element yuv (slice 13 (packet_size ?d) ?d) (?d ! 10) (packet_start ?d) s =
          Some (hr, s')"
        by (cases x) auto
      have "parse_loop yuv (drop ?n ?d @ b) s' =
          (case parse_loop yuv (drop ?n ?d) s' of None \<Rightarrow> None | Some (d, s) \<Rightarrow> parse_loop yuv (d @ b) s)"
        using "1.IH" [OF refl _ _ el refl] True by simp
      then show ?thesis
        using True fh sl el
        by (simp add: parse_loop.simps [of yuv "a @ b"] parse_loop.simps [of yuv a] packet_append Let_def)
    qed
  qed
qed

text \<open>The segments neither read nor write the data that are still to be parsed.\<close>

definition with_data :: "byte list \<Rightarrow> (hresult \<times> pgs_parser) option \<Rightarrow> (hresult \<times> pgs_parser) option" where
  "with_data x = map_option (\<lambda>(hr, s). (hr, s\<lparr>pg_data := x\<rparr>))"

lemma with_data_simps [simp]:
  "with_data x None = None" "with_data x (Some (hr, s)) = Some (hr, s\<lparr>pg_data := x\<rparr>)"
  "with_data x (if b then u else v) = (if b then with_data x u else with_data x v)"
  "with_data x (Option.bind m k) = Option.bind m (\<lambda>y. with_data x (k y))"
  by (simp_all add: with_data_def) (cases m; simp)

lemma parsePresentaionSegment_data:
  "parsePresentaionSegment d t (s\<lparr>pg_data := x\<rparr>) = with_data x (parsePresentaionSegment d t s)"
  by (cases s) (simp add: parsePresentaionSegment_def Let_def cong: if_cong)

lemma parseWindow_data: "parseWindow d (s\<lparr>pg_data := x\<rparr>) = with_data x (parseWindow d s)"
  by (cases s) (simp add: parseWindow_def cong: if_cong)

lemma parsePalette_data: "parsePalette yuv d (s\<lparr>pg_data := x\<rparr>) = with_data x (parsePalette yuv d s)"
  by (cases s) (simp add: parsePalette_def Let_def with_data_def option.map_comp comp_def)

lemma parseObject_data: "parseObject d (s\<lparr>pg_data := x\<rparr>) = with_data x (parseObject d s)"
  by (cases s) (simp add: parseObject_def Let_def cong: if_cong split: option.split)

lemma parseDisplay_data: "parseDisplay (s\<lparr>pg_data := x\<rparr>) = with_data x (parseDisplay s)"
  by (cases s) (simp add: parseDisplay_def)

lemmas segments_data =
  parsePresentaionSegment_data parseWindow_data parsePalette_data parseObject_data parseDisplay_data

lemma parse_raw_element_data:
  "parse_raw_element yuv d ty t (s\<lparr>pg_data := x\<rparr>) = with_data x (parse_raw_element yuv d ty t s)"
  by (simp add: parse_raw_element_def segments_data)

lemma parse_loop_data:
  "parse_loop yuv a (s\<lparr>pg_data := x\<rparr>) = map_option (\<lambda>(d, s). (d, s\<lparr>pg_data := x\<rparr>)) (parse_loop yuv a s)"
proof (induction yuv a s rule: parse_loop.induct)
  case (1 yuv a s)
  show ?case
    unfolding parse_loop.simps [of yuv a] parse_raw_element_data
    by (auto simp: Let_def with_data_def "1.IH" [OF refl] split: option.split)
qed

lemma parse_loop_length: "parse_loop yuv a s = Some (d, s') \<Longrightarrow> length d \<le> length a"
proof (induction yuv a s rule: parse_loop.induct)
  case (1 yuv a s)
  then show ?case
    using length_find_header [of a]
    by (subst (asm) (2) parse_loop.simps) (fastforce simp: Let_def split: if_splits option.splits)
qed

text \<open>Several calls of \<open>add_data\<close>.\<close>

fun pgs_feed ::
  "(byte \<Rightarrow> byte \<Rightarrow> byte \<Rightarrow> byte \<Rightarrow> u32) \<Rightarrow> byte list list \<Rightarrow> pgs_parser \<Rightarrow> pgs_parser option" where
  "pgs_feed yuv [] s = Some s"
| "pgs_feed yuv (p # ps) s = (case pgs_add_data yuv p s of None \<Rightarrow> None | Some (hr, s) \<Rightarrow> pgs_feed yuv ps s)"

lemma pgs_add_data_append:
  assumes "length (pg_data s) + length a + length b < 2048000"
  shows "pgs_add_data yuv (a @ b) s =
    (case pgs_add_data yuv a s of None \<Rightarrow> None | Some (hr, s) \<Rightarrow> pgs_add_data yuv b s)"
proof (cases "parse_loop yuv (pg_data s @ a) s")
  case None
  then show ?thesis
    using assms by (simp add: pgs_add_data_def parse_loop_append [of yuv "pg_data s @ a" b, simplified])
next
  case (Some r)
  then obtain d s' where r: "parse_loop yuv (pg_data s @ a) s = Some (d, s')"
    by (cases r) auto
  then have "length d \<le> length (pg_data s) + length a"
    using parse_loop_length by fastforce
  then show ?thesis
    using assms r
    by (simp add: pgs_add_data_def parse_loop_append [of yuv "pg_data s @ a" b, simplified] parse_loop_data
        option.map_comp comp_def case_prod_unfold)
qed

text \<open>
  C25: as long as the buffer does not overrun, the parser does not see where the stream was cut: feeding
  the pieces one by one ends in the same state as one call with all of them, and one goes wrong exactly
  when the other does.
\<close>

theorem feed_pieces:
  assumes "length (pg_data s) + length (concat ps) < 2048000" "ps \<noteq> []"
  shows "pgs_feed yuv ps s = pgs_feed yuv [concat ps] s"
  using assms
proof (induction ps arbitrary: s)
  case (Cons p ps)
  show ?case
  proof (cases "ps = []")
    case False
    have eq: "pgs_add_data yuv (p @ concat ps) s =
        (case pgs_add_data yuv p s of None \<Rightarrow> None | Some (hr, s) \<Rightarrow> pgs_add_data yuv (concat ps) s)"
      using Cons.prems by (intro pgs_add_data_append) simp
    show ?thesis
    proof (cases "parse_loop yuv (pg_data s @ p) s")
      case None
      then show ?thesis
        using eq Cons.prems by (simp add: pgs_add_data_def)
    next
      case (Some r)
      then obtain d s' where r: "parse_loop yuv (pg_data s @ p) s = Some (d, s')"
        by (cases r) auto
      then have "length d \<le> length (pg_data s) + length p"
        using parse_loop_length by fastforce
      moreover have add: "pgs_add_data yuv p s = Some (S_OK, s'\<lparr>pg_data := d\<rparr>)"
        using r Cons.prems by (simp add: pgs_add_data_def)
      ultimately show ?thesis
        using Cons.IH [of "s'\<lparr>pg_data := d\<rparr>"] Cons.prems False eq by simp
    qed
  qed simp
qed simp

theorem feed_pieces_witness:
  "pgs_feed some_yuv [[80], [0x47, 0], []] (pgs_reset some_parser) = pgs_feed some_yuv [[80, 0x47, 0]] (pgs_reset some_parser)"
  using feed_pieces [of "pgs_reset some_parser" "[[80], [0x47, 0], []]" some_yuv] by (simp add: pgs_reset_def)

section \<open>What is stored\<close>

text \<open>Every subtitle stored is complete, and no two have the same times.\<close>

definition subtitles_ok :: "pgs_subtitle list \<Rightarrow> bool" where
  "subtitles_ok xs \<longleftrightarrow> list_all complete xs \<and> sorted_wrt (\<lambda>i c. \<not> near_sub c i) xs \<and> length xs \<le> 40960"

lemma complete_end [simp]: "complete (c\<lparr>g_end := t\<rparr>) = complete c"
  by (simp add: complete_def)

lemma segment_kept:
  "parseWindow d s = Some (hr, s') \<Longrightarrow> pg_subtitles s' = pg_subtitles s"
  "parsePalette yuv d s = Some (hr, s') \<Longrightarrow> pg_subtitles s' = pg_subtitles s"
  "parseObject d s = Some (hr, s') \<Longrightarrow> pg_subtitles s' = pg_subtitles s"
  "parseDisplay s = Some (hr, s') \<Longrightarrow> pg_subtitles s' = pg_subtitles s"
  by (auto simp: parseWindow_def parsePalette_def parseObject_def parseDisplay_def Let_def
      split: if_splits bind_splits option.splits)

lemma presentation_subtitles:
  assumes "parsePresentaionSegment d t s = Some (hr, s')"
  shows "pg_subtitles s' = pg_subtitles s \<or>
    (complete (pg_current s) \<and> \<not> list_ex (near_sub ((pg_current s)\<lparr>g_end := t\<rparr>)) (pg_subtitles s) \<and>
     length (pg_subtitles s) < 40960 \<and> pg_subtitles s' = pg_subtitles s @ [(pg_current s)\<lparr>g_end := t\<rparr>])"
  using assms by (auto simp: parsePresentaionSegment_def Let_def split: if_splits bind_splits)

lemma parse_raw_element_subtitles:
  assumes "parse_raw_element yuv d ty t s = Some (hr, s')" "subtitles_ok (pg_subtitles s)"
  shows "subtitles_ok (pg_subtitles s')"
proof (cases "ty = 0x16")
  case True
  then have "parsePresentaionSegment d t s = Some (hr, s')"
    using assms(1) by (simp add: parse_raw_element_def)
  from presentation_subtitles [OF this] assms(2) show ?thesis
    by (auto simp: subtitles_ok_def sorted_wrt_append list_ex_iff)
next
  case False
  then have "pg_subtitles s' = pg_subtitles s"
    using assms(1) by (auto simp: parse_raw_element_def split: if_splits dest: segment_kept)
  with assms(2) show ?thesis
    by simp
qed

lemma parse_loop_subtitles:
  "parse_loop yuv a s = Some (d, s') \<Longrightarrow> subtitles_ok (pg_subtitles s) \<Longrightarrow> subtitles_ok (pg_subtitles s')"
proof (induction yuv a s rule: parse_loop.induct)
  case (1 yuv a s)
  then show ?case
    by (subst (asm) (2) parse_loop.simps)
      (auto simp: Let_def split: if_splits option.splits dest: parse_raw_element_subtitles)
qed

lemma pgs_add_data_subtitles:
  "pgs_add_data yuv a s = Some (hr, s') \<Longrightarrow> subtitles_ok (pg_subtitles s) \<Longrightarrow> subtitles_ok (pg_subtitles s')"
  by (auto simp: pgs_add_data_def dest: parse_loop_subtitles split: if_splits)

lemma pgs_feed_subtitles:
  "pgs_feed yuv ps s = Some s' \<Longrightarrow> subtitles_ok (pg_subtitles s) \<Longrightarrow> subtitles_ok (pg_subtitles s')"
  by (induction ps arbitrary: s) (auto split: option.splits dest: pgs_add_data_subtitles)



text \<open>
  After a duplicate the start time of the segment that was just read is not noted: the subtitle that this
  segment begins gets the start of the one before.
\<close>

theorem duplicate_keeps_start:
  assumes "parsePresentaionSegment d t s = Some (S_FALSE, s')" "pg_has_seg s"
  shows "parseDisplay s' = Some (S_OK, s'\<lparr>pg_current := zero_subtitle\<lparr>g_start := pg_possible_start s\<rparr>\<rparr>)"
  using assms by (auto simp: parsePresentaionSegment_def parseDisplay_def Let_def split: if_splits bind_splits)

section \<open>A display set, from its bytes to its pixels\<close>

definition packet :: "byte \<Rightarrow> int \<Rightarrow> byte list \<Rightarrow> byte list" where
  "packet ty t d = [80, 0x47] @ w32 (t * 90) @ [0, 0, 0, 0, ty] @ w16 (int (length d)) @ d"

record display =
  d_time :: int
  d_window :: "int \<times> int \<times> int \<times> int"
  d_colours :: "(byte \<times> byte \<times> byte \<times> byte \<times> byte) list"
  d_width :: int
  d_height :: int
  d_lines :: "(nat \<times> byte) list list"

definition window_bytes :: "display \<Rightarrow> byte list" where
  "window_bytes d = (case d_window d of (l, t, w, h) \<Rightarrow> [1, 0] @ w16 l @ w16 t @ w16 w @ w16 h)"

definition palette_bytes :: "display \<Rightarrow> byte list" where
  "palette_bytes d = [0, 0] @ concat (map (\<lambda>(i, y, cr, cb, a). [i, y, cr, cb, a]) (d_colours d))"

definition object_bytes :: "display \<Rightarrow> byte list" where
  "object_bytes d = replicate 7 0 @ w16 (d_width d) @ w16 (d_height d) @ encode_picture (d_lines d)"

definition display_set :: "display \<Rightarrow> byte list" where
  "display_set d =
     packet 0x16 (d_time d) (w16 1920 @ w16 1080) @ packet 0x17 (d_time d) (window_bytes d) @
     packet 0x14 (d_time d) (palette_bytes d) @ packet 0x15 (d_time d) (object_bytes d) @ packet 0x80 (d_time d) []"

definition colours :: "(byte \<Rightarrow> byte \<Rightarrow> byte \<Rightarrow> byte \<Rightarrow> u32) \<Rightarrow> display \<Rightarrow> u32 list" where
  "colours yuv d = foldl (\<lambda>pal (i, y, cr, cb, a). pal[unat i := yuv y cr cb a]) (replicate 256 0) (d_colours d)"

text \<open>The subtitle that a display set and the start of the next one make.\<close>

definition display_subtitle :: "(byte \<Rightarrow> byte \<Rightarrow> byte \<Rightarrow> byte \<Rightarrow> u32) \<Rightarrow> display \<Rightarrow> int \<Rightarrow> pgs_subtitle" where
  "display_subtitle yuv d t' = (case d_window d of (l, t, w, h) \<Rightarrow>
     \<lparr>g_start = d_time d, g_end = t', g_window_left = l, g_window_top = t, g_window_width = w, g_window_height = h,
      g_left = l + cdiv (w - d_width d) 2, g_top = t + cdiv (h - d_height d) 2,
      g_width = d_width d, g_height = d_height d, g_rle_size = int (length (encode_picture (d_lines d))),
      g_palette = colours yuv d, g_rle = Some (encode_picture (d_lines d)), g_rgb = None\<rparr>)"

definition time_ok :: "int \<Rightarrow> bool" where
  "time_ok t \<longleftrightarrow> 0 \<le> t \<and> t * 90 < 2 ^ 32"

definition coord_ok :: "int \<Rightarrow> bool" where
  "coord_ok n \<longleftrightarrow> 0 \<le> n \<and> n < 65536"

definition display_ok :: "display \<Rightarrow> bool" where
  "display_ok d \<longleftrightarrow> time_ok (d_time d) \<and>
     (case d_window d of (l, t, w, h) \<Rightarrow> coord_ok l \<and> coord_ok t \<and> coord_ok w \<and> coord_ok h) \<and>
     length (d_colours d) < 256 \<and> 0 < d_width d \<and> d_width d < 4096 \<and> 0 < d_height d \<and> d_height d < 4096 \<and>
     picture_ok (nat (d_width d)) (nat (d_height d)) (d_lines d) \<and>
     length (encode_picture (d_lines d)) < 65525"

lemma readWORD_w16 [simp]: "0 \<le> n \<Longrightarrow> n < 65536 \<Longrightarrow> readWORD (w16 n @ r) = Some n"
  by (simp add: readWORD_def w16_def rd_tail be16_split)

lemma parse_loop_packet:
  assumes "time_ok t" "length d < 65536"
  shows "parse_loop yuv (packet ty t d @ r) s =
    (case parse_raw_element yuv d ty t s of None \<Rightarrow> None | Some (hr, s) \<Rightarrow> parse_loop yuv r s)"
proof -
  let ?p = "packet ty t d @ r"
  obtain a b c e where t: "w32 (t * 90) = [a, b, c, e]" "be32 a b c e = t * 90"
    using assms(1) by (auto simp: time_ok_def intro: be32_split [of "t * 90"])
  obtain u v where n: "w16 (int (length d)) = [u, v]" "be16 u v = int (length d)"
    using assms(2) by (auto intro: w16_split [of "length d"])
  have p: "find_header ?p = ?p" "packet_size ?p = length d" "?p ! 10 = ty" "packet_start ?p = t"
    "length ?p = 13 + length d + length r" "drop 13 ?p = d @ r"
    using t n by (simp_all add: packet_def packet_size_def packet_start_def)
  then have "slice 13 (length d) ?p = d" "drop (13 + length d) ?p = r"
    by (simp_all add: slice_def add.commute [of 13] flip: drop_drop)
  then show ?thesis
    using p by (simp add: parse_loop.simps [of yuv ?p] Let_def split: option.split)
qed

lemma length_window_bytes: "length (window_bytes d) = 10"
  by (simp add: window_bytes_def split: prod.split)

lemma length_palette_bytes: "length (palette_bytes d) = 2 + 5 * length (d_colours d)"
  by (simp add: palette_bytes_def length_concat comp_def case_prod_unfold sum_list_triv)

lemma length_object_bytes: "length (object_bytes d) = 11 + length (encode_picture (d_lines d))"
  by (simp add: object_bytes_def)

lemma palette_loop_colours:
  "palette_loop yuv (length cs) (concat (map (\<lambda>(i, y, cr, cb, a). [i, y, cr, cb, a]) cs)) pal =
   Some (foldl (\<lambda>pal (i, y, cr, cb, a). pal[unat i := yuv y cr cb a]) pal cs)"
  by (induction cs arbitrary: pal) auto

lemma parsePalette_colours:
  "pg_has_seg s \<Longrightarrow> length (d_colours d) < 256 \<Longrightarrow> g_palette (pg_current s) = replicate 256 0 \<Longrightarrow>
   parsePalette yuv (palette_bytes d) s =
   Some (S_OK, s\<lparr>pg_current := (pg_current s)\<lparr>g_palette := colours yuv d\<rparr>\<rparr>)"
  by (simp add: parsePalette_def length_palette_bytes Let_def)
    (simp add: palette_bytes_def palette_loop_colours colours_def)

lemma parseWindow_window:
  assumes "pg_has_seg s" "d_window d = (l, t, w, h)" "coord_ok l" "coord_ok t" "coord_ok w" "coord_ok h"
  shows "parseWindow (window_bytes d) s =
    Some (S_OK, s\<lparr>pg_current := (pg_current s)\<lparr>g_window_left := l, g_window_top := t,
      g_window_width := w, g_window_height := h\<rparr>\<rparr>)"
proof -
  have "drop 2 (window_bytes d) = w16 l @ w16 t @ w16 w @ w16 h" "drop 4 (window_bytes d) = w16 t @ w16 w @ w16 h"
    "drop 6 (window_bytes d) = w16 w @ w16 h" "drop 8 (window_bytes d) = w16 h @ []"
    "rd (window_bytes d) 0 = Some 1"
    by (simp_all add: window_bytes_def assms rd_tail numeral_eq_Suc w16_def)
  then show ?thesis
    using assms by (simp add: parseWindow_def length_window_bytes coord_ok_def readWORD_w16 [of h "[]", simplified])
qed

lemma parseObject_first:
  assumes "pg_has_seg s" "g_rle_size (pg_current s) = 0" "coord_ok (d_width d)" "coord_ok (d_height d)"
  shows "parseObject (object_bytes d) s =
    (let cur = pg_current s
     in Some (S_OK, s\<lparr>pg_current := cur\<lparr>g_width := d_width d, g_height := d_height d,
          g_left := g_window_left cur + cdiv (g_window_width cur - d_width d) 2,
          g_top := g_window_top cur + cdiv (g_window_height cur - d_height d) 2,
          g_rle_size := int (length (encode_picture (d_lines d))), g_rle := Some (encode_picture (d_lines d))\<rparr>\<rparr>))"
proof -
  have "drop 7 (object_bytes d) = w16 (d_width d) @ w16 (d_height d) @ encode_picture (d_lines d)"
    "drop 9 (object_bytes d) = w16 (d_height d) @ encode_picture (d_lines d)"
    "drop 11 (object_bytes d) = encode_picture (d_lines d)"
    by (simp_all add: object_bytes_def numeral_eq_Suc w16_def)
  then show ?thesis
    using assms by (simp add: parseObject_def Let_def length_object_bytes coord_ok_def)
qed

text \<open>The state in which a display set leaves the parser.\<close>

definition shown_next :: "(byte \<Rightarrow> byte \<Rightarrow> byte \<Rightarrow> byte \<Rightarrow> u32) \<Rightarrow> display \<Rightarrow> pgs_parser \<Rightarrow> pgs_parser" where
  "shown_next yuv d s = s\<lparr>pg_current := (display_subtitle yuv d 0), pg_possible_start := d_time d,
     pg_has_seg := True, pg_total_width := 1920, pg_total_height := 1080\<rparr>"

lemma parse_display_set:
  assumes "display_ok d" "\<not> complete (pg_current s)"
  shows "parse_loop yuv (display_set d @ r) s = parse_loop yuv r (shown_next yuv d s)"
proof -
  obtain l t w h where win: "d_window d = (l, t, w, h)"
    by (cases "d_window d")
  have ok: "time_ok (d_time d)" "coord_ok l" "coord_ok t" "coord_ok w" "coord_ok h" "length (d_colours d) < 256"
    "coord_ok (d_width d)" "coord_ok (d_height d)" "length (palette_bytes d) < 65536"
    "length (object_bytes d) < 65536"
    using assms(1)
    by (auto simp: display_ok_def win length_palette_bytes length_object_bytes coord_ok_def)
  have pcs: "readWORD (w16 1080) = Some 1080"
    using readWORD_w16 [of 1080 "[]"] by simp
  show ?thesis
    using assms(2) ok
    by (cases s) (simp add: display_set_def parse_loop_packet length_window_bytes parse_raw_element_def
        parsePresentaionSegment_def Let_def pcs parseWindow_window win parsePalette_colours parseObject_first
        parseDisplay_def zero_subtitle_def shown_next_def display_subtitle_def)
qed

lemma complete_display: "display_ok d \<Longrightarrow> complete (display_subtitle yuv d t)"
  by (auto simp: complete_def display_subtitle_def display_ok_def time_ok_def split: prod.splits)

lemma length_display_set: "display_ok d \<Longrightarrow> length (display_set d) < 100000"
  by (auto simp: display_set_def packet_def length_window_bytes length_palette_bytes length_object_bytes display_ok_def)

lemma parse_next_segment:
  assumes "time_ok t'" "display_ok d" "length (pg_subtitles s) < 40960"
    and "\<not> list_ex (near_sub (display_subtitle yuv d t')) (pg_subtitles s)"
  shows "\<exists>s'. parse_loop yuv (packet 0x16 t' (w16 1920 @ w16 1080)) (shown_next yuv d s) = Some ([], s') \<and>
    pg_subtitles s' = pg_subtitles s @ [display_subtitle yuv d t']"
proof -
  have "(display_subtitle yuv d 0)\<lparr>g_end := t'\<rparr> = display_subtitle yuv d t'"
    by (simp add: display_subtitle_def split: prod.split)
  then show ?thesis
    using assms parse_loop_packet [where r = "[]" and yuv = yuv and ty = "0x16" and t = "t'" and d = "w16 1920 @ w16 1080" and s = "shown_next yuv d s"] readWORD_w16 [of 1080 "[]"]
    by (simp add: parse_raw_element_def parsePresentaionSegment_def shown_next_def complete_display Let_def
        parse_loop.simps [of yuv "[]"])
qed

text \<open>
  C27: from bytes to pixels: a display set (composition, window, palette, object, display) and the
  composition segment that begins the next one add exactly one subtitle, with the window, size and times
  of the segments; and a search at a time it covers, that no older subtitle covers, returns its index and
  the pixels of the encoded lines in the colours of the encoded palette.
\<close>

theorem display_set_is_shown:
  assumes "display_ok d" "time_ok t'" "pg_data s = []" "\<not> complete (pg_current s)"
    and "length (pg_subtitles s) < 40960" "\<not> list_ex (near_sub (display_subtitle yuv d t')) (pg_subtitles s)"
    and "\<not> list_ex (shown u u') (pg_subtitles s)" "d_time d \<le> u" "u \<le> t'" "\<And>n. length (junk n) = n"
  shows "\<exists>s'. pgs_add_data yuv (display_set d @ packet 0x16 t' (w16 1920 @ w16 1080)) s = Some (S_OK, s') \<and>
    pg_subtitles s' = pg_subtitles s @ [display_subtitle yuv d t'] \<and>
    pgs_find_subtitle junk u u' out s' = Some (Some (length (pg_subtitles s)),
      (display_subtitle yuv d t')\<lparr>g_rle := None, g_rgb := Some (picture_pixels (colours yuv d) (d_lines d))\<rparr>)"
proof -
  let ?sub = "display_subtitle yuv d t'" and ?p = "packet 0x16 t' (w16 1920 @ w16 1080)"
  obtain s' where s': "parse_loop yuv ?p (shown_next yuv d s) = Some ([], s')"
    "pg_subtitles s' = pg_subtitles s @ [?sub]"
    using parse_next_segment [OF assms(2,1,5,6)] by blast
  have "length ?p = 17"
    by (simp add: packet_def)
  then have add: "pgs_add_data yuv (display_set d @ ?p) s = Some (S_OK, s'\<lparr>pg_data := []\<rparr>)"
    using length_display_set [OF assms(1)] s' assms(3) by (simp add: pgs_add_data_def parse_display_set assms(1,4))
  have sub: "0 < g_width ?sub" "0 < g_height ?sub" "g_rle ?sub = Some (encode_picture (d_lines d))"
    "picture_ok (nat (g_width ?sub)) (nat (g_height ?sub)) (d_lines d)" "g_palette ?sub = colours yuv d" "shown u u' ?sub"
    using assms(1,8,9) by (auto simp: display_ok_def display_subtitle_def shown_def split: prod.splits)
  then have "decodeRLE junk ?sub = Some (S_OK, ?sub\<lparr>g_rgb := Some (picture_pixels (colours yuv d) (d_lines d))\<rparr>)"
    using decode_picture [of ?sub "d_lines d" junk] assms(10) by simp
  moreover have "first_index (shown u u') 0 (pg_subtitles s @ [?sub]) = Some (length (pg_subtitles s), ?sub)"
    using assms(7) sub(6) by (simp add: first_index_append_None)
  ultimately show ?thesis
    using add s' by (simp add: pgs_find_subtitle_def)
qed

definition some_display :: display where
  "some_display = \<lparr>d_time = 1000, d_window = (0, 0, 2, 1), d_colours = [(1, 16, 128, 128, 255)],
     d_width = 2, d_height = 1, d_lines = [[(2, 1)]]\<rparr>"

theorem display_set_is_shown_witness:
  "\<exists>s'. pgs_add_data some_yuv (display_set some_display @ packet 0x16 2000 (w16 1920 @ w16 1080)) some_parser =
      Some (S_OK, s') \<and>
    pg_subtitles s' = pg_subtitles some_parser @ [display_subtitle some_yuv some_display 2000] \<and>
    pgs_find_subtitle (\<lambda>n. replicate n 0) 1500 1600 zero_subtitle s' = Some (Some (length (pg_subtitles some_parser)),
      (display_subtitle some_yuv some_display 2000)\<lparr>g_rle := None,
        g_rgb := Some (picture_pixels (colours some_yuv some_display) (d_lines some_display))\<rparr>)"
proof -
  have "length (encode_picture [[(2, 1)]]) < 65525" "picture_ok 2 1 [[(2, 1)]]"
    by (simp_all add: encode_picture_def encode_line_def encode_run_def picture_ok_def run_ok_def line_width_def)
  then have "display_ok some_display"
    by (simp add: some_display_def display_ok_def time_ok_def coord_ok_def)
  moreover have "pg_data some_parser = []" "\<not> complete (pg_current some_parser)" "pg_subtitles some_parser = []"
    by (simp_all add: some_parser_def complete_def)
  ultimately show ?thesis
    using display_set_is_shown [of some_display 2000 some_parser some_yuv 1500 1600 "\<lambda>n. replicate n 0" zero_subtitle]
    by (simp add: time_ok_def some_display_def)
qed

end
