(* ===== verification/VobSub.thy ===== *)
theory VobSub
  imports Pgs
begin

text \<open>
  The VobSub parser (\<open>dwindow/vobsub_parser.cpp\<close>): the table of subtitle packets, the control blocks of a
  packet, and the decoder of its pictures, two interlaced planes of run-length codes made of half bytes.
  The index file that lists the packets is the subject of theory \<open>VobSubIndex\<close>.
  \<^theory_text>\<open>None\<close> is an access outside a buffer or the use of a variable that was never set.
\<close>

section \<open>State\<close>

record vobsub_subtitle =
  v_start :: int
  v_end :: int
  v_left :: int
  v_top :: int
  v_width :: int
  v_height :: int
  v_datasize :: nat
  v_packetsize :: nat
  v_packet :: "byte list option"
  v_rgb :: "u32 list option"

definition zero_vobsub :: vobsub_subtitle where
  "zero_vobsub = \<lparr>v_start = 0, v_end = 0, v_left = 0, v_top = 0, v_width = 0, v_height = 0, v_datasize = 0,
     v_packetsize = 0, v_packet = None, v_rgb = None\<rparr>"

text \<open>\<open>vs_subtitles\<close> are the entries in use of the 40960.\<close>

record vobsub_parser =
  vs_total_width :: int
  vs_total_height :: int
  vs_first_line :: bool
  vs_bad_index :: bool
  vs_lang_id :: int
  vs_orgpal :: "u32 list"
  vs_cuspal :: "u32 list"
  vs_use_custom_color :: bool
  vs_scan_for_lang_id :: bool
  vs_max_lang_id :: int
  vs_subtitles :: "vobsub_subtitle list"
  vs_current :: vobsub_subtitle

definition vobsub_reset :: "vobsub_parser \<Rightarrow> vobsub_parser" where
  "vobsub_reset s = s\<lparr>vs_subtitles := [], vs_current := zero_vobsub\<lparr>v_start := -1\<rparr>\<rparr>"

section \<open>Control blocks\<close>

record control =
  k_pal :: u16
  k_tr :: u16
  k_forced :: bool
  k_delay :: int
  k_rect :: "(int \<times> int \<times> int \<times> int) option"
  k_offset :: "(nat \<times> nat) option"

definition no_control :: control where
  "no_control = \<lparr>k_pal = 0, k_tr = 0, k_forced = False, k_delay = 0, k_rect = None, k_offset = None\<rparr>"

definition cmd_len :: "byte \<Rightarrow> nat" where
  "cmd_len b = (if b = 3 \<or> b = 4 then 2 else if b = 5 then 6 else if b = 6 then 4 else 0)"

definition rd16 :: "byte list \<Rightarrow> nat \<Rightarrow> int option" where
  "rd16 p i = do { a \<leftarrow> rd p (int i); b \<leftarrow> rd p (int i + 1); Some (be16 a b) }"

text \<open>
  One command of a block; \<open>i\<close> points behind its code.  The result is the new state and how many bytes of
  parameters to skip, \<^theory_text>\<open>None\<close> when the block ends: \<open>decode\<close> ends at every code above 6.
\<close>

definition control_cmd :: "byte list \<Rightarrow> int \<Rightarrow> byte \<Rightarrow> nat \<Rightarrow> control \<Rightarrow> (control \<times> nat option) option" where
  "control_cmd p t b i c =
     map_option (\<lambda>c. (c, if b \<le> 6 then Some (cmd_len b) else None))
     (if b = 0 then Some (c\<lparr>k_forced := True\<rparr>)
      else if b = 1 then Some (c\<lparr>k_forced := False\<rparr>)
      else if b = 2 then Some (c\<lparr>k_delay := 1024 * t div 90\<rparr>)
      else if b = 3 then map_option (\<lambda>v. c\<lparr>k_pal := word_of_int v\<rparr>) (rd16 p i)
      else if b = 4 then map_option (\<lambda>v. c\<lparr>k_tr := word_of_int v\<rparr>) (rd16 p i)
      else if b = 5 then do {
        a0 \<leftarrow> rd p (int i); a1 \<leftarrow> rd p (int i + 1); a2 \<leftarrow> rd p (int i + 2);
        a3 \<leftarrow> rd p (int i + 3); a4 \<leftarrow> rd p (int i + 4); a5 \<leftarrow> rd p (int i + 5);
        Some (c\<lparr>k_rect := Some (uint a0 * 16 + uint a1 div 16, uint a3 * 16 + uint a4 div 16,
          uint a1 mod 16 * 256 + uint a2 + 1, uint a4 mod 16 * 256 + uint a5 + 1)\<rparr>) }
      else if b = 6 then do {
        o0 \<leftarrow> rd16 p i; o1 \<leftarrow> rd16 p (i + 2);
        Some (c\<lparr>k_offset := Some (nat o0, nat o1)\<rparr>) }
      else Some c)"

text \<open>The loop of \<open>read_packet_from_subfile\<close> ends a block at every other command than the stop.\<close>

definition time_cmd :: "int \<Rightarrow> byte list \<Rightarrow> int \<Rightarrow> byte \<Rightarrow> nat \<Rightarrow> int \<Rightarrow> (int \<times> nat option) option" where
  "time_cmd start p t b i e = Some (if b = 2 then (1024 * t div 90 + start, Some 0) else (e, None))"

text \<open>The commands of a block; the end of the packet ends it too.\<close>

function control_cmds ::
  "(byte list \<Rightarrow> int \<Rightarrow> byte \<Rightarrow> nat \<Rightarrow> 'c \<Rightarrow> ('c \<times> nat option) option) \<Rightarrow> byte list \<Rightarrow> nat \<Rightarrow> int \<Rightarrow> nat \<Rightarrow> 'c \<Rightarrow>
   (nat \<times> 'c) option" where
  "control_cmds act p n t i c =
     (case rd p (int i) of
        None \<Rightarrow> None
      | Some b \<Rightarrow>
          if i + cmd_len b \<ge> n then Some (i, c)
          else case act p t b (i + 1) c of
                 None \<Rightarrow> None
               | Some (c, Some k) \<Rightarrow> control_cmds act p n t (i + 1 + k) c
               | Some (c, None) \<Rightarrow> Some (i + 1, c))"
  by pat_completeness auto
termination
  by (relation "measure (\<lambda>(act, p, n, t, i, c). n - i)") auto

declare control_cmds.simps [simp del]

lemma control_cmds_forward: "control_cmds act p n t i c = Some (j, c') \<Longrightarrow> i \<le> j"
proof (induction act p n t i c rule: control_cmds.induct)
  case (1 act p n t i c)
  then show ?case
    by (subst (asm) (2) control_cmds.simps) (fastforce split: option.splits if_splits)
qed

text \<open>The blocks: each says where the next one is.  \<open>Inl\<close> is the return of \<open>E_FAIL\<close>, with the state so far.\<close>

function control_blocks ::
  "(byte list \<Rightarrow> int \<Rightarrow> byte \<Rightarrow> nat \<Rightarrow> 'c \<Rightarrow> ('c \<times> nat option) option) \<Rightarrow> byte list \<Rightarrow> nat \<Rightarrow> nat \<Rightarrow> nat \<Rightarrow> 'c \<Rightarrow>
   ('c + 'c) option" where
  "control_blocks act p n datasize i c =
     (case (rd16 p i, rd16 p (i + 2)) of
        (Some t, Some nx) \<Rightarrow>
          if nat nx > n \<or> nat nx < datasize then Some (Inl c)
          else (case control_cmds act p n t (i + 4) c of
                  None \<Rightarrow> None
                | Some (j, c) \<Rightarrow>
                    if j \<le> nat nx \<and> j < n then control_blocks act p n datasize (nat nx) c else Some (Inr c))
      | _ \<Rightarrow> None)"
  by pat_completeness auto
termination
  by (relation "measure (\<lambda>(act, p, n, datasize, i, c). n + 1 - i)") (auto dest: control_cmds_forward)

declare control_blocks.simps [simp del]

section \<open>The picture\<close>

text \<open>\<open>DummyGetNibble\<close>: the half byte, the offset and the alignment after it.\<close>

definition GetNibble :: "byte list \<Rightarrow> nat \<Rightarrow> bool \<Rightarrow> (nat \<times> nat \<times> bool) option" where
  "GetNibble p off aligned = do {
     b \<leftarrow> rd p (int off);
     Some (if aligned then unat b div 16 else unat b mod 16, if aligned then off else off + 1, \<not> aligned) }"

text \<open>A code of one to four half bytes; the flag is false for a code below 256, the rest of a line.\<close>

definition get_code :: "byte list \<Rightarrow> nat \<Rightarrow> bool \<Rightarrow> (nat \<times> bool \<times> nat \<times> bool) option" where
  "get_code p off al = do {
     (code, off, al) \<leftarrow> GetNibble p off al;
     if code \<ge> 4 then Some (code, True, off, al)
     else do {
       (n, off, al) \<leftarrow> GetNibble p off al;
       let code = code * 16 + n;
       if code \<ge> 0x10 then Some (code, True, off, al)
       else do {
         (n, off, al) \<leftarrow> GetNibble p off al;
         let code = code * 16 + n;
         if code \<ge> 0x40 then Some (code, True, off, al)
         else do {
           (n, off, al) \<leftarrow> GetNibble p off al;
           let code = code * 16 + n;
           Some (code, code \<ge> 0x100, off, al) } } } }"

text \<open>\<open>DrawPixels\<close>: up to \<open>n\<close> pixels from an index, as long as they are below the end of the picture.\<close>

fun draw_pixels :: "nat \<Rightarrow> int \<Rightarrow> u32 \<Rightarrow> u32 list \<Rightarrow> u32 list option" where
  "draw_pixels 0 at c px = Some px"
| "draw_pixels (Suc n) at c px =
     (if at \<ge> int (length px) then Some px
      else case wr px at c of None \<Rightarrow> None | Some px \<Rightarrow> draw_pixels n (at + 1) c px)"

definition nibble_pos :: "nat \<Rightarrow> bool \<Rightarrow> nat" where
  "nibble_pos off al = 2 * off + (if al then 0 else 1)"

lemma GetNibble_pos:
  assumes "GetNibble p off al = Some (n, off', al')"
  shows "nibble_pos off' al' = Suc (nibble_pos off al) \<and> nibble_pos off al < 2 * length p \<and> n < 16"
proof -
  have b: "off < length p" "n = (if al then unat (p ! off) div 16 else unat (p ! off) mod 16)"
    "off' = (if al then off else off + 1)" "al' = (\<not> al)"
    using assms by (auto simp: GetNibble_def bind_eq_Some_conv rd_eq_Some_iff)
  have "unat (p ! off) < 256"
    using unsigned_less [of "p ! off"] by simp
  then have "unat (p ! off) div 16 < 16"
    by (simp add: less_mult_imp_div_less)
  then have "n < 16"
    using b(2) by simp
  then show ?thesis
    using b(1,3,4) by (simp add: nibble_pos_def)
qed

lemma get_code_pos:
  assumes "get_code p off al = Some (code, short, off', al')"
  shows "nibble_pos off al < nibble_pos off' al'" "nibble_pos off al < 2 * length p"
proof -
  obtain c1 o1 a1 where 1: "GetNibble p off al = Some (c1, o1, a1)"
    using assms by (auto simp: get_code_def bind_eq_Some_conv)
  have "nibble_pos off al < nibble_pos off' al'"
  proof (cases "c1 \<ge> 4")
    case True
    then show ?thesis
      using assms 1 GetNibble_pos [OF 1] by (auto simp: get_code_def)
  next
    case False
    then obtain c2 o2 a2 where 2: "GetNibble p o1 a1 = Some (c2, o2, a2)"
      using assms 1 by (auto simp: get_code_def bind_eq_Some_conv)
    show ?thesis
    proof (cases "c1 * 16 + c2 \<ge> 16")
      case True
      then show ?thesis
        using assms False 1 2 GetNibble_pos [OF 1] GetNibble_pos [OF 2] by (auto simp: get_code_def)
    next
      case small: False
      then obtain c3 o3 a3 where 3: "GetNibble p o2 a2 = Some (c3, o3, a3)"
        using assms False 1 2 by (auto simp: get_code_def bind_eq_Some_conv)
      then show ?thesis
        using assms False small 1 2 GetNibble_pos [OF 1] GetNibble_pos [OF 2] GetNibble_pos [OF 3]
        by (auto simp: get_code_def bind_eq_Some_conv Let_def split: if_splits dest!: GetNibble_pos)
    qed
  qed
  then show "nibble_pos off al < nibble_pos off' al'" "nibble_pos off al < 2 * length p"
    using GetNibble_pos [OF 1] by simp_all
qed

text \<open>The offsets of the two planes; a plane is named by whether it is the second.\<close>

definition offset_of :: "bool \<Rightarrow> nat \<times> nat \<Rightarrow> nat" where
  "offset_of pl os = (if pl then snd os else fst os)"

definition set_offset :: "bool \<Rightarrow> nat \<Rightarrow> nat \<times> nat \<Rightarrow> nat \<times> nat" where
  "set_offset pl off os = (if pl then (fst os, off) else (off, snd os))"

lemma offset_of_set [simp]:
  "offset_of pl (set_offset pl off os) = off" "offset_of (\<not> pl) (set_offset pl off os) = offset_of (\<not> pl) os"
  by (simp_all add: offset_of_def set_offset_def)

definition nibbles_left :: "byte list \<Rightarrow> nat \<times> nat \<Rightarrow> bool \<Rightarrow> bool \<Rightarrow> nat" where
  "nibbles_left p os pl al =
     (2 * length p - nibble_pos (offset_of pl os) al) + (2 * length p - nibble_pos (offset_of (\<not> pl) os) True)"

text \<open>Behind a line the reader is aligned to a byte.\<close>

definition align :: "byte list \<Rightarrow> nat \<Rightarrow> bool \<Rightarrow> nat option" where
  "align p off al = (if al then Some off else map_option (\<lambda>(n, off, al). off) (GetNibble p off al))"

lemma align_pos: "align p off al = Some off' \<Longrightarrow> nibble_pos off al \<le> nibble_pos off' True"
  by (auto simp: align_def GetNibble_def nibble_pos_def bind_eq_Some_conv split: if_splits)

text \<open>
  The loop, over the offsets, the plane, the alignment, the position relative to the corner of the
  picture, and the pixels.  The result is the line reached and the pixels.
\<close>

function decode_loop ::
  "(nat \<Rightarrow> u32) \<Rightarrow> byte list \<Rightarrow> nat \<Rightarrow> int \<Rightarrow> int \<Rightarrow> nat \<times> nat \<Rightarrow> bool \<Rightarrow> bool \<Rightarrow> int \<Rightarrow> int \<Rightarrow> u32 list \<Rightarrow> (int \<times> u32 list) option" where
  "decode_loop col p datasize w h os pl al x y px =
     (if \<not> (if pl then snd os < datasize else fst os < snd os) then Some (y, px)
      else case get_code p (offset_of pl os) al of
        None \<Rightarrow> None
      | Some (code, short, off, al) \<Rightarrow>
          (case (if short then draw_pixels (code div 4) (w * y + x) (col (code mod 4)) px else Some px) of
             None \<Rightarrow> None
           | Some px \<Rightarrow>
               (let x = (if short then x + int (code div 4) else x)
                in if short \<and> x < w then decode_loop col p datasize w h (set_offset pl off os) pl al x y px
                   else case draw_pixels (nat (w - x)) (w * y + x) (col (code mod 4)) px of
                     None \<Rightarrow> None
                   | Some px \<Rightarrow>
                       (case align p off al of
                          None \<Rightarrow> None
                        | Some off \<Rightarrow>
                            if y + 1 \<ge> h then Some (y + 1, px)
                            else decode_loop col p datasize w h (set_offset pl off os) (\<not> pl) True 0 (y + 1) px))))"
  by pat_completeness auto
termination
proof (relation "measure (\<lambda>(col, p, datasize, w, h, os, pl, al, x, y, px). nibbles_left p os pl al)", goal_cases)
  case (2 col p datasize w h os pl al x y px z code b short d off al' px' x')
  then show ?case
    using get_code_pos [of p "offset_of pl os" al code short off al'] by (auto simp: nibbles_left_def)
next
  case (3 col p datasize w h os pl al x y px z code b short d off al' px' x' px'' off'')
  then show ?case
    using get_code_pos [of p "offset_of pl os" al code short off al'] align_pos [of p off al' off'']
    by (auto simp: nibbles_left_def)
qed simp

declare decode_loop.simps [simp del]

text \<open>\<open>memset\<close> clears as many bytes as there are pixels, a quarter of the picture.\<close>

definition cleared :: "nat \<Rightarrow> u32 list \<Rightarrow> u32 list" where
  "cleared n px = map (\<lambda>(i, v). if 4 * i + 4 \<le> n then 0 else if n \<le> 4 * i then v
     else v AND NOT (mask (8 * (n - 4 * i)))) (enumerate 0 px)"

definition picture_colour :: "vobsub_parser \<Rightarrow> u16 \<Rightarrow> u16 \<Rightarrow> nat \<Rightarrow> u32" where
  "picture_colour s pal tr i =
     (if vs_use_custom_color s then vs_cuspal s ! i
      else let a = unat (drop_bit (4 * i) tr) mod 16
           in (vs_orgpal s ! (unat (drop_bit (4 * i) pal) mod 16) AND 0xFFFFFF) OR push_bit 24 (of_nat (16 * a + a)))"

text \<open>\<open>decode\<close>; \<open>junk\<close> are the contents of the new picture.\<close>

definition vobsub_decode ::
  "(nat \<Rightarrow> u32 list) \<Rightarrow> vobsub_parser \<Rightarrow> vobsub_subtitle \<Rightarrow> (hresult \<times> vobsub_subtitle) option" where
  "vobsub_decode junk s sub = do {
     p \<leftarrow> v_packet sub;
     r \<leftarrow> control_blocks control_cmd p (v_packetsize sub) (v_datasize sub) (v_datasize sub) no_control;
     case r of
       Inl c \<Rightarrow> Some (E_FAIL, sub)
     | Inr c \<Rightarrow> do {
         (l, t, r, b) \<leftarrow> k_rect c;
         os \<leftarrow> k_offset c;
         let n = (r - l) * (b - t);
         if n < 0 then None
         else do {
           (y, px) \<leftarrow> decode_loop (picture_colour s (k_pal c) (k_tr c)) p (v_datasize sub) (r - l) (b - t) os
                       False True 0 0 (cleared (nat n) (junk (nat n)));
           Some (S_OK, sub\<lparr>v_rgb := Some px, v_left := l, v_top := t, v_width := r - l,
             v_height := min (t + y) b - t\<rparr>) } } }"

section \<open>The table\<close>

definition vobsub_add_subtitle :: "int \<Rightarrow> int \<Rightarrow> byte list \<Rightarrow> vobsub_parser \<Rightarrow> (hresult \<times> vobsub_parser) option" where
  "vobsub_add_subtitle start t1 data s =
     (if list_ex (\<lambda>i. cabs (wrap32 (v_start i - start)) < 5) (vs_subtitles s) then Some (S_OK, s)
      else if length data \<le> 4 then Some (S_OK, s)
      else if nat (be16 (data ! 0) (data ! 1)) \<noteq> length data then Some (S_OK, s)
      else if length (vs_subtitles s) \<ge> 40960 then None
      else Some (S_OK, s\<lparr>vs_subtitles := vs_subtitles s @
        [zero_vobsub\<lparr>v_start := start, v_end := t1, v_packet := Some data, v_packetsize := nat (be16 (data ! 0) (data ! 1)),
                     v_datasize := nat (be16 (data ! 2) (data ! 3))\<rparr>]\<rparr>))"

definition vobsub_shown :: "int \<Rightarrow> int \<Rightarrow> vobsub_subtitle \<Rightarrow> bool" where
  "vobsub_shown t0 t1 i \<longleftrightarrow> (v_start i \<le> t0 \<and> t0 \<le> v_end i) \<or> (v_start i \<le> t1 \<and> t1 \<le> v_end i)"

definition vobsub_find_subtitle ::
  "(nat \<Rightarrow> u32 list) \<Rightarrow> int \<Rightarrow> int \<Rightarrow> vobsub_subtitle \<Rightarrow> vobsub_parser \<Rightarrow> (nat option \<times> vobsub_subtitle) option" where
  "vobsub_find_subtitle junk t0 t1 out s =
     (case first_index (vobsub_shown t0 t1) 0 (vs_subtitles s) of
        None \<Rightarrow> Some (None, out\<lparr>v_start := -1, v_end := -1, v_rgb := None\<rparr>)
      | Some (k, i) \<Rightarrow> map_option (\<lambda>(hr, out). (Some k, out\<lparr>v_packet := None\<rparr>)) (vobsub_decode junk s i))"

section \<open>Packets of a file\<close>

text \<open>
  A file is what is left to read of it.  The blocks of 2048 bytes up to the next one of the language; at
  the end of the file the buffer stays as it is, a shorter last block replaces only its beginning.
\<close>

function next_block :: "int \<Rightarrow> byte list \<Rightarrow> byte list \<Rightarrow> byte list \<times> byte list" where
  "next_block lang src buff =
     (if src = [] then (buff, src)
      else let buff = blit buff 0 (take 2048 src); src = drop 2048 src
           in if uint (buff ! (unat (buff ! 0x16) + 0x17)) = lang OR 0x20 then (buff, src)
              else next_block lang src buff)"
  by pat_completeness auto
termination
  by (relation "measure (\<lambda>(lang, src, buff). length src)") auto

declare next_block.simps [simp del]

function copy_packet :: "int \<Rightarrow> byte list \<Rightarrow> byte list \<Rightarrow> nat \<Rightarrow> byte list \<Rightarrow> byte list" where
  "copy_packet lang src buff sizeleft acc =
     (if sizeleft = 0 then acc
      else let hsize = 0x18 + unat (buff ! 0x16);
               sz = min sizeleft (0x800 - hsize);
               acc = acc @ slice hsize sz buff
           in if sz = sizeleft then acc
              else case next_block lang src buff of
                     (buff, src) \<Rightarrow> copy_packet lang src buff (sizeleft - sz) acc)"
  by pat_completeness auto
termination
proof (relation "measure (\<lambda>(lang, src, buff, sizeleft, acc). sizeleft)", goal_cases)
  case (2 lang src buff sizeleft acc hsize sz acc' buff' src')
  have "unat (buff ! 0x16) < 256"
    using unsigned_less [of "buff ! 0x16"] by simp
  then have "0 < sz"
    using 2 by simp
  then show ?case
    using 2(1) by simp
qed simp

declare copy_packet.simps [simp del]

definition packet_block_ok :: "int \<Rightarrow> byte list \<Rightarrow> bool" where
  "packet_block_ok lang buff \<longleftrightarrow>
     slice 0 4 buff = [0, 0, 1, 0xBA] \<and> slice 0x0E 4 buff = [0, 0, 1, 0xBD] \<and> buff ! 0x15 AND 0x80 \<noteq> 0 \<and>
     buff ! 0x17 AND 0xF0 = 0x20 \<and> buff ! (unat (buff ! 0x16) + 0x17) AND 0xE0 = 0x20 \<and>
     uint (buff ! (unat (buff ! 0x16) + 0x17) AND 0x1F) = lang"

text \<open>\<open>read_packet_from_subfile\<close> on the file from the position on.\<close>

definition read_packet_from_subfile :: "byte list \<Rightarrow> vobsub_parser \<Rightarrow> (hresult \<times> vobsub_parser) option" where
  "read_packet_from_subfile src s =
     (let buff = take 2048 src; h = unat (buff ! 0x16)
      in if length src < 2048 then Some (E_FAIL, s)
         else if \<not> packet_block_ok (vs_lang_id s) buff then Some (E_FAIL, s)
         else
           let packetsize = nat (be16 (buff ! (h + 0x18)) (buff ! (h + 0x19)));
               datasize = nat (be16 (buff ! (h + 0x1A)) (buff ! (h + 0x1B)));
               pk = copy_packet (vs_lang_id s) (drop 2048 src) buff packetsize [];
               cur = (vs_current s)\<lparr>v_packetsize := packetsize, v_datasize := datasize, v_packet := Some pk,
                        v_end := v_start (vs_current s)\<rparr>
           in case control_blocks (time_cmd (v_start cur)) pk packetsize datasize datasize (v_start cur) of
                None \<Rightarrow> None
              | Some (Inl e) \<Rightarrow> Some (E_FAIL, s\<lparr>vs_current := cur\<lparr>v_end := e\<rparr>\<rparr>)
              | Some (Inr e) \<Rightarrow> Some (S_OK, s\<lparr>vs_current := cur\<lparr>v_end := e\<rparr>\<rparr>))"

lemma length_next_block: "length buff = 2048 \<Longrightarrow> length (fst (next_block lang src buff)) = 2048"
proof (induction lang src buff rule: next_block.induct)
  case (1 lang src buff)
  then show ?case
    by (subst next_block.simps) (simp add: Let_def)
qed

lemma header_fits: "0x18 + unat (b :: byte) < 0x800"
proof -
  have "unat b < 256"
    using unsigned_less [of b] by simp
  then show ?thesis
    by simp
qed

lemma length_copy_packet: "length buff = 2048 \<Longrightarrow> length (copy_packet lang src buff n acc) = length acc + n"
proof (induction lang src buff n acc rule: copy_packet.induct)
  case (1 lang src buff n acc)
  let ?h = "0x18 + unat (buff ! 0x16)"
  let ?sz = "min n (0x800 - ?h)"
  show ?case
  proof (cases "n = 0 \<or> ?sz = n")
    case True
    then show ?thesis
      using 1(2) by (subst copy_packet.simps) (auto simp: Let_def)
  next
    case False
    obtain buff' src' where nb: "next_block lang src buff = (buff', src')"
      by (cases "next_block lang src buff")
    have "length buff' = 2048"
      using length_next_block [OF 1(2), of lang src] nb by simp
    from 1(1) [OF _ refl refl refl _ nb [symmetric] this] False show ?thesis
      using 1(2) False by (subst copy_packet.simps) (auto simp: Let_def nb min_def split: if_splits)
  qed
qed

section \<open>A reference encoder\<close>

text \<open>A run of 1 to 255 pixels of one of four colours is one to four half bytes.\<close>

definition enc_code :: "nat \<Rightarrow> nat list" where
  "enc_code v =
     (if v < 16 then [v]
      else if v < 64 then [v div 16, v mod 16]
      else if v < 256 then [0, v div 16, v mod 16]
      else [0, v div 256, v div 16 mod 16, v mod 16])"

definition vrun_ok :: "nat \<times> nat \<Rightarrow> bool" where
  "vrun_ok r \<longleftrightarrow> 0 < fst r \<and> fst r < 256 \<and> snd r < 4"

definition enc_runs :: "(nat \<times> nat) list \<Rightarrow> nat list" where
  "enc_runs l = concat (map (\<lambda>(n, c). enc_code (n * 4 + c)) l)"

definition enc_vline :: "(nat \<times> nat) list \<Rightarrow> nat list" where
  "enc_vline l = enc_runs l @ (if even (length (enc_runs l)) then [] else [0])"

definition vline_width :: "(nat \<times> nat) list \<Rightarrow> nat" where
  "vline_width l = sum_list (map fst l)"

definition vline_pixels :: "(nat \<Rightarrow> u32) \<Rightarrow> (nat \<times> nat) list \<Rightarrow> u32 list" where
  "vline_pixels col l = concat (map (\<lambda>(n, c). replicate n (col c)) l)"

text \<open>The half bytes of a buffer.\<close>

definition nibs :: "byte list \<Rightarrow> nat list" where
  "nibs p = concat (map (\<lambda>b. [unat b div 16, unat b mod 16]) p)"

fun pack :: "nat list \<Rightarrow> byte list" where
  "pack (a # b # r) = of_nat (a * 16 + b) # pack r"
| "pack _ = []"

lemma length_nibs [simp]: "length (nibs p) = 2 * length p"
  by (induction p) (auto simp: nibs_def)

lemma nibs_append [simp]: "nibs (a @ b) = nibs a @ nibs b"
  by (simp add: nibs_def)

lemma nibs_pack: "even (length ns) \<Longrightarrow> list_all (\<lambda>n. n < 16) ns \<Longrightarrow> nibs (pack ns) = ns"
proof (induction ns rule: pack.induct)
  case (1 a b r)
  then have "unat (of_nat (a * 16 + b) :: byte) = a * 16 + b"
    by (simp add: unat_of_nat del: of_nat_add of_nat_mult)
  then show ?case
    using 1 by (simp add: nibs_def del: of_nat_add of_nat_mult)
qed (auto simp: nibs_def)

lemma nibs_drop: "drop (2 * k) (nibs p) = nibs (drop k p)"
proof (induction p arbitrary: k)
  case (Cons b p)
  then show ?case
    by (cases k) (simp_all add: nibs_def)
qed (simp add: nibs_def)

lemma GetNibble_nibs:
  assumes "drop q (nibs p) = x # r"
  shows "GetNibble p (q div 2) (even q) = Some (x, Suc q div 2, even (Suc q))" "drop (Suc q) (nibs p) = r"
proof -
  have q: "q < 2 * length p"
    using assms by (metis drop_all length_nibs list.distinct(1) not_le)
  have x: "x = nibs p ! q"
    using assms by (metis hd_drop_conv_nth length_nibs list.sel(1) q)
  obtain b t where d: "drop (q div 2) p = b # t"
    using q by (metis Cons_nth_drop_Suc less_mult_imp_div_less mult.commute)
  have b: "p ! (q div 2) = b" "q div 2 < length p"
    using d q by (metis hd_drop_conv_nth less_mult_imp_div_less list.sel(1) mult.commute, simp)
  have "drop (2 * (q div 2)) (nibs p) = unat b div 16 # unat b mod 16 # nibs t"
    unfolding nibs_drop d by (simp add: nibs_def)
  then have "nibs p ! (2 * (q div 2)) = unat b div 16" "nibs p ! Suc (2 * (q div 2)) = unat b mod 16"
    by (metis Cons_nth_drop_Suc drop_all list.distinct(1) list.inject not_le)+
  then have "x = (if even q then unat b div 16 else unat b mod 16)"
    using x by (cases "even q") (auto elim!: evenE oddE)
  then show "GetNibble p (q div 2) (even q) = Some (x, Suc q div 2, even (Suc q))"
    using b by (auto simp: GetNibble_def elim!: evenE oddE)
  show "drop (Suc q) (nibs p) = r"
    using assms by (metis drop_Suc list.sel(3) tl_drop)
qed

lemma get_code_enc:
  assumes "drop q (nibs p) = enc_code v @ r" "4 \<le> v" "v < 1024"
  shows "get_code p (q div 2) (even q) = Some (v, True, (q + length (enc_code v)) div 2, even (q + length (enc_code v)))"
    "drop (q + length (enc_code v)) (nibs p) = r"
proof -
  note step = GetNibble_nibs
  have "get_code p (q div 2) (even q) =
      Some (v, True, (q + length (enc_code v)) div 2, even (q + length (enc_code v))) \<and>
    drop (q + length (enc_code v)) (nibs p) = r"
  proof -
    consider "v < 16" | "16 \<le> v" "v < 64" | "64 \<le> v" "v < 256" | "256 \<le> v"
      by linarith
    then show ?thesis
    proof cases
      case 1
      then have "drop q (nibs p) = v # r"
        using assms(1) by (simp add: enc_code_def)
      from step [OF this] show ?thesis
        using 1 assms(2) by (simp add: enc_code_def get_code_def)
    next
      case 2
      then have 0: "drop q (nibs p) = v div 16 # v mod 16 # r"
        using assms(1) by (simp add: enc_code_def)
      have "v div 16 < 4"
        using 2 by linarith
      then show ?thesis
        using step [OF 0] step [OF step(2) [OF 0]] 2 by (simp add: enc_code_def get_code_def)
    next
      case 3
      then have 0: "drop q (nibs p) = 0 # v div 16 # v mod 16 # r"
        using assms(1) by (simp add: enc_code_def)
      have "v div 16 < 16"
        using 3 by linarith
      then show ?thesis
        using step [OF 0] step [OF step(2) [OF 0]] step [OF step(2) [OF step(2) [OF 0]]] 3
        by (simp add: enc_code_def get_code_def numeral_3_eq_3)
    next
      case 4
      then have 0: "drop q (nibs p) = 0 # v div 256 # v div 16 mod 16 # v mod 16 # r"
        using assms(1) by (simp add: enc_code_def)
      have "v div 256 < 4" "v div 16 < 64"
        using assms(3) by (simp_all add: less_mult_imp_div_less)
      moreover have "v div 256 * 16 + v div 16 mod 16 = v div 16"
        using div_mult_mod_eq [of "v div 16" 16] by (simp add: div_mult2_eq [symmetric])
      ultimately have small: "v div 256 < 4" "v div 256 * 16 + v div 16 mod 16 = v div 16" "v div 16 < 64"
        by simp_all
      then show ?thesis
        using step [OF 0] step [OF step(2) [OF 0]] step [OF step(2) [OF step(2) [OF 0]]]
          step [OF step(2) [OF step(2) [OF step(2) [OF 0]]]] 4 small
        by (simp add: enc_code_def get_code_def Let_def)
    qed
  qed
  then show "get_code p (q div 2) (even q) =
      Some (v, True, (q + length (enc_code v)) div 2, even (q + length (enc_code v)))"
    "drop (q + length (enc_code v)) (nibs p) = r"
    by simp_all
qed

lemma draw_pixels_inside:
  "k + n \<le> length px \<Longrightarrow> draw_pixels n (int k) c px = Some (blit px k (replicate n c))"
proof (induction n arbitrary: k px)
  case (Suc n)
  have "blit (px[k := c]) (Suc k) (replicate n c) = blit px k (replicate (Suc n) c)"
    using Suc.prems by (intro nth_equalityI) (auto simp: blit_nth nth_list_update nth_Cons')
  then show ?case
    using Suc.IH [of "Suc k" "px[k := c]"] Suc.prems by (simp add: wr_def add.commute)
qed (simp add: blit_def)

lemma set_offset_simps [simp]:
  "set_offset pl a (set_offset pl b os) = set_offset pl a os" "set_offset pl (offset_of pl os) os = os"
  by (simp_all add: set_offset_def offset_of_def)

text \<open>Where the data of a plane end, and that the loop goes on before.\<close>

definition limit :: "nat \<Rightarrow> nat \<times> nat \<Rightarrow> bool \<Rightarrow> nat" where
  "limit datasize os pl = (if pl then datasize else snd os)"

lemma limit_set [simp]: "limit ds (set_offset pl a os) pl = limit ds os pl"
  by (simp add: limit_def set_offset_def)

lemma goes_on: "(if pl then snd os < ds else fst os < snd os) \<longleftrightarrow> offset_of pl os < limit ds os pl"
  by (simp add: limit_def offset_of_def)

lemma enc_code_length: "0 < length (enc_code v)"
  by (simp add: enc_code_def)

text \<open>One run, inside a line and at its end.\<close>

lemma decode_run:
  assumes "vrun_ok (n, c)" "drop q (nibs p) = enc_code (n * 4 + c) @ r" "q < 2 * limit ds os pl"
    and "offset_of pl os = q div 2" "x + n \<le> w" "w * y + x + n \<le> length px"
  shows "decode_loop col p ds (int w) h os pl (even q) (int x) (int y) px =
    (let q' = q + length (enc_code (n * 4 + c)); px' = blit px (w * y + x) (replicate n (col c))
     in if x + n < w
        then decode_loop col p ds (int w) h (set_offset pl (q' div 2) os) pl (even q') (int (x + n)) (int y) px'
        else case align p (q' div 2) (even q') of
               None \<Rightarrow> None
             | Some off \<Rightarrow>
                 if int y + 1 \<ge> h then Some (int y + 1, px')
                 else decode_loop col p ds (int w) h (set_offset pl off os) (\<not> pl) True 0 (int y + 1) px')"
proof -
  obtain v where nc: "n * 4 + c = v"
    by blast
  have v: "4 \<le> v" "v < 1024" "v div 4 = n" "v mod 4 = c"
    using assms(1) nc by (auto simp: vrun_ok_def)
  have "int w * int y + int x = int (w * y + x)"
    by simp
  then have draw: "draw_pixels n (int w * int y + int x) (col c) px = Some (blit px (w * y + x) (replicate n (col c)))"
    using draw_pixels_inside [of "w * y + x" n px "col c"] assms(6) by (simp only:)
  have "q div 2 < limit ds os pl"
    using assms(3) by (simp add: less_mult_imp_div_less mult.commute)
  then have go: "if pl then snd os < ds else fst os < snd os"
    unfolding goes_on assms(4) .
  have code: "get_code p (offset_of pl os) (even q) =
      Some (v, True, (q + length (enc_code v)) div 2, even (q + length (enc_code v)))"
    using get_code_enc(1) [OF assms(2) [unfolded nc] v(1,2)] by (simp only: assms(4))
  show ?thesis
  proof (cases "x + n < w")
    case True
    then show ?thesis
      unfolding nc by (subst decode_loop.simps) (simp add: go code draw v(3,4) Let_def)
  next
    case False
    then have "nat (int w - (int x + int n)) = 0"
      by simp
    with False show ?thesis
      unfolding nc by (subst decode_loop.simps) (simp add: go code draw v(3,4) Let_def)
  qed
qed

lemma blit_nil [simp]: "blit px k [] = px"
  by (simp add: blit_def)

lemma vline_simps [simp]:
  "vline_width [] = 0" "vline_width ((n, c) # l) = n + vline_width l"
  "vline_pixels col [] = []" "vline_pixels col ((n, c) # l) = replicate n (col c) @ vline_pixels col l"
  "enc_runs [] = []" "enc_runs ((n, c) # l) = enc_code (n * 4 + c) @ enc_runs l"
  by (simp_all add: vline_width_def vline_pixels_def enc_runs_def)

lemma length_vline_pixels [simp]: "length (vline_pixels col l) = vline_width l"
  by (induction l) auto

text \<open>The runs of a line.\<close>

lemma decode_runs:
  assumes "l \<noteq> []" "list_all vrun_ok l" "drop q (nibs p) = enc_runs l @ r"
    and "q + length (enc_runs l) \<le> 2 * limit ds os pl" "offset_of pl os = q div 2" "x + vline_width l = w"
    and "w * y + w \<le> length px"
  shows "decode_loop col p ds (int w) h os pl (even q) (int x) (int y) px =
    (let q' = q + length (enc_runs l); px' = blit px (w * y + x) (vline_pixels col l)
     in case align p (q' div 2) (even q') of
          None \<Rightarrow> None
        | Some off \<Rightarrow>
            if int y + 1 \<ge> h then Some (int y + 1, px')
            else decode_loop col p ds (int w) h (set_offset pl off os) (\<not> pl) True 0 (int y + 1) px')"
  using assms
proof (induction l arbitrary: q x os px)
  case (Cons a l)
  obtain n c where a: "a = (n, c)"
    by (cases a)
  let ?e = "enc_code (n * 4 + c)"
  have ok: "vrun_ok (n, c)"
    using Cons.prems(2) by (simp add: a)
  have d: "drop q (nibs p) = ?e @ enc_runs l @ r"
    using Cons.prems(3) by (simp add: a)
  have q: "q < 2 * limit ds os pl"
  proof -
    have "q + length ?e \<le> 2 * limit ds os pl"
      using Cons.prems(4) by (simp add: a)
    then show ?thesis
      using enc_code_length [of "n * 4 + c"] by linarith
  qed
  have "vrun_ok (n, c) \<Longrightarrow> l \<noteq> [] \<Longrightarrow> 0 < vline_width l"
    using Cons.prems(2) by (cases l) (auto simp: vrun_ok_def)
  then have inside: "x + n < w \<longleftrightarrow> l \<noteq> []"
    using Cons.prems(6) ok by (auto simp: a)
  have run: "decode_loop col p ds (int w) h os pl (even q) (int x) (int y) px =
    (let q' = q + length ?e; px' = blit px (w * y + x) (replicate n (col c))
     in if x + n < w
        then decode_loop col p ds (int w) h (set_offset pl (q' div 2) os) pl (even q') (int (x + n)) (int y) px'
        else case align p (q' div 2) (even q') of
               None \<Rightarrow> None
             | Some off \<Rightarrow>
                 if int y + 1 \<ge> h then Some (int y + 1, px')
                 else decode_loop col p ds (int w) h (set_offset pl off os) (\<not> pl) True 0 (int y + 1) px')"
    using Cons.prems(6,7) by (intro decode_run [OF ok d q Cons.prems(5)]) (simp_all add: a)
  show ?case
  proof (cases "l = []")
    case True
    then show ?thesis
      unfolding run using inside by (simp add: a)
  next
    case False
    let ?px = "blit px (w * y + x) (replicate n (col c))"
    have len: "length ?px = length px"
      using Cons.prems(6,7) by (simp add: a)
    have px: "blit ?px (w * y + (x + n)) (vline_pixels col l) = blit px (w * y + x) (vline_pixels col (a # l))"
      using blit_blit [of "w * y + x" "replicate n (col c)" "vline_pixels col l" px] Cons.prems(6,7)
      by (simp add: a add.assoc)
    have "decode_loop col p ds (int w) h (set_offset pl ((q + length ?e) div 2) os) pl (even (q + length ?e))
        (int (x + n)) (int y) ?px =
      (let q' = (q + length ?e) + length (enc_runs l); px' = blit ?px (w * y + (x + n)) (vline_pixels col l)
       in case align p (q' div 2) (even q') of
          None \<Rightarrow> None
        | Some off \<Rightarrow>
            if int y + 1 \<ge> h then Some (int y + 1, px')
            else decode_loop col p ds (int w) h (set_offset pl off (set_offset pl ((q + length ?e) div 2) os)) (\<not> pl)
              True 0 (int y + 1) px')"
      using Cons.prems False len get_code_enc(2) [OF d] ok
      by (intro Cons.IH) (simp_all add: a vrun_ok_def)
    then show ?thesis
      unfolding run px using inside False by (simp add: a add.assoc Let_def split: option.split)
  qed
qed simp

lemma align_even:
  assumes "q \<le> 2 * length p"
  shows "align p (q div 2) (even q) = Some ((q + 1) div 2)"
  using assms by (auto simp: align_def GetNibble_def rd_SomeI elim!: oddE)

lemma length_enc_vline: "length (enc_vline l) = 2 * ((length (enc_runs l) + 1) div 2)"
  by (auto simp: enc_vline_def elim: evenE oddE)

text \<open>A line.\<close>

lemma decode_line:
  assumes "l \<noteq> []" "list_all vrun_ok l" "drop (2 * offset_of pl os) (nibs p) = enc_vline l @ r"
    and "2 * offset_of pl os + length (enc_vline l) \<le> 2 * limit ds os pl" "vline_width l = w"
    and "w * y + w \<le> length px"
  shows "decode_loop col p ds (int w) h os pl True 0 (int y) px =
    (let px' = blit px (w * y) (vline_pixels col l)
     in if int y + 1 \<ge> h then Some (int y + 1, px')
        else decode_loop col p ds (int w) h
          (set_offset pl (offset_of pl os + length (enc_vline l) div 2) os) (\<not> pl) True 0 (int y + 1) px')"
proof -
  let ?q = "2 * offset_of pl os" and ?n = "length (enc_runs l)"
  have "0 < ?n"
    using assms(1) enc_code_length by (cases l) auto
  then have "?q + length (enc_vline l) \<le> length (nibs p)"
    using arg_cong [OF assms(3), of length] by (simp only: length_drop length_append enc_vline_def)
  moreover have n: "?n \<le> length (enc_vline l)"
    by (simp add: enc_vline_def)
  ultimately have al: "align p ((?q + ?n) div 2) (even (?q + ?n)) = Some ((?q + ?n + 1) div 2)"
    by (intro align_even) simp
  have "(?q + ?n + 1) div 2 = offset_of pl os + length (enc_vline l) div 2"
    by (simp add: length_enc_vline)
  moreover have "drop ?q (nibs p) = enc_runs l @ (if even ?n then [] else [0]) @ r"
    using assms(3) by (simp add: enc_vline_def)
  moreover have "?q + ?n \<le> 2 * limit ds os pl"
    using assms(4) n by linarith
  ultimately show ?thesis
    using decode_runs [of l ?q p "(if even ?n then [] else [0]) @ r" ds os pl 0 w y px col h] assms(1,2,5,6) al
    by (simp only: Let_def even_mult_iff even_numeral simp_thms nonzero_mult_div_cancel_left zero_neq_numeral
        add_0_left add_0_right option.case) simp
qed

text \<open>Lines go to the two planes in turn.\<close>

fun alternate :: "bool \<Rightarrow> 'a list \<Rightarrow> 'a list" where
  "alternate b [] = []"
| "alternate b (x # xs) = (if b then alternate False xs else x # alternate True xs)"

lemma alternate_step: "alternate True (x # xs) = alternate False xs" "alternate False (x # xs) = x # alternate True xs"
  by simp_all

definition plane_nibs :: "(nat \<times> nat) list list \<Rightarrow> nat list" where
  "plane_nibs ls = concat (map enc_vline ls)"

definition vlines_ok :: "nat \<Rightarrow> (nat \<times> nat) list list \<Rightarrow> bool" where
  "vlines_ok w ls \<longleftrightarrow> list_all (\<lambda>l. l \<noteq> [] \<and> list_all vrun_ok l \<and> vline_width l = w) ls"

definition vpixels :: "(nat \<Rightarrow> u32) \<Rightarrow> (nat \<times> nat) list list \<Rightarrow> u32 list" where
  "vpixels col ls = concat (map (vline_pixels col) ls)"

lemma length_vpixels: "vlines_ok w ls \<Longrightarrow> length (vpixels col ls) = length ls * w"
  by (induction ls) (auto simp: vpixels_def vlines_ok_def)

lemma limit_other:
  "offset_of pl os \<le> k \<Longrightarrow> limit ds os (\<not> pl) \<le> limit ds (set_offset pl k os) (\<not> pl)"
  by (cases pl) (simp_all add: limit_def set_offset_def offset_of_def)

lemma decode_lines:
  assumes "vlines_ok w ls" "ls \<noteq> []" "length px = w * (y + length ls)"
    and "drop (2 * offset_of pl os) (nibs p) = plane_nibs (alternate False ls) @ r1"
    and "drop (2 * offset_of (\<not> pl) os) (nibs p) = plane_nibs (alternate True ls) @ r2"
    and "2 * offset_of pl os + length (plane_nibs (alternate False ls)) \<le> 2 * limit ds os pl"
    and "2 * offset_of (\<not> pl) os + length (plane_nibs (alternate True ls)) \<le> 2 * limit ds os (\<not> pl)"
  shows "decode_loop col p ds (int w) (int (y + length ls)) os pl True 0 (int y) px =
    Some (int (y + length ls), blit px (w * y) (vpixels col ls))"
  using assms
proof (induction ls arbitrary: y os pl px r1 r2)
  case (Cons l ls)
  have l: "l \<noteq> []" "list_all vrun_ok l" "vline_width l = w" and ls: "vlines_ok w ls"
    using Cons.prems(1) by (auto simp: vlines_ok_def)
  let ?e = "length (enc_vline l)"
  let ?os = "set_offset pl (offset_of pl os + ?e div 2) os" and ?px = "blit px (w * y) (vline_pixels col l)"
  have e: "2 * (?e div 2) = ?e"
    by (simp add: length_enc_vline)
  have room: "w * y + w \<le> length px"
    using Cons.prems(3) by (simp add: algebra_simps)
  have line: "decode_loop col p ds (int w) (int (y + length (l # ls))) os pl True 0 (int y) px =
     (if int y + 1 \<ge> int (y + length (l # ls)) then Some (int y + 1, ?px)
      else decode_loop col p ds (int w) (int (y + length (l # ls))) ?os (\<not> pl) True 0 (int y + 1) ?px)"
    using Cons.prems(4,6) l room
      decode_line [of l pl os p "plane_nibs (alternate True ls) @ r1" ds w y px col "int (y + length (l # ls))"]
    by (simp add: plane_nibs_def)
  show ?case
  proof (cases "ls = []")
    case True
    then show ?thesis
      unfolding line by (simp add: vpixels_def)
  next
    case False
    have len: "length ?px = length px"
      using room l by simp
    have rest: "drop (2 * offset_of (\<not> (\<not> pl)) ?os) (nibs p) = plane_nibs (alternate True ls) @ r1"
    proof -
      have "drop ?e (drop (2 * offset_of pl os) (nibs p)) = plane_nibs (alternate True ls) @ r1"
        using Cons.prems(4) by (simp add: plane_nibs_def)
      then show ?thesis
        using e by (simp add: add.commute distrib_left)
    qed
    have lim1: "2 * offset_of (\<not> pl) ?os + length (plane_nibs (alternate False ls)) \<le> 2 * limit ds ?os (\<not> pl)"
      using Cons.prems(7) limit_other [of pl os "offset_of pl os + ?e div 2" ds] by simp
    have lim2: "2 * offset_of (\<not> (\<not> pl)) ?os + length (plane_nibs (alternate True ls)) \<le> 2 * limit ds ?os (\<not> (\<not> pl))"
      using Cons.prems(6) e by (simp add: plane_nibs_def distrib_left)
    have "decode_loop col p ds (int w) (int (Suc y + length ls)) ?os (\<not> pl) True 0 (int (Suc y)) ?px =
      Some (int (Suc y + length ls), blit ?px (w * Suc y) (vpixels col ls))"
      using Cons.prems(3,5) rest lim1 lim2 len
      by (intro Cons.IH [OF ls False]) (auto simp: algebra_simps)
    moreover have "blit ?px (w * Suc y) (vpixels col ls) = blit px (w * y) (vpixels col (l # ls))"
      using blit_blit [of "w * y" "vline_pixels col l" "vpixels col ls" px] length_vpixels [OF ls, of col] l Cons.prems(3)
      by (simp add: vpixels_def algebra_simps)
    moreover have "\<not> int y + 1 \<ge> int (y + length (l # ls))"
      using False by (cases ls) auto
    ultimately show ?thesis
      unfolding line by (simp add: add.commute)
  qed
qed simp

section \<open>A packet\<close>

record vob_packet =
  o_pal :: int
  o_tr :: int
  o_left :: nat
  o_top :: nat
  o_lines :: "(nat \<times> nat) list list"
  o_width :: nat

definition plane :: "bool \<Rightarrow> vob_packet \<Rightarrow> byte list" where
  "plane b d = pack (plane_nibs (alternate b (o_lines d)))"

definition data_end :: "vob_packet \<Rightarrow> nat" where
  "data_end d = 4 + length (plane False d) + length (plane True d)"

text \<open>Two numbers of twelve bits in three bytes.\<close>

definition w24 :: "nat \<Rightarrow> nat \<Rightarrow> byte list" where
  "w24 a b = [of_nat (a div 16), of_nat (a mod 16 * 16 + b div 256), of_nat (b mod 256)]"

definition control_block :: "vob_packet \<Rightarrow> byte list" where
  "control_block d =
     w16 0 @ w16 (int (data_end d)) @ [3] @ w16 (o_pal d) @ [4] @ w16 (o_tr d) @
     [5] @ w24 (o_left d) (o_left d + o_width d - 1) @ w24 (o_top d) (o_top d + length (o_lines d) - 1) @
     [6] @ w16 4 @ w16 (int (4 + length (plane False d))) @ [0xFF]"

definition encode_vob :: "vob_packet \<Rightarrow> byte list" where
  "encode_vob d =
     w16 (int (data_end d + 23)) @ w16 (int (data_end d)) @ plane False d @ plane True d @ control_block d"

definition vob_ok :: "vob_packet \<Rightarrow> bool" where
  "vob_ok d \<longleftrightarrow> vlines_ok (o_width d) (o_lines d) \<and> o_lines d \<noteq> [] \<and> 0 < o_width d \<and>
     o_left d + o_width d \<le> 4096 \<and> o_top d + length (o_lines d) \<le> 4096 \<and> data_end d + 23 < 65536 \<and>
     0 \<le> o_pal d \<and> o_pal d < 65536 \<and> 0 \<le> o_tr d \<and> o_tr d < 65536"

lemma length_control_block: "length (control_block d) = 23"
  by (simp add: control_block_def w24_def)

lemma length_encode_vob: "length (encode_vob d) = data_end d + 23"
  by (simp add: encode_vob_def length_control_block data_end_def)

lemma drop_data_end: "drop (data_end d) (encode_vob d) = control_block d"
  by (simp add: encode_vob_def data_end_def)

lemma rd16_drop: "rd16 p (k + i) = rd16 (drop k p) i"
  using rd_drop [of p k i] rd_drop [of p k "i + 1"] by (simp add: rd16_def add.assoc add.commute)

lemma enc_vline_nibs: "list_all vrun_ok l \<Longrightarrow> list_all (\<lambda>n. n < 16) (enc_vline l)"
proof -
  have "list_all (\<lambda>n. n < 16) (enc_code v)" if "v < 1024" for v
    using that by (simp add: enc_code_def less_mult_imp_div_less)
  then have "list_all vrun_ok l \<Longrightarrow> list_all (\<lambda>n. n < 16) (enc_runs l)"
    by (induction l) (auto simp: vrun_ok_def)
  then show "list_all vrun_ok l \<Longrightarrow> list_all (\<lambda>n. n < 16) (enc_vline l)"
    by (simp add: enc_vline_def)
qed

lemma plane_nibs_ok:
  "vlines_ok w ls \<Longrightarrow> list_all (\<lambda>n. n < 16) (plane_nibs (alternate b ls)) \<and> even (length (plane_nibs (alternate b ls)))"
proof (induction ls arbitrary: b)
  case (Cons l ls)
  then show ?case
    by (auto simp: plane_nibs_def vlines_ok_def enc_vline_nibs length_enc_vline)
qed (simp add: plane_nibs_def)

lemma nibs_plane: "vob_ok d \<Longrightarrow> nibs (plane b d) = plane_nibs (alternate b (o_lines d))"
  using plane_nibs_ok by (auto simp: plane_def vob_ok_def intro!: nibs_pack)

lemma vob_planes:
  assumes "vob_ok d"
  shows "drop (2 * 4) (nibs (encode_vob d)) =
      plane_nibs (alternate False (o_lines d)) @ nibs (plane True d @ control_block d)"
    "drop (2 * (4 + length (plane False d))) (nibs (encode_vob d)) =
      plane_nibs (alternate True (o_lines d)) @ nibs (control_block d)"
  unfolding nibs_drop by (simp_all add: encode_vob_def nibs_plane [OF assms] flip: nibs_plane [OF assms])

lemma w24_read:
  assumes "a < 4096" "b < 4096"
  obtains x0 x1 x2 where "w24 a b = [x0, x1, x2]" "uint x0 * 16 + uint x1 div 16 = int a"
    "uint x1 mod 16 * 256 + uint x2 = int b"
proof
  have small: "a div 16 < 256" "a mod 16 * 16 + b div 256 < 256" "b mod 256 < 256" "b div 256 < 16"
  proof -
    show "a div 16 < 256" "b mod 256 < 256" and b: "b div 256 < 16"
      using assms by (simp_all add: less_mult_imp_div_less)
    have "a mod 16 < 16"
      by simp
    then show "a mod 16 * 16 + b div 256 < 256"
      using b by linarith
  qed
  have u: "uint (of_nat n :: byte) = int n" if "n < 256" for n
    using that by (simp add: unsigned_of_nat take_bit_eq_mod zmod_int)
  show "w24 a b = [of_nat (a div 16), of_nat (a mod 16 * 16 + b div 256), of_nat (b mod 256)]"
    by (simp add: w24_def)
  have d: "(a mod 16 * 16 + b div 256) div 16 = a mod 16" "(a mod 16 * 16 + b div 256) mod 16 = b div 256"
    using small(4) by simp_all
  then have "int (a mod 16 * 16 + b div 256) div 16 = int (a mod 16)"
    "int (a mod 16 * 16 + b div 256) mod 16 = int (b div 256)"
    by (metis of_nat_div of_nat_numeral, metis of_nat_mod of_nat_numeral)
  moreover have "int (a div 16) * 16 + int (a mod 16) = int a" "int (b div 256) * 256 + int (b mod 256) = int b"
    by (metis div_mult_mod_eq of_nat_add of_nat_mult of_nat_numeral)+
  ultimately show "uint (of_nat (a div 16) :: byte) * 16 + uint (of_nat (a mod 16 * 16 + b div 256) :: byte) div 16 = int a"
    "uint (of_nat (a mod 16 * 16 + b div 256) :: byte) mod 16 * 256 + uint (of_nat (b mod 256) :: byte) = int b"
    by (simp_all only: u [OF small(1)] u [OF small(2)] u [OF small(3)])
qed

text \<open>A command, from the bytes that follow it.\<close>

lemma control_cmd_drop: "control_cmd p t b i c = control_cmd (drop i p) t b 0 c"
  using rd_at [of p i 0] rd_at [of p i 1] rd_at [of p i 2] rd_at [of p i 3] rd_at [of p i 4] rd_at [of p i 5]
  by (simp add: control_cmd_def rd16_def ac_simps)

lemma control_cmds_step:
  assumes "drop i p = b # w @ r" "b \<le> 6" "length w = cmd_len b" "i + cmd_len b < n"
    and "control_cmd (w @ r) t b 0 c = Some (c', Some (cmd_len b))"
  shows "control_cmds control_cmd p n t i c = control_cmds control_cmd p n t (i + 1 + cmd_len b) c'"
    "drop (i + 1 + cmd_len b) p = r"
proof -
  have "rd p (int i) = Some b"
    using rd_at [of p i 0] assms(1) by (simp add: rd_tail)
  moreover have "control_cmd p t b (i + 1) c = Some (c', Some (cmd_len b))"
    using assms(1,5) by (subst control_cmd_drop) (metis drop_drop drop_Suc_Cons drop_0 One_nat_def add.commute)
  ultimately show "control_cmds control_cmd p n t i c = control_cmds control_cmd p n t (i + 1 + cmd_len b) c'"
    using assms(4) by (subst control_cmds.simps) simp
  have "drop (1 + cmd_len b) (drop i p) = r"
    using assms(1,3) by simp
  then show "drop (i + 1 + cmd_len b) p = r"
    by (simp add: add.commute add.left_commute)
qed

lemma w16_bytes:
  assumes "0 \<le> n" "n < 65536"
  obtains a b where "w16 n = [a, b]" "be16 a b = n"
  using w16_split [of "nat n"] assms by (metis int_nat_eq nat_less_numeral_power_cancel_iff nat_less_iff of_nat_numeral zero_less_numeral)

lemma control_cmd_words:
  assumes "0 \<le> x" "x < 65536"
  shows "control_cmd (w16 x @ r) t 3 0 c = Some (c\<lparr>k_pal := word_of_int x\<rparr>, Some (cmd_len 3))"
    "control_cmd (w16 x @ r) t 4 0 c = Some (c\<lparr>k_tr := word_of_int x\<rparr>, Some (cmd_len 4))"
proof -
  obtain a b where "w16 x = [a, b]" "be16 a b = x"
    using assms by (rule w16_bytes)
  then show "control_cmd (w16 x @ r) t 3 0 c = Some (c\<lparr>k_pal := word_of_int x\<rparr>, Some (cmd_len 3))"
    "control_cmd (w16 x @ r) t 4 0 c = Some (c\<lparr>k_tr := word_of_int x\<rparr>, Some (cmd_len 4))"
    by (simp_all add: control_cmd_def rd16_def rd_tail)
qed

lemma control_cmd_offsets:
  assumes "x < 65536" "y < 65536"
  shows "control_cmd ((w16 (int x) @ w16 (int y)) @ r) t 6 0 c = Some (c\<lparr>k_offset := Some (x, y)\<rparr>, Some (cmd_len 6))"
proof -
  obtain a b where "w16 (int x) = [a, b]" "be16 a b = int x"
    using assms(1) by (rule w16_split)
  moreover obtain a' b' where "w16 (int y) = [a', b']" "be16 a' b' = int y"
    using assms(2) by (rule w16_split)
  ultimately show ?thesis
    by (simp add: control_cmd_def rd16_def rd_def)
qed

lemma control_cmd_rect:
  assumes "l < 4096" "r < 4096" "t < 4096" "b < 4096"
  shows "control_cmd ((w24 l r @ w24 t b) @ rest) tm 5 0 c =
    Some (c\<lparr>k_rect := Some (int l, int t, int r + 1, int b + 1)\<rparr>, Some (cmd_len 5))"
proof -
  obtain x0 x1 x2 where "w24 l r = [x0, x1, x2]" "uint x0 * 16 + uint x1 div 16 = int l"
    "uint x1 mod 16 * 256 + uint x2 = int r"
    using assms(1,2) by (rule w24_read)
  moreover obtain y0 y1 y2 where "w24 t b = [y0, y1, y2]" "uint y0 * 16 + uint y1 div 16 = int t"
    "uint y1 mod 16 * 256 + uint y2 = int b"
    using assms(3,4) by (rule w24_read)
  ultimately show ?thesis
    by (simp add: control_cmd_def rd_def)
qed

lemma length_w24 [simp]: "length (w24 a b) = 3"
  by (simp add: w24_def)

lemma cmd_len_simps [simp]: "cmd_len 3 = 2" "cmd_len 4 = 2" "cmd_len 5 = 6" "cmd_len 6 = 4" "cmd_len 0xFF = 0"
  by (simp_all add: cmd_len_def)

lemma control_cmds_all:
  assumes d: "drop i p = 3 # w16 x @ 4 # w16 y @ 5 # (w24 l r @ w24 t b) @ 6 # (w16 (int o0) @ w16 (int o1)) @ [0xFF]"
    and b: "0 \<le> x" "x < 65536" "0 \<le> y" "y < 65536" "l < 4096" "r < 4096" "t < 4096" "b < 4096" "o0 < 65536" "o1 < 65536"
  shows "control_cmds control_cmd p (i + 19) tm i c = Some (i + 19, c\<lparr>k_pal := word_of_int x, k_tr := word_of_int y,
    k_rect := Some (int l, int t, int r + 1, int b + 1), k_offset := Some (o0, o1)\<rparr>)"
proof -
  obtain n where n: "i + 19 = n"
    by blast
  obtain i1 i2 i3 i4 where at: "i + 1 + cmd_len 3 = i1" "i1 + 1 + cmd_len 4 = i2" "i2 + 1 + cmd_len 5 = i3"
    "i3 + 1 + cmd_len 6 = i4"
    by blast
  have less: "i + cmd_len 3 < n" "i1 + cmd_len 4 < n" "i2 + cmd_len 5 < n" "i3 + cmd_len 6 < n" "i4 + 1 = n"
    using n at by simp_all
  have lens: "length (w16 x) = cmd_len 3" "length (w16 y) = cmd_len 4" "length (w24 l r @ w24 t b) = cmd_len 5"
    "length (w16 (int o0) @ w16 (int o1)) = cmd_len 6" "(3 :: byte) \<le> 6" "(4 :: byte) \<le> 6" "(5 :: byte) \<le> 6"
    "(6 :: byte) \<le> 6"
    by simp_all
  note s1 = control_cmds_step [OF d lens(5,1) less(1) control_cmd_words(1) [OF b(1,2)], unfolded at]
  note s2 = control_cmds_step [OF s1(2) lens(6,2) less(2) control_cmd_words(2) [OF b(3,4)], unfolded at]
  note s3 = control_cmds_step [OF s2(2) lens(7,3) less(3) control_cmd_rect [OF b(5-8)], unfolded at]
  note s4 = control_cmds_step [OF s3(2) lens(8,4) less(4) control_cmd_offsets [OF b(9,10)], unfolded at]
  have "rd p (int i4) = Some 0xFF"
    using rd_at [of p i4 0] s4(2) by (simp add: rd_def)
  then have "control_cmds control_cmd p n tm i4 c' = Some (n, c')" for c'
    using less(5) by (subst control_cmds.simps) (auto simp: control_cmd_def)
  then show ?thesis
    unfolding n s1(1) s2(1) s3(1) s4(1) by simp
qed

lemma control_encode:
  assumes "vob_ok d"
  shows "control_blocks control_cmd (encode_vob d) (data_end d + 23) (data_end d) (data_end d) no_control =
    Some (Inr (no_control\<lparr>k_pal := word_of_int (o_pal d), k_tr := word_of_int (o_tr d),
      k_rect := Some (int (o_left d), int (o_top d), int (o_left d + o_width d), int (o_top d + length (o_lines d))),
      k_offset := Some (4, 4 + length (plane False d))\<rparr>))"
proof -
  let ?p = "encode_vob d" and ?i = "data_end d + 4" and ?n = "data_end d + 23" and ?o = "4 + length (plane False d)"
  let ?r3 = "[6] @ (w16 (int 4) @ w16 (int ?o)) @ [0xFF]"
  let ?r2 = "[5] @ (w24 (o_left d) (o_left d + o_width d - 1) @ w24 (o_top d) (o_top d + length (o_lines d) - 1)) @ ?r3"
  have bounds: "data_end d < 65536" "?o < 65536" "0 < length (o_lines d)" "0 < o_width d"
    using assms by (auto simp: vob_ok_def data_end_def)
  have start: "rd16 ?p (data_end d) = Some 0" "rd16 ?p (data_end d + 2) = Some (int (data_end d))"
  proof -
    obtain a b where ab: "w16 (int (data_end d)) = [a, b]" "be16 a b = int (data_end d)"
      using bounds(1) by (rule w16_split)
    obtain z0 z1 where z: "w16 (int 0) = [z0, z1]" "be16 z0 z1 = int 0"
      by (rule w16_split [of 0]) simp_all
    show "rd16 ?p (data_end d) = Some 0" "rd16 ?p (data_end d + 2) = Some (int (data_end d))"
      using rd16_drop [of ?p "data_end d" 0] rd16_drop [of ?p "data_end d" 2] ab z
      by (simp_all add: drop_data_end control_block_def rd16_def rd_def)
  qed
  have d3: "drop ?i ?p = 3 # w16 (o_pal d) @ [4] @ w16 (o_tr d) @ ?r2"
    using drop_data_end [of d] drop_drop [of 4 "data_end d" ?p, symmetric]
    by (simp add: control_block_def w16_def add.commute)
  have pos: "0 < length (o_lines d)" "o_left d < 4096" "o_left d + o_width d - 1 < 4096" "o_top d < 4096"
    "o_top d + length (o_lines d) - 1 < 4096" "0 \<le> o_pal d" "o_pal d < 65536" "0 \<le> o_tr d" "o_tr d < 65536"
    "(4 :: nat) < 65536"
    using assms bounds(3,4) unfolding vob_ok_def by linarith+
  have eqs: "int (o_left d + o_width d - 1) + 1 = int (o_left d + o_width d)"
    "int (o_top d + length (o_lines d) - 1) + 1 = int (o_top d + length (o_lines d))" "?i + 19 = ?n"
    using bounds(3,4) by linarith+
  have d3': "drop ?i ?p = 3 # w16 (o_pal d) @ 4 # w16 (o_tr d) @
      5 # (w24 (o_left d) (o_left d + o_width d - 1) @ w24 (o_top d) (o_top d + length (o_lines d) - 1)) @
      6 # (w16 (int 4) @ w16 (int ?o)) @ [0xFF]"
    using d3 by simp
  note cmds = control_cmds_all [OF d3' pos(6-9,2-5,10) bounds(2), of 0 no_control, unfolded eqs]
  have "\<not> int (data_end d) < 0"
    by simp
  then show ?thesis
    using start cmds by (subst control_blocks.simps) simp
qed

lemma length_cleared [simp]: "length (cleared n px) = length px"
  by (simp add: cleared_def)

lemma picture_colour_table [simp]: "picture_colour (s\<lparr>vs_subtitles := x\<rparr>) = picture_colour s"
  by (intro ext) (simp add: picture_colour_def)

definition vob_pixels :: "vobsub_parser \<Rightarrow> vob_packet \<Rightarrow> u32 list" where
  "vob_pixels s d = vpixels (picture_colour s (word_of_int (o_pal d)) (word_of_int (o_tr d))) (o_lines d)"

lemma decode_vob:
  assumes "vob_ok d" "v_packet sub = Some (encode_vob d)" "v_packetsize sub = data_end d + 23"
    "v_datasize sub = data_end d" "\<And>n. length (junk n) = n"
  shows "vobsub_decode junk s sub = Some (S_OK, sub\<lparr>v_rgb := Some (vob_pixels s d), v_left := int (o_left d),
    v_top := int (o_top d), v_width := int (o_width d), v_height := int (length (o_lines d))\<rparr>)"
proof -
  let ?w = "o_width d" and ?h = "length (o_lines d)" and ?os = "(4, 4 + length (plane False d))"
    and ?col = "picture_colour s (word_of_int (o_pal d)) (word_of_int (o_tr d))"
  let ?px = "cleared (?w * ?h) (junk (?w * ?h))"
  have ok: "vlines_ok ?w (o_lines d)" "o_lines d \<noteq> []"
    using assms(1) by (auto simp: vob_ok_def)
  have len: "length (vpixels ?col (o_lines d)) = ?w * ?h" "length ?px = ?w * ?h"
    using length_vpixels [OF ok(1)] assms(5) by (simp_all add: mult.commute)
  have ends: "2 * 4 + length (plane_nibs (alternate False (o_lines d))) = 2 * (4 + length (plane False d))"
    "2 * (4 + length (plane False d)) + length (plane_nibs (alternate True (o_lines d))) = 2 * data_end d"
    by (simp_all add: data_end_def flip: nibs_plane [OF assms(1)])
  have "decode_loop ?col (encode_vob d) (data_end d) (int ?w) (int (0 + ?h)) ?os False True 0 (int 0) ?px =
    Some (int (0 + ?h), blit ?px (?w * 0) (vpixels ?col (o_lines d)))"
    using vob_planes [OF assms(1)] ends len(2)
    by (intro decode_lines [OF ok]) (auto simp: offset_of_def limit_def)
  moreover have "blit ?px 0 (vpixels ?col (o_lines d)) = vpixels ?col (o_lines d)"
    using len by (simp add: blit_def)
  moreover have "nat (int ?w * int ?h) = ?w * ?h"
    by (simp add: nat_mult_distrib)
  moreover have "\<not> int ?w * int ?h < 0"
    by (simp add: not_less)
  ultimately show ?thesis
    using control_encode [OF assms(1)] by (simp add: vobsub_decode_def assms(2-4) Let_def vob_pixels_def)
qed

lemma vob_header:
  assumes "vob_ok d"
  shows "be16 (encode_vob d ! 0) (encode_vob d ! 1) = int (data_end d + 23)"
    "be16 (encode_vob d ! 2) (encode_vob d ! 3) = int (data_end d)"
proof -
  have "data_end d + 23 < 65536" "data_end d < 65536"
    using assms by (simp_all add: vob_ok_def)
  then obtain a b a' b' where "w16 (int (data_end d + 23)) = [a, b]" "be16 a b = int (data_end d + 23)"
    "w16 (int (data_end d)) = [a', b']" "be16 a' b' = int (data_end d)"
    by (metis w16_split)
  then show "be16 (encode_vob d ! 0) (encode_vob d ! 1) = int (data_end d + 23)"
    "be16 (encode_vob d ! 2) (encode_vob d ! 3) = int (data_end d)"
    by (simp_all add: encode_vob_def)
qed

text \<open>
  C31: a packet with two planes of run-length codes, added with its times, is what a search at one of its
  times returns, when no older subtitle starts within 4 ms of it or covers that time: with its index,
  position and size, and the pixels of the encoded lines, the even ones from the first plane and the odd
  ones from the second, whatever the new picture contained.
\<close>

theorem vob_packet_is_shown:
  assumes "vob_ok d" "length (vs_subtitles s) < 40960"
    and "\<not> list_ex (\<lambda>i. cabs (wrap32 (v_start i - t0)) < 5) (vs_subtitles s)"
    and "\<not> list_ex (vobsub_shown u u') (vs_subtitles s)" "t0 \<le> u" "u \<le> t1" "\<And>n. length (junk n) = n"
  shows "\<exists>s'. vobsub_add_subtitle t0 t1 (encode_vob d) s = Some (S_OK, s') \<and>
    vobsub_find_subtitle junk u u' out s' = Some (Some (length (vs_subtitles s)),
      zero_vobsub\<lparr>v_start := t0, v_end := t1, v_packetsize := data_end d + 23, v_datasize := data_end d,
        v_left := int (o_left d), v_top := int (o_top d), v_width := int (o_width d),
        v_height := int (length (o_lines d)), v_rgb := Some (vob_pixels s d)\<rparr>)"
proof -
  let ?i = "zero_vobsub\<lparr>v_start := t0, v_end := t1, v_packet := Some (encode_vob d),
    v_packetsize := data_end d + 23, v_datasize := data_end d\<rparr>"
  let ?s = "s\<lparr>vs_subtitles := vs_subtitles s @ [?i]\<rparr>"
  have "vobsub_add_subtitle t0 t1 (encode_vob d) s = Some (S_OK, ?s)"
    using assms(2,3) vob_header [OF assms(1)] by (simp add: vobsub_add_subtitle_def length_encode_vob)
  moreover have "first_index (vobsub_shown u u') 0 (vs_subtitles ?s) = Some (length (vs_subtitles s), ?i)"
    using assms(4-6) by (simp add: first_index_append_None vobsub_shown_def)
  moreover have "vob_pixels ?s d = vob_pixels s d"
    by (simp add: vob_pixels_def picture_colour_table)
  ultimately show ?thesis
    using decode_vob [OF assms(1), of ?i junk ?s] assms(7)
    by (simp add: vobsub_find_subtitle_def zero_vobsub_def)
qed

definition some_vob :: vob_packet where
  "some_vob = \<lparr>o_pal = 0x3210, o_tr = 0xFFF0, o_left = 8, o_top = 16, o_lines = [[(1, 1), (70, 2)], [(71, 3)], [(71, 0)]],
     o_width = 71\<rparr>"

definition some_vobsub :: vobsub_parser where
  "some_vobsub = \<lparr>vs_total_width = 720, vs_total_height = 480, vs_first_line = False, vs_bad_index = False,
     vs_lang_id = 0, vs_orgpal = replicate 16 0xFFFFFF, vs_cuspal = [0, 0, 0, 0], vs_use_custom_color = False,
     vs_scan_for_lang_id = False, vs_max_lang_id = 0, vs_subtitles = [], vs_current = zero_vobsub\<rparr>"

theorem vob_packet_is_shown_witness:
  "\<exists>s'. vobsub_add_subtitle 1000 3000 (encode_vob some_vob) some_vobsub = Some (S_OK, s') \<and>
    vobsub_find_subtitle (\<lambda>n. replicate n 7) 2000 2040 zero_vobsub s' = Some (Some 0,
      zero_vobsub\<lparr>v_start := 1000, v_end := 3000, v_packetsize := data_end some_vob + 23, v_datasize := data_end some_vob,
        v_left := 8, v_top := 16, v_width := 71, v_height := 3, v_rgb := Some (vob_pixels some_vobsub some_vob)\<rparr>)"
proof -
  have "data_end some_vob = 11"
    by (simp add: data_end_def some_vob_def plane_def plane_nibs_def enc_vline_def enc_code_def)
  then have "vob_ok some_vob"
    by (simp add: vob_ok_def) (simp add: some_vob_def vlines_ok_def vrun_ok_def)
  moreover have "vs_subtitles some_vobsub = []"
    by (simp add: some_vobsub_def)
  ultimately show ?thesis
    using vob_packet_is_shown [of some_vob some_vobsub 1000 2000 2040 3000 "\<lambda>n. replicate n 7" zero_vobsub]
    by (simp add: some_vob_def)
qed

text \<open>
  A packet of five bytes is stored, although its control blocks would begin behind its end: a search that
  finds it leaves its buffer.
\<close>

theorem short_packet_overrun:
  "\<exists>s'. vobsub_add_subtitle 0 10 [0, 5, 0, 200, 0] some_vobsub = Some (S_OK, s') \<and>
    vobsub_find_subtitle junk 5 5 out s' = None"
  by (simp add: vobsub_add_subtitle_def some_vobsub_def be16_def vobsub_find_subtitle_def vobsub_shown_def
      zero_vobsub_def vobsub_decode_def control_blocks.simps rd16_def rd_def)

end
