(* ===== verification/VobSubIndex.thy ===== *)
theory VobSubIndex
  imports VobSub
begin

text \<open>
  The index files of VobSub (\<open>dwindow/vobsub_parser.cpp\<close>): the loops that collect lines, the entries of a
  line, and loading.  \<open>lower\<close> is \<open>towlower\<close>, \<open>conv\<close> the conversion of a line from a code page.
  \<^theory_text>\<open>None\<close> is an access outside a buffer, or the use of a pointer or a variable that was never set.
  The two scale factors are not part of the state: the code stores integers into variables of type
  \<open>double\<close>, and nothing reads them.
\<close>

section \<open>Scanning\<close>

text \<open>\<open>wcsexplode(line, L":", out, 2)\<close>: the second string is set only when something follows the colon.\<close>

definition explode2 :: "wstr \<Rightarrow> (wstr \<times> wstr) option" where
  "explode2 line =
     (if length line \<le> 1 then None
      else case find_sub line [58] of
        None \<Rightarrow> None
      | Some i \<Rightarrow> if i + 1 \<ge> length line then None else Some (take i line, drop (i + 1) line))"

text \<open>\<open>%x\<close>: white space, a sign, \<open>0x\<close>, hexadecimal digits.\<close>

definition hex_value :: "u16 \<Rightarrow> nat option" where
  "hex_value c =
     (let n = unat c
      in if 48 \<le> n \<and> n \<le> 57 then Some (n - 48)
         else if 97 \<le> n \<and> n \<le> 102 then Some (n - 87)
         else if 65 \<le> n \<and> n \<le> 70 then Some (n - 55) else None)"

fun scan_digits16 :: "nat \<Rightarrow> wstr \<Rightarrow> nat \<times> wstr" where
  "scan_digits16 acc [] = (acc, [])"
| "scan_digits16 acc (c # cs) =
     (case hex_value c of None \<Rightarrow> (acc, c # cs) | Some d \<Rightarrow> scan_digits16 (acc * 16 + d) cs)"

definition scan_hex :: "wstr \<Rightarrow> (u32 \<times> wstr) option" where
  "scan_hex s =
     (let s = dropWhile is_space s;
          neg = (s \<noteq> [] \<and> hd s = 45);
          s = (if s \<noteq> [] \<and> (hd s = 45 \<or> hd s = 43) then tl s else s);
          s = (if is_prefix_of [48, 120] s \<or> is_prefix_of [48, 88] s then drop 2 s else s)
      in if s = [] \<or> hex_value (hd s) = None then None
         else case scan_digits16 0 s of (n, r) \<Rightarrow> Some (if neg then - of_nat n else of_nat n, r))"

text \<open>\<open>n\<close> numbers separated by commas: those that could be read.\<close>

fun scan_hexes :: "nat \<Rightarrow> wstr \<Rightarrow> u32 list" where
  "scan_hexes 0 s = []"
| "scan_hexes (Suc n) s =
     (case scan_hex s of
        None \<Rightarrow> []
      | Some (v, r) \<Rightarrow> v # (case scan_char 44 r of None \<Rightarrow> [] | Some r \<Rightarrow> scan_hexes n r))"

definition vob_time_to_decimal :: "wstr \<Rightarrow> int option" where
  "vob_time_to_decimal str =
     (if length str \<noteq> 12 then Some (-1)
      else if str ! 8 \<notin> set [44, 46, 58] then None
      else map_option (\<lambda>(h, m, s, ms). wrap32 (h * 3600000 + m * 60000 + s * 1000 + ms)) (scan_time (str ! 8) str))"

section \<open>Entries\<close>

definition bad_index :: "vobsub_parser \<Rightarrow> vobsub_parser" where
  "bad_index s = s\<lparr>vs_bad_index := True\<rparr>"

definition size_entry :: "wstr \<Rightarrow> vobsub_parser \<Rightarrow> vobsub_parser" where
  "size_entry str s =
     (case scan_int str of
        None \<Rightarrow> bad_index s
      | Some (w, r) \<Rightarrow>
          (let s = s\<lparr>vs_total_width := w\<rparr>
           in case Option.bind (scan_char 120 r) scan_int of
                None \<Rightarrow> bad_index s
              | Some (h, _) \<Rightarrow> s\<lparr>vs_total_height := h\<rparr>))"

definition scale_entry :: "wstr \<Rightarrow> vobsub_parser \<Rightarrow> vobsub_parser" where
  "scale_entry str s =
     (case do { (_, r) \<leftarrow> scan_int str; r \<leftarrow> scan_char 37 (dropWhile is_space r); r \<leftarrow> scan_char 44 r; scan_int r } of
        None \<Rightarrow> bad_index s
      | Some _ \<Rightarrow> s)"

definition palette_entry :: "wstr \<Rightarrow> vobsub_parser \<Rightarrow> vobsub_parser" where
  "palette_entry str s =
     (let vs = scan_hexes 16 str;
          s = s\<lparr>vs_orgpal := vs @ drop (length vs) (vs_orgpal s)\<rparr>
      in if length vs \<noteq> 16 then bad_index s else s)"

text \<open>The fourth byte of a custom colour is its transparency.\<close>

definition custom_colour :: "u32 \<Rightarrow> nat \<times> u32 \<Rightarrow> u32" where
  "custom_colour tridx = (\<lambda>(i, c). (c AND 0xFFFFFF) OR (if bit tridx i then 0 else 0xFF000000))"

definition custom_entry :: "wstr \<Rightarrow> vobsub_parser \<Rightarrow> vobsub_parser option" where
  "custom_entry str s = do {
     let s = (if find_sub str (wlit ''on'') = Some 0 \<or> find_sub str (wlit ''1'') = Some 0
              then s\<lparr>vs_use_custom_color := True\<rparr>
              else if find_sub str (wlit ''off'') = Some 0 \<or> find_sub str (wlit ''0'') = Some 0
              then s\<lparr>vs_use_custom_color := False\<rparr> else bad_index s);
     i \<leftarrow> find_sub str (wlit ''tridx:'');
     (tridx, _) \<leftarrow> scan_hex (drop (i + 6) str);
     j \<leftarrow> find_sub str (wlit ''colors:'');
     let pal = scan_hexes 4 (drop (j + 7) str);
     if length pal \<noteq> 4 then None
     else Some (s\<lparr>vs_cuspal := map (custom_colour tridx) (enumerate 0 pal)\<rparr>) }"

text \<open>
  \<open>timestamp\<close>: the position is trimmed in place, then the string is cut behind its first twelve
  characters; \<open>rest\<close> is the string before it was trimmed, which gives the size of its buffer.
\<close>

definition timestamp_entry ::
  "byte list option \<Rightarrow> wstr \<Rightarrow> wstr \<Rightarrow> vobsub_parser \<Rightarrow> vobsub_parser option" where
  "timestamp_entry sub rest str s = do {
     i \<leftarrow> find_sub str (wlit ''filepos:'');
     let k = i + 8;
     let filepos = wcstrim 32 (drop k str);
     let s = (if scan_hex filepos = None then bad_index s else s);
     if length rest < 12 then None
     else do {
       t \<leftarrow> vob_time_to_decimal (take 12 (take k str @ filepos));
       let s = s\<lparr>vs_current := zero_vobsub\<lparr>v_start := t\<rparr>\<rparr>;
       case sub of
         None \<Rightarrow> Some s
       | Some f \<Rightarrow> do {
           (pos, _) \<leftarrow> scan_hex filepos;
           (hr, s) \<leftarrow> read_packet_from_subfile (drop (unat pos) f) s;
           if hr \<noteq> S_OK then Some s
           else if length (vs_subtitles s) \<ge> 40960 then None
           else Some (s\<lparr>vs_subtitles := vs_subtitles s @ [vs_current s]\<rparr>) } } }"

definition has :: "wstr \<Rightarrow> string \<Rightarrow> bool" where
  "has key name \<longleftrightarrow> find_sub key (wlit name) \<noteq> None"

text \<open>The scan for the highest language.\<close>

definition scan_line :: "wstr \<Rightarrow> vobsub_parser \<Rightarrow> vobsub_parser" where
  "scan_line line s =
     (case (find_sub line (wlit ''id:''), find_sub line (wlit ''index:'')) of
        (Some _, Some i) \<Rightarrow>
          (let iid = wtoi (wcstrim 32 (drop (i + 6) line))
           in if iid > vs_max_lang_id s \<and> iid < 32 then s\<lparr>vs_max_lang_id := iid\<rparr> else s)
      | _ \<Rightarrow> s)"

definition vob_handle_line ::
  "(u16 \<Rightarrow> u16) \<Rightarrow> byte list option \<Rightarrow> wstr \<Rightarrow> vobsub_parser \<Rightarrow> vobsub_parser option" where
  "vob_handle_line lower sub line s =
     (if vs_scan_for_lang_id s then Some (scan_line line s)
      else if vs_first_line s
      then Some (let s = s\<lparr>vs_first_line := False\<rparr> in if has line ''VobSub index file'' then s else bad_index s)
      else if line = [] \<or> hd line = 35 then Some s
      else do {
        (key, rest) \<leftarrow> explode2 line;
        let key = map lower (wcstrim 32 key);
        let str = map lower (wcstrim 32 rest);
        if has key ''size'' then Some (size_entry str s)
        else if has key ''scale'' then Some (scale_entry str s)
        else if has key ''time offset'' \<or> has key ''delay'' then Some s
        else if has key ''palette'' then Some (palette_entry str s)
        else if has key ''custom colors'' then custom_entry str s
        else if has key ''id'' then Some s
        else if has key ''timestamp'' then timestamp_entry sub rest str s
        else Some s })"

section \<open>Files\<close>

text \<open>
  The buffer of 1024 characters in \<open>handle_data_16\<close>: a carriage return ends a line, a line feed empties
  the buffer, and so does the character behind a full one.  \<open>wcstrim\<close> works in the buffer.
\<close>

definition trim_in_place :: "wstr \<Rightarrow> wstr" where
  "trim_in_place buf =
     (let t = wcstrim 32 (takeWhile (\<lambda>c. c \<noteq> 0) buf) in take (length buf) (t @ [0] @ drop (length t + 1) buf))"

definition char_16 ::
  "(u16 \<Rightarrow> u16) \<Rightarrow> byte list option \<Rightarrow> u16 \<Rightarrow> wstr \<times> vobsub_parser \<Rightarrow> (wstr \<times> vobsub_parser) option" where
  "char_16 lower sub c = (\<lambda>(buf, s).
     if c \<noteq> 0xA \<and> c \<noteq> 0xD \<and> length buf < 1024 then Some (buf @ [c], s)
     else if c = 0xD
     then (if length buf \<ge> 1024 then None
           else map_option (Pair (trim_in_place buf))
                  (vob_handle_line lower sub (wcstrim 32 (takeWhile (\<lambda>c. c \<noteq> 0) buf)) s))
     else Some ([], s))"

text \<open>The line buffer of \<open>handle_data_8\<close>; both line ends end a line.\<close>

definition char_8 ::
  "(u16 \<Rightarrow> u16) \<Rightarrow> (byte list \<Rightarrow> wstr) \<Rightarrow> byte list option \<Rightarrow> byte \<Rightarrow> byte list \<times> vobsub_parser \<Rightarrow>
   (byte list \<times> vobsub_parser) option" where
  "char_8 lower conv sub c = (\<lambda>(buf, s).
     if c \<noteq> 0xA \<and> c \<noteq> 0xD \<and> length buf < 1024 then Some (buf @ [c], s)
     else if c = 0xA \<or> c = 0xD
     then (if length buf \<ge> 1024 then None
           else map_option (Pair []) (vob_handle_line lower sub (wcstrim 32 (takeWhile (\<lambda>c. c \<noteq> 0) (conv buf))) s))
     else Some ([], s))"

fun all_chars :: "('c \<Rightarrow> 's \<Rightarrow> 's option) \<Rightarrow> 'c list \<Rightarrow> 's \<Rightarrow> 's option" where
  "all_chars f [] s = Some s"
| "all_chars f (c # cs) s = Option.bind (f c s) (all_chars f cs)"

text \<open>
  The loop for the big-endian order runs to \<open>size\<close> units, twice as far as the data go; it reads behind
  their end when there are any.
\<close>

definition vob_handle_data_16 ::
  "(u16 \<Rightarrow> u16) \<Rightarrow> byte list option \<Rightarrow> byte list \<Rightarrow> bool \<Rightarrow> vobsub_parser \<Rightarrow> vobsub_parser option" where
  "vob_handle_data_16 lower sub bs big s =
     (if big
      then (if bs = [] then Some s
            else Option.bind (all_chars (char_16 lower sub) (map swap_big_little (units16 bs)) ([], s)) (\<lambda>_. None))
      else map_option snd (all_chars (char_16 lower sub) (units16 bs) ([], s)))"

definition vob_handle_data_8 ::
  "(u16 \<Rightarrow> u16) \<Rightarrow> (code_page \<Rightarrow> byte list \<Rightarrow> wstr) \<Rightarrow> byte list option \<Rightarrow> byte list \<Rightarrow> code_page \<Rightarrow> vobsub_parser \<Rightarrow>
   vobsub_parser option" where
  "vob_handle_data_8 lower conv sub bs cp s = map_option snd (all_chars (char_8 lower (conv cp) sub) bs ([], s))"

definition vob_load_data ::
  "(u16 \<Rightarrow> u16) \<Rightarrow> (code_page \<Rightarrow> byte list \<Rightarrow> wstr) \<Rightarrow> byte list \<Rightarrow> int \<Rightarrow> byte list option \<Rightarrow> vobsub_parser \<Rightarrow>
   vobsub_parser option" where
  "vob_load_data lower conv d lang sub s =
     (let s = vobsub_reset s;
          s = (if lang \<ge> 0
               then s\<lparr>vs_lang_id := lang, vs_first_line := False, vs_bad_index := False, vs_total_width := 720,
                      vs_total_height := 480, vs_use_custom_color := False\<rparr>
               else s)
      in do {
        b \<leftarrow> detect_bom d;
        case b of
          Utf16_big \<Rightarrow> vob_handle_data_16 lower sub (drop 2 d) True s
        | Utf16_little \<Rightarrow> vob_handle_data_16 lower sub (drop 2 d) False s
        | Utf8 \<Rightarrow> vob_handle_data_8 lower conv sub (drop 3 d) CP_UTF8 s
        | No_bom \<Rightarrow> vob_handle_data_8 lower conv sub d CP_ACP s })"

text \<open>\<open>index\<close> and \<open>sub\<close> are the contents of the files if they can be opened; \<open>sub\<close> may not be asked for.\<close>

definition vob_load_file ::
  "(u16 \<Rightarrow> u16) \<Rightarrow> (code_page \<Rightarrow> byte list \<Rightarrow> wstr) \<Rightarrow> byte list option \<Rightarrow> int \<Rightarrow> byte list option option \<Rightarrow> vobsub_parser \<Rightarrow>
   (hresult \<times> vobsub_parser) option" where
  "vob_load_file lower conv index lang sub s =
     (case index of
        None \<Rightarrow> Some (E_FAIL, s)
      | Some d \<Rightarrow>
          (case sub of
             Some None \<Rightarrow> Some (E_FAIL, s)
           | None \<Rightarrow> map_option (Pair S_OK) (vob_load_data lower conv d lang None s)
           | Some (Some f) \<Rightarrow> map_option (Pair S_OK) (vob_load_data lower conv d lang (Some f) s)))"

definition max_lang_id ::
  "(u16 \<Rightarrow> u16) \<Rightarrow> (code_page \<Rightarrow> byte list \<Rightarrow> wstr) \<Rightarrow> byte list option \<Rightarrow> vobsub_parser \<Rightarrow> (int \<times> vobsub_parser) option" where
  "max_lang_id lower conv index s =
     (let s = s\<lparr>vs_max_lang_id := -1, vs_scan_for_lang_id := True\<rparr>
      in case index of
           None \<Rightarrow> Some (-1, s)
         | Some d \<Rightarrow> map_option (\<lambda>s. (vs_max_lang_id s, s\<lparr>vs_scan_for_lang_id := False\<rparr>))
                       (vob_load_data lower conv d (-1) None s))"

section \<open>A line for a packet\<close>

definition timestamp_line :: "nat \<Rightarrow> nat \<Rightarrow> nat \<Rightarrow> nat \<Rightarrow> wstr \<Rightarrow> wstr" where
  "timestamp_line h m sec ms pos =
     wlit ''timestamp: '' @ time_text 58 2 h m sec 3 ms @ wlit '', filepos: '' @ pos"

lemma find_sub_skip: "c \<notin> set a \<Longrightarrow> find_sub (a @ (c # p) @ r) (c # p) = Some (length a)"
  by (induction a) auto

lemma set_time_text: "x \<in> set (time_text 58 2 h m sec 3 ms) \<Longrightarrow> is_digit x \<or> x = 58"
  using pad_digits_all [unfolded list_all_iff, where 'a = 16] by (auto simp: time_text_def time_head_def)

lemma length_time_text:
  "h < 100 \<Longrightarrow> m < 60 \<Longrightarrow> sec < 60 \<Longrightarrow> ms < 1000 \<Longrightarrow> length (time_text 58 2 h m sec 3 ms) = 12"
  by (simp add: time_text_def time_head_def length_pad_digits)

lemma wcstrim_keep: "m \<noteq> [] \<Longrightarrow> hd m \<noteq> c \<Longrightarrow> last m \<noteq> c \<Longrightarrow> wcstrim c m = m"
  "m \<noteq> [] \<Longrightarrow> hd m \<noteq> c \<Longrightarrow> last m \<noteq> c \<Longrightarrow> wcstrim c (c # m) = m"
  using wcstrim_ends [of m c 0 0] wcstrim_ends [of m c 1 0] by simp_all

text \<open>What \<open>timestamp_entry\<close> does with the two fields read.\<close>

definition add_packet :: "byte list \<Rightarrow> int \<Rightarrow> nat \<Rightarrow> vobsub_parser \<Rightarrow> vobsub_parser option" where
  "add_packet f t pos s =
     (case read_packet_from_subfile (drop pos f) (s\<lparr>vs_current := zero_vobsub\<lparr>v_start := t\<rparr>\<rparr>) of
        None \<Rightarrow> None
      | Some (hr, s) \<Rightarrow>
          if hr \<noteq> S_OK then Some s
          else if length (vs_subtitles s) \<ge> 40960 then None
          else Some (s\<lparr>vs_subtitles := vs_subtitles s @ [vs_current s]\<rparr>))"

lemma timestamp_entry_adds:
  assumes "find_sub str (wlit ''filepos:'') = Some 14" "drop 22 str = 32 # pos" "take 22 str = t @ x"
    and "wcstrim 32 (32 # pos) = pos" "length t = 12" "12 \<le> length rest"
    and "vob_time_to_decimal t = Some d" "scan_hex pos = Some (n, r)"
  shows "timestamp_entry (Some f) rest str s = add_packet f d (unat n) s"
proof -
  have "take 12 ((t @ x) @ pos) = t"
    using assms(5) by simp
  then show ?thesis
    using assms by (simp add: timestamp_entry_def add_packet_def Let_def del: take_append take_take append_assoc split: option.split)
qed

theorem timestamp_line_adds:
  assumes "h < 100" "m < 60" "sec < 60" "ms < 1000" "pos \<noteq> []" "hd pos \<noteq> 32" "last pos \<noteq> 32"
    and "scan_hex pos = Some (n, r)" "\<And>c. c \<in> set (timestamp_line h m sec ms pos) \<Longrightarrow> lower c = c"
    and "\<not> vs_scan_for_lang_id s" "\<not> vs_first_line s"
  shows "vob_handle_line lower (Some f) (timestamp_line h m sec ms pos) s =
    add_packet f (int (h * 3600000 + m * 60000 + sec * 1000 + ms)) (unat n) s"
proof -
  let ?t = "time_text 58 2 h m sec 3 ms" and ?k = "wlit ''timestamp''"
  let ?str = "?t @ wlit '', filepos: '' @ pos"
  have line: "timestamp_line h m sec ms pos = ?k @ 58 # 32 # ?str"
    by (simp add: timestamp_line_def wlit_def)
  have len: "length ?t = 12"
    by (rule length_time_text [OF assms(1-4)])
  have ne: "?t \<noteq> []"
    using len by auto
  have t: "hd ?t \<noteq> 32" "?t \<noteq> []"
    using set_time_text [OF hd_in_set [OF ne]] ne by (auto simp: is_digit_def)
  have k: "58 \<notin> set ?k" "wcstrim 32 ?k = ?k" "length ?k = 9"
    by (simp_all add: wlit_def wcstrim_keep)
  have ex: "explode2 (timestamp_line h m sec ms pos) = Some (?k, 32 # ?str)"
    unfolding line using k find_sub_char_append [OF k(1), of "32 # ?str"] t by (simp add: explode2_def)
  have str: "wcstrim 32 (32 # ?str) = ?str"
    using t assms(5,7) by (intro wcstrim_keep(2)) simp_all
  have low: "map lower ?str = ?str" "map lower ?k = ?k"
    using assms(9) unfolding line by (intro map_idI, simp)+
  have "102 \<notin> set (?t @ [44, 32])"
    using set_time_text [of 102 h m sec ms] by (auto simp: is_digit_def)
  from find_sub_skip [OF this, of "tl (wlit ''filepos:'')" "32 # pos"]
  have fp: "find_sub ?str (wlit ''filepos:'') = Some 14"
    using len by (simp add: wlit_def)
  have rest: "drop 22 ?str = 32 # pos" "take 22 ?str = ?t @ wlit '', filepos:''"
    using len by (simp_all add: wlit_def)
  have scan: "wcstrim 32 (32 # pos) = pos"
    using assms(5-7) by (rule wcstrim_keep)
  have time: "vob_time_to_decimal ?t = Some (int (h * 3600000 + m * 60000 + sec * 1000 + ms))"
  proof -
    have "length (time_head 2 h m sec) = 8"
      using assms(1-4) by (simp add: time_head_def length_pad_digits)
    then have "?t ! 8 = 58"
      by (simp add: time_text_def nth_append)
    moreover have "\<not> is_digit (58 :: u16)"
      by (simp add: is_digit_def)
    ultimately show ?thesis
      using assms(1-4) by (simp add: vob_time_to_decimal_def len scan_time_text wrap32_id)
  qed
  have keys: "\<not> has ?k ''size''" "\<not> has ?k ''scale''" "\<not> has ?k ''time offset''" "\<not> has ?k ''delay''" "\<not> has ?k ''palette''"
    "\<not> has ?k ''custom colors''" "\<not> has ?k ''id''" "has ?k ''timestamp''"
    by (simp_all add: has_def wlit_def)
  have "timestamp_entry (Some f) (32 # ?str) ?str s =
      add_packet f (int (h * 3600000 + m * 60000 + sec * 1000 + ms)) (unat n) s"
    by (rule timestamp_entry_adds [OF fp rest scan len _ time assms(8)]) (simp add: len)
  moreover have "hd (?k @ xs) \<noteq> 35" for xs
    by (simp add: wlit_def)
  ultimately show ?thesis
    using ex str low k(2) keys assms(10,11) by (simp add: vob_handle_line_def line Let_def)
qed

text \<open>A line without a colon, or with nothing behind it, uses a pointer that was never set.\<close>

theorem no_colon_crashes:
  assumes "58 \<notin> set line" "line \<noteq> []" "hd line \<noteq> 35" "\<not> vs_scan_for_lang_id s" "\<not> vs_first_line s"
  shows "vob_handle_line lower sub line s = None"
  using assms by (simp add: vob_handle_line_def explode2_def find_sub_char_None [THEN iffD2])

end
