(* ===== verification/Utf8.thy ===== *)
theory Utf8
  imports WStrings
begin

text \<open>
  The character conversions of the HTTP client (\<open>httppost/httppost.cpp\<close>) in its Linux build, where a
  \<open>wchar_t\<close> has 32 bits: \<open>utf8fromwcs\<close>, \<open>UTF2Uni\<close> and the two temporary-string classes around them.
  Strings are without their terminator; \<^theory_text>\<open>None\<close> is an access outside a buffer.
\<close>

unbundle bit_operations_syntax

type_synonym wstr32 = "u32 list"

section \<open>From wide characters to bytes\<close>

definition utf8_char :: "u32 \<Rightarrow> byte list option" where
  "utf8_char c =
     (if c < 0x80 then Some [ucast c]
      else if c < 0x800 then Some [ucast (drop_bit 6 c OR 0xC0), ucast ((c AND 0x3F) OR 0x80)]
      else if c < 0x10000
      then Some [ucast (drop_bit 12 c OR 0xE0), ucast ((drop_bit 6 c AND 0x3F) OR 0x80), ucast ((c AND 0x3F) OR 0x80)]
      else if c < 0x200000
      then Some [ucast (drop_bit 18 c OR 0xF0), ucast ((drop_bit 12 c AND 0x3F) OR 0x80),
                 ucast ((drop_bit 6 c AND 0x3F) OR 0x80), ucast ((c AND 0x3F) OR 0x80)]
      else None)"

text \<open>The result (no character was left out) and the bytes written.\<close>

fun utf8fromwcs :: "wstr32 \<Rightarrow> bool \<times> byte list" where
  "utf8fromwcs [] = (True, [])"
| "utf8fromwcs (c # wcs) =
     (case utf8fromwcs wcs of (ok, out) \<Rightarrow>
        case utf8_char c of None \<Rightarrow> (False, out) | Some b \<Rightarrow> (ok, b @ out))"

text \<open>\<open>W2UTF8\<close>: the buffer has three bytes for each character, and one for the terminator.\<close>

definition W2UTF8 :: "wstr32 \<Rightarrow> byte list option" where
  "W2UTF8 wcs =
     (let b = snd (utf8fromwcs wcs)
      in if length b \<le> length wcs * 3 then Some b else None)"

section \<open>From bytes to wide characters\<close>

text \<open>One character and the number of bytes it takes; the terminator may be read.\<close>

definition utf_step :: "byte list \<Rightarrow> (u32 \<times> nat) option" where
  "utf_step src = do {
     let src = src @ [0];
     c \<leftarrow> rd src 0;
     if c AND 0x80 = 0 then Some (ucast c, 1)
     else if c AND 0xE0 = 0xC0 then do {
       d \<leftarrow> rd src 1;
       Some (push_bit 6 (ucast (c AND 0x3F)) OR ucast (d AND 0x3F), 2) }
     else if c AND 0xF0 = 0xE0 then do {
       d \<leftarrow> rd src 1; e \<leftarrow> rd src 2;
       Some (push_bit 12 (ucast (c AND 0x1F)) OR push_bit 6 (ucast (d AND 0x3F)) OR ucast (e AND 0x3F), 3) }
     else if c AND 0xF8 = 0xF0 then do {
       d \<leftarrow> rd src 1; e \<leftarrow> rd src 2; f \<leftarrow> rd src 3;
       Some (push_bit 12 (ucast (d AND 0x3F)) OR push_bit 6 (ucast (e AND 0x3F)) OR ucast (f AND 0x3F), 4) }
     else do {
       e \<leftarrow> rd src 2; f \<leftarrow> rd src 3; g \<leftarrow> rd src 4;
       Some (push_bit 12 (ucast (e AND 0x3F)) OR push_bit 6 (ucast (f AND 0x3F)) OR ucast (g AND 0x3F), 5) } }"

text \<open>The \<open>count_d\<close> characters of \<open>des\<close>, cleared first.\<close>

fun UTF2Uni :: "byte list \<Rightarrow> nat \<Rightarrow> wstr32 option" where
  "UTF2Uni src 0 = Some []"
| "UTF2Uni src (Suc n) =
     (if src = [] then Some (replicate (Suc n) 0)
      else do { (w, k) \<leftarrow> utf_step src; des \<leftarrow> UTF2Uni (drop k src) n; Some (w # des) })"

definition UTF82W :: "byte list \<Rightarrow> wstr32 option" where
  "UTF82W src = map_option (takeWhile (\<lambda>c. c \<noteq> 0)) (UTF2Uni src (length src))"

section \<open>Round trip\<close>

text \<open>The bits of the markers and masks; the simplifier reads a numeral word as an integer.\<close>

lemma bit_markers:
  "bit (0x80 :: int) n \<longleftrightarrow> n = 7" "bit (0xC0 :: int) n \<longleftrightarrow> n = 6 \<or> n = 7"
  "bit (0xE0 :: int) n \<longleftrightarrow> n = 5 \<or> n = 6 \<or> n = 7" "bit (0xF0 :: int) n \<longleftrightarrow> n = 4 \<or> n = 5 \<or> n = 6 \<or> n = 7"
  "bit (0xF8 :: int) n \<longleftrightarrow> n = 3 \<or> n = 4 \<or> n = 5 \<or> n = 6 \<or> n = 7"
  "bit (0x3F :: int) n \<longleftrightarrow> n < 6" "bit (0x1F :: int) n \<longleftrightarrow> n < 5" "bit (0x3FFFF :: int) n \<longleftrightarrow> n < 18"
proof -
  have "(0xC0 :: int) = push_bit 6 (mask 2)"
    "(0xE0 :: int) = push_bit 5 (mask 3)" "(0xF0 :: int) = push_bit 4 (mask 4)"
    "(0xF8 :: int) = push_bit 3 (mask 5)" "(0x3F :: int) = mask 6" "(0x1F :: int) = mask 5" "(0x3FFFF :: int) = mask 18"
    by (simp_all add: mask_eq_exp_minus_1 push_bit_eq_mult)
  note masks = this [THEN arg_cong [where f = bit], THEN fun_cong, of n]
  show "bit (0x80 :: int) n \<longleftrightarrow> n = 7" "bit (0xC0 :: int) n \<longleftrightarrow> n = 6 \<or> n = 7"
    "bit (0xE0 :: int) n \<longleftrightarrow> n = 5 \<or> n = 6 \<or> n = 7" "bit (0xF0 :: int) n \<longleftrightarrow> n = 4 \<or> n = 5 \<or> n = 6 \<or> n = 7"
    "bit (0xF8 :: int) n \<longleftrightarrow> n = 3 \<or> n = 4 \<or> n = 5 \<or> n = 6 \<or> n = 7"
    "bit (0x3F :: int) n \<longleftrightarrow> n < 6" "bit (0x1F :: int) n \<longleftrightarrow> n < 5" "bit (0x3FFFF :: int) n \<longleftrightarrow> n < 18"
    unfolding masks using bit_exp_iff [of 7 n, where 'a = int] by (auto simp: bit_simps)
qed

lemma small_bits:
  assumes "(c :: u32) < 2 ^ k" "k < 32" "bit c n"
  shows "n < k"
proof (rule ccontr)
  assume "\<not> n < k"
  have "(2 :: nat) ^ k < 2 ^ 32"
    using assms(2) by (intro power_strict_increasing) simp_all
  then have "unat (2 ^ k :: u32) = 2 ^ k"
    using unat_of_nat [where 'a = 32, of "2 ^ k"] by simp
  then have "unat c < 2 ^ k"
    using assms(1) by (simp add: word_less_nat_alt)
  also have "(2 :: nat) ^ k \<le> 2 ^ n"
    using \<open>\<not> n < k\<close> by (intro power_increasing) simp_all
  finally have "\<not> bit (unat c) n"
    by (simp add: bit_iff_odd)
  with assms(3) show False
    by (simp add: bit_unsigned_iff)
qed

lemmas utf8_bits = bit_simps bit_markers

lemma rd_heads: "rd (x # xs) 0 = Some x" "rd (x # y # xs) 1 = Some y" "rd (x # y # z # xs) 2 = Some z"
  "rd (x # y # z # u # xs) 3 = Some u"
  by (simp_all add: rd_def)

lemma marker_differs: "bit (b :: byte) k \<Longrightarrow> bit m k \<Longrightarrow> \<not> bit v k \<Longrightarrow> b AND m \<noteq> v"
  by (auto simp: bit_and_iff)

lemma utf8_step_1:
  assumes "c < 2 ^ 7"
  shows "utf_step (ucast c # r) = Some (c, 1)"
proof -
  note hi = small_bits [OF assms, simplified]
  have "(ucast c :: byte) AND 0x80 = 0"
    by (rule bit_word_eqI) (auto simp: utf8_bits dest: hi)
  moreover have "ucast (ucast c :: byte) = c"
    by (rule bit_word_eqI) (auto simp: utf8_bits dest: hi)
  ultimately show ?thesis
    by (simp add: utf_step_def rd_heads)
qed

text \<open>The six bits that a following byte carries, and how the groups are put together.\<close>

lemma tail_bits: "ucast (ucast (x AND 0x3F OR 0x80 :: u32) AND 0x3F :: byte) = x AND 0x3F"
  by (rule bit_word_eqI) (auto simp: utf8_bits)

lemma join_bits:
  assumes "\<And>n. n < m \<Longrightarrow> bit a n \<longleftrightarrow> bit c (k + n)" "\<And>n. m \<le> n \<Longrightarrow> \<not> bit a n"
  shows "push_bit k a OR take_bit k c = (take_bit (k + m) c :: u32)"
proof (rule bit_word_eqI)
  fix n
  assume n: "n < LENGTH(32)"
  show "bit (push_bit k a OR take_bit k c) n \<longleftrightarrow> bit (take_bit (k + m) c) n"
    using n assms(1) [of "n - k"] assms(2) [of "n - k"]
    by (cases "n < k"; cases "n < k + m") (auto simp: bit_simps)
qed

lemma take_bit_small: "(c :: u32) < 2 ^ k \<Longrightarrow> k < 32 \<Longrightarrow> take_bit k c = c"
  by (rule bit_word_eqI) (auto simp: bit_simps dest: small_bits)

lemma masks_take: "x AND 0x3F = take_bit 6 (x :: u32)" "x AND 0x3FFFF = take_bit 18 (x :: u32)"
  by (rule bit_word_eqI; auto simp: utf8_bits)+

lemma utf8_step_2:
  assumes "c < 2 ^ 11"
  shows "utf_step (ucast (drop_bit 6 c OR 0xC0) # ucast ((c AND 0x3F) OR 0x80) # r) = Some (c, 2)"
proof -
  note hi = small_bits [OF assms, simplified]
  let ?b = "ucast (drop_bit 6 c OR 0xC0) :: byte" and ?d = "ucast ((c AND 0x3F) OR 0x80) :: byte"
  have "?b AND 0x80 \<noteq> 0"
    by (rule marker_differs [where k = 7]) (simp_all add: utf8_bits)
  moreover have "?b AND 0xE0 = 0xC0"
    by (rule bit_word_eqI) (auto simp: utf8_bits dest: hi)
  moreover have "push_bit 6 (ucast (?b AND 0x3F)) OR ucast (?d AND 0x3F) = c"
    by (rule bit_word_eqI) (auto simp: utf8_bits dest: hi)
  ultimately show ?thesis
    by (simp add: utf_step_def rd_heads)
qed

lemma utf8_step_3:
  assumes "c < 2 ^ 16"
  shows "utf_step (ucast (drop_bit 12 c OR 0xE0) # ucast ((drop_bit 6 c AND 0x3F) OR 0x80) #
    ucast ((c AND 0x3F) OR 0x80) # r) = Some (c, 3)"
proof -
  note hi = small_bits [OF assms, simplified]
  let ?b = "ucast (drop_bit 12 c OR 0xE0) :: byte" and ?d = "ucast ((drop_bit 6 c AND 0x3F) OR 0x80) :: byte"
    and ?e = "ucast ((c AND 0x3F) OR 0x80) :: byte"
  have "?b AND 0x80 \<noteq> 0"
    by (rule marker_differs [where k = 7]) (simp_all add: utf8_bits)
  moreover have "?b AND 0xE0 \<noteq> 0xC0"
    by (rule marker_differs [where k = 5]) (simp_all add: utf8_bits)
  moreover have "?b AND 0xF0 = 0xE0"
    by (rule bit_word_eqI) (auto simp: utf8_bits dest: hi)
  moreover have "push_bit 12 (ucast (?b AND 0x1F)) OR push_bit 6 (ucast (?d AND 0x3F)) OR ucast (?e AND 0x3F) = c"
  proof -
    have "push_bit 6 (take_bit 6 (drop_bit 6 c)) OR take_bit 6 c = take_bit 12 c"
      using join_bits [of 6 "take_bit 6 (drop_bit 6 c)" c 6] by (simp add: bit_simps)
    moreover have "push_bit 12 (ucast (?b AND 0x1F)) OR take_bit 12 c = take_bit (12 + 5) c"
      by (rule join_bits) (auto simp: utf8_bits dest: hi)
    moreover have "take_bit 17 c = c"
      by (rule bit_word_eqI) (auto simp: bit_simps dest: hi)
    ultimately show ?thesis
      unfolding tail_bits unfolding masks_take by (simp add: or.assoc)
  qed
  ultimately show ?thesis
    by (simp add: utf_step_def rd_heads)
qed

lemma utf8_step_4:
  assumes "c < 2 ^ 21"
  shows "utf_step (ucast (drop_bit 18 c OR 0xF0) # ucast ((drop_bit 12 c AND 0x3F) OR 0x80) #
    ucast ((drop_bit 6 c AND 0x3F) OR 0x80) # ucast ((c AND 0x3F) OR 0x80) # r) = Some (c AND 0x3FFFF, 4)"
proof -
  note hi = small_bits [OF assms, simplified]
  let ?b = "ucast (drop_bit 18 c OR 0xF0) :: byte" and ?d = "ucast ((drop_bit 12 c AND 0x3F) OR 0x80) :: byte"
    and ?e = "ucast ((drop_bit 6 c AND 0x3F) OR 0x80) :: byte" and ?f = "ucast ((c AND 0x3F) OR 0x80) :: byte"
  have "?b AND 0x80 \<noteq> 0"
    by (rule marker_differs [where k = 7]) (simp_all add: utf8_bits)
  moreover have "?b AND 0xE0 \<noteq> 0xC0"
    by (rule marker_differs [where k = 5]) (simp_all add: utf8_bits)
  moreover have "?b AND 0xF0 \<noteq> 0xE0"
    by (rule marker_differs [where k = 4]) (simp_all add: utf8_bits)
  moreover have "?b AND 0xF8 = 0xF0"
    by (rule bit_word_eqI) (auto simp: utf8_bits dest: hi)
  moreover have "push_bit 12 (ucast (?d AND 0x3F)) OR push_bit 6 (ucast (?e AND 0x3F)) OR ucast (?f AND 0x3F) =
      c AND 0x3FFFF"
  proof -
    have "push_bit 6 (take_bit 6 (drop_bit 6 c)) OR take_bit 6 c = take_bit 12 c"
      using join_bits [of 6 "take_bit 6 (drop_bit 6 c)" c 6] by (simp add: bit_simps)
    moreover have "push_bit 12 (take_bit 6 (drop_bit 12 c)) OR take_bit 12 c = take_bit 18 c"
      using join_bits [of 6 "take_bit 6 (drop_bit 12 c)" c 12] by (simp add: bit_simps)
    ultimately show ?thesis
      unfolding tail_bits unfolding masks_take by (simp add: or.assoc)
  qed
  ultimately show ?thesis
    by (simp add: utf_step_def rd_heads)
qed

text \<open>What a character becomes: above 16 bits only its low 18 bits are kept.\<close>

definition kept :: "u32 \<Rightarrow> u32" where
  "kept c = (if c < 0x10000 then c else c AND 0x3FFFF)"

lemma word_below: "c < a \<Longrightarrow> a \<le> b \<Longrightarrow> c < (b :: u32)"
  by simp

lemma utf8_step:
  assumes "utf8_char c = Some b"
  shows "utf_step (b @ r) = Some (kept c, length b)" "b \<noteq> []"
  using assms word_below [of c "0x80" "0x10000"] word_below [of c "0x800" "0x10000"]
  by (auto simp: utf8_char_def kept_def utf8_step_1 utf8_step_2 utf8_step_3 utf8_step_4 split: if_splits)

lemma utf8_char_Some: "c < 0x200000 \<Longrightarrow> \<exists>b. utf8_char c = Some b"
  by (auto simp: utf8_char_def)

lemma utf8fromwcs_Cons:
  assumes "utf8_char c = Some b"
  shows "fst (utf8fromwcs (c # wcs)) = fst (utf8fromwcs wcs)" "snd (utf8fromwcs (c # wcs)) = b @ snd (utf8fromwcs wcs)"
  using assms by (auto split: prod.split)

lemma utf8_length: "list_all (\<lambda>c. c < 0x200000) wcs \<Longrightarrow> length wcs \<le> length (snd (utf8fromwcs wcs))"
proof (induction wcs)
  case (Cons c wcs)
  then obtain b where b: "utf8_char c = Some b"
    using utf8_char_Some by auto
  then show ?case
    using Cons utf8_step(2) [OF b] by (cases b) (simp_all add: utf8fromwcs_Cons [OF b] del: utf8fromwcs.simps)
qed simp

lemma UTF2Uni_utf8:
  assumes "list_all (\<lambda>c. c < 0x200000) wcs" "length wcs \<le> n"
  shows "UTF2Uni (snd (utf8fromwcs wcs)) n = Some (map kept wcs @ replicate (n - length wcs) 0)"
  using assms
proof (induction wcs arbitrary: n)
  case Nil
  show ?case
    by (cases n) simp_all
next
  case (Cons c wcs)
  obtain b where b: "utf8_char c = Some b"
    using Cons.prems utf8_char_Some by auto
  obtain m where "n = Suc m" "length wcs \<le> m"
    using Cons.prems by (cases n) auto
  then show ?case
    using Cons utf8_step [OF b] by (simp add: utf8fromwcs_Cons [OF b] del: utf8fromwcs.simps)
qed

lemma utf8fromwcs_ok: "list_all (\<lambda>c. c < 0x200000) wcs \<Longrightarrow> fst (utf8fromwcs wcs)"
proof (induction wcs)
  case (Cons c wcs)
  then obtain b where "utf8_char c = Some b"
    using utf8_char_Some by auto
  then show ?case
    using Cons utf8fromwcs_Cons by simp
qed simp

lemma UTF82W_utf8:
  assumes "list_all (\<lambda>c. c \<noteq> 0 \<and> c < 0x40000) wcs"
  shows "UTF82W (snd (utf8fromwcs wcs)) = Some wcs"
proof -
  have "kept c = c" if "c < 0x40000" for c
    using that take_bit_small [of c 18] by (simp add: kept_def masks_take)
  then have id: "map kept wcs = wcs"
    using assms by (simp add: list_all_iff map_idI)
  have small: "list_all (\<lambda>c. c < 0x200000) wcs"
    using assms word_below [of _ "0x40000" "0x200000"] by (auto simp: list_all_iff)
  show ?thesis
    using UTF2Uni_utf8 [OF small utf8_length [OF small]] assms
    by (simp add: UTF82W_def id takeWhile_append takeWhile_replicate list_all_iff)
qed

text \<open>
  C28: for every string of characters below \<open>2 ^ 21\<close> the conversion to UTF-8 reports success and
  converting back gives the string, except that a character above 16 bits keeps only its low 18 bits;
  below \<open>2 ^ 18\<close>, in particular in the first three planes of Unicode, nothing is lost.
\<close>

theorem utf8_roundtrip:
  assumes "list_all (\<lambda>c. c \<noteq> 0 \<and> c < 0x200000) wcs"
  shows "fst (utf8fromwcs wcs) \<and>
    UTF2Uni (snd (utf8fromwcs wcs)) (length (snd (utf8fromwcs wcs))) =
      Some (map kept wcs @ replicate (length (snd (utf8fromwcs wcs)) - length wcs) 0) \<and>
    (list_all (\<lambda>c. c < 0x40000) wcs \<longrightarrow> UTF82W (snd (utf8fromwcs wcs)) = Some wcs)"
proof -
  have small: "list_all (\<lambda>c. c < 0x200000) wcs"
    using assms by (simp add: list_all_iff)
  show ?thesis
    using UTF2Uni_utf8 [OF small utf8_length [OF small]] utf8fromwcs_ok [OF small] UTF82W_utf8 [of wcs] assms
    by (simp add: list_all_iff)
qed

theorem utf8_roundtrip_witness:
  "UTF82W (snd (utf8fromwcs [0x41, 0xE9, 0x20AC, 0x1F600])) = Some [0x41, 0xE9, 0x20AC, 0x1F600]"
  using utf8_roundtrip [of "[0x41, 0xE9, 0x20AC, 0x1F600]"] by simp

text \<open>The buffer of \<open>W2UTF8\<close> is one byte too short for a string of one character above 16 bits.\<close>

theorem W2UTF8_overrun: "W2UTF8 [0x1F600] = None"
  by (simp add: W2UTF8_def utf8_char_def)

lemma utf8_char_length: "c < 0x10000 \<Longrightarrow> utf8_char c = Some b \<Longrightarrow> length b \<le> 3"
  by (auto simp: utf8_char_def split: if_splits)

lemma W2UTF8_ok:
  assumes "list_all (\<lambda>c. c < 0x10000) wcs"
  shows "W2UTF8 wcs = Some (snd (utf8fromwcs wcs))"
proof -
  have "length (snd (utf8fromwcs wcs)) \<le> length wcs * 3"
    using assms
  proof (induction wcs)
    case (Cons c wcs)
    moreover obtain b where b: "utf8_char c = Some b"
      using Cons.prems utf8_char_Some [of c] word_below [of c "0x10000" "0x200000"] by auto
    ultimately show ?case
      using utf8_char_length [OF _ b] by (simp add: utf8fromwcs_Cons [OF b] del: utf8fromwcs.simps)
  qed simp
  then show ?thesis
    by (simp add: W2UTF8_def)
qed

text \<open>Seven-bit strings are their own encoding.\<close>

lemma utf8_ascii: "list_all (\<lambda>c. c < 0x80) wcs \<Longrightarrow> snd (utf8fromwcs wcs) = map ucast wcs"
  by (induction wcs) (auto simp: utf8_char_def split: prod.splits)

lemma utf8_append: "snd (utf8fromwcs (a @ b)) = snd (utf8fromwcs a) @ snd (utf8fromwcs b)"
  by (induction a) (auto split: prod.splits option.splits)

text \<open>The bytes of a longer encoding are no ASCII characters.\<close>

lemma high_byte: "bit (x :: byte) 7 \<Longrightarrow> \<not> x < 0x80"
proof
  assume x: "bit x 7" "x < 0x80"
  then have "unat x < 128"
    by (simp add: word_less_nat_alt)
  then have "\<not> bit (unat x) 7"
    by (simp add: bit_iff_odd)
  with x show False
    by (simp add: bit_unsigned_iff)
qed

lemma utf8_char_ascii:
  assumes "utf8_char c = Some b" "x \<in> set b" "x < 0x80"
  shows "c < 0x80 \<and> x = ucast c"
proof (rule ccontr)
  assume "\<not> (c < 0x80 \<and> x = ucast c)"
  then have "bit x 7"
    using assms(1,2) by (auto simp: utf8_char_def utf8_bits split: if_splits)
  then show False
    using high_byte assms(3) by blast
qed

lemma utf8_set:
  "x \<in> set (snd (utf8fromwcs wcs)) \<Longrightarrow> x < 0x80 \<Longrightarrow> \<exists>c \<in> set wcs. c < 0x80 \<and> x = ucast c"
  by (induction wcs) (auto split: prod.splits option.splits dest: utf8_char_ascii)

lemma ucast_ascii:
  assumes "c < 0x80" "d < 0x80" "(ucast c :: byte) = ucast d"
  shows "c = (d :: u32)"
proof -
  have "Some (c, 1) = utf_step [ucast c]" "utf_step [ucast d] = Some (d, 1)"
    using assms(1,2) by (simp_all add: utf8_step_1)
  then have "Some (c, 1 :: nat) = Some (d, 1)"
    unfolding assms(3) by (rule trans)
  then show ?thesis
    by simp
qed

lemma utf8_not_in:
  assumes "d < 0x80" "d \<notin> set wcs"
  shows "ucast d \<notin> set (snd (utf8fromwcs wcs))"
proof
  assume "ucast d \<in> set (snd (utf8fromwcs wcs))"
  moreover have "(ucast d :: byte) < 0x80"
    using assms(1) by (simp add: word_less_nat_alt unsigned_ucast_eq take_bit_nat_eq_self)
  ultimately obtain c where "c \<in> set wcs" "c < 0x80" "(ucast d :: byte) = ucast c"
    using utf8_set by blast
  then show False
    using ucast_ascii [OF assms(1)] assms(2) by blast
qed

end
