(* ===== verification/HttpPost.thy ===== *)
theory HttpPost
  imports Utf8
begin

text \<open>
  The HTTP client \<open>httppost\<close> (\<open>httppost/httppost.cpp\<close>, Linux build): the parts of a form, the request, the
  response headers with redirection, and the content.

  The network is two functions of everything sent so far: \<open>connects\<close> gives 0 or the error code of
  \<open>send_request\<close> for a server and a port, \<open>answers\<close> the bytes that come back.  \<open>files\<close> maps the name of a
  file to its contents.  \<^theory_text>\<open>None\<close> is an access outside a buffer or through a null pointer.
\<close>

section \<open>State\<close>

datatype form_item =
  Form_data (it_name: wstr32) wstr32
| File_data (it_name: wstr32) "byte list"
| File_name (it_name: wstr32) wstr32

datatype socket = Closed | Broken | Open "byte list"

type_synonym sent_log = "(byte list \<times> int \<times> byte list) list"

record httppost =
  h_items :: "form_item list"
  h_headers :: "(wstr32 \<times> wstr32) list"
  h_request_headers :: "(wstr32 \<times> wstr32) list"
  h_object :: "wstr32 option"
  h_server :: "wstr32 option"
  h_URL :: "wstr32 option"
  h_port :: int
  h_sock :: socket
  h_content_length :: int
  h_content_read :: int
  h_sent :: int
  h_size :: int
  h_last :: int
  h_log :: sent_log
  h_calls :: "(int \<times> int) list"

definition str8 :: "string \<Rightarrow> byte list" where
  "str8 s = map of_char s"

definition str32 :: "string \<Rightarrow> wstr32" where
  "str32 s = map of_char s"

abbreviation crlf :: "'a::len word list" where
  "crlf \<equiv> [13, 10]"

definition close_connection :: "httppost \<Rightarrow> httppost" where
  "close_connection h = h\<lparr>h_sock := Closed\<rparr>"

text \<open>\<open>_wtoi\<close> converts in a buffer of 1024 bytes, \<open>_wfopen\<close> too.\<close>

definition wtoi32 :: "wstr32 \<Rightarrow> int option" where
  "wtoi32 s = (let b = snd (utf8fromwcs s) in if length b < 1024 then Some (wtoi b) else None)"

definition wfopen :: "(byte list \<Rightarrow> byte list option) \<Rightarrow> wstr32 \<Rightarrow> byte list option option" where
  "wfopen files name = (let b = snd (utf8fromwcs name) in if length b < 1024 then Some (files b) else None)"

definition setURL :: "wstr32 \<Rightarrow> httppost \<Rightarrow> (int \<times> httppost) option" where
  "setURL url h =
     (let h = close_connection (h\<lparr>h_last := -1\<rparr>)
      in if length url < 7 then Some (-1, h)
         else case find_sub (drop 7 url) [47] of
           None \<Rightarrow> Some (-1, h)
         | Some i \<Rightarrow>
             (let h = h\<lparr>h_headers := [], h_object := Some (drop (7 + i) url), h_URL := Some url, h_port := 80\<rparr>;
                  server = take i (drop 7 url)
              in case find_sub server [58] of
                   None \<Rightarrow> Some (0, h\<lparr>h_server := Some server\<rparr>)
                 | Some j \<Rightarrow> map_option (\<lambda>p. (0, h\<lparr>h_server := Some (take j server), h_port := p\<rparr>))
                               (wtoi32 (drop (Suc j) server))))"

definition http_new :: "int \<Rightarrow> wstr32 \<Rightarrow> httppost option" where
  "http_new port url = map_option snd (setURL url
     \<lparr>h_items = [], h_headers = [], h_request_headers = [], h_object = None, h_server = None, h_URL = None,
      h_port = port, h_sock = Closed, h_content_length = 0, h_content_read = 0, h_sent = 0, h_size = 0, h_last = -1,
      h_log = [], h_calls = []\<rparr>)"

definition addFile :: "(byte list \<Rightarrow> byte list option) \<Rightarrow> wstr32 \<Rightarrow> wstr32 \<Rightarrow> httppost \<Rightarrow> (int \<times> httppost) option" where
  "addFile files name file h = do {
     f \<leftarrow> wfopen files file;
     case f of None \<Rightarrow> Some (-1, h)
     | Some _ \<Rightarrow> Some (0, h\<lparr>h_items := h_items h @ [File_name name file]\<rparr>) }"

definition addFile_data :: "wstr32 \<Rightarrow> byte list \<Rightarrow> httppost \<Rightarrow> int \<times> httppost" where
  "addFile_data name d h = (0, h\<lparr>h_items := h_items h @ [File_data name d]\<rparr>)"

definition addFormItem :: "wstr32 \<Rightarrow> wstr32 \<Rightarrow> httppost \<Rightarrow> int \<times> httppost" where
  "addFormItem name val h = (0, h\<lparr>h_items := h_items h @ [Form_data name val]\<rparr>)"

text \<open>The map of headers is keyed by the address of a new string, so every call adds an entry.\<close>

definition addHeader :: "wstr32 \<Rightarrow> wstr32 \<Rightarrow> httppost \<Rightarrow> int \<times> httppost" where
  "addHeader name val h = (0, h\<lparr>h_request_headers := h_request_headers h @ [(name, val)]\<rparr>)"

section \<open>The parts of the form\<close>

text \<open>The lines before the contents of a part; both callers print them into a buffer of 102400 bytes.\<close>

definition part_header :: "byte list \<Rightarrow> byte list option \<Rightarrow> byte list option" where
  "part_header name file =
     (let t = str8 ''Content-Disposition: form-data; name='' @ [34] @ name @ [34] @
              (case file of
                 None \<Rightarrow> crlf @ crlf
               | Some f \<Rightarrow> str8 ''; filename='' @ [34] @ f @ [34] @ crlf @
                           str8 ''Content-Type: application/octet-stream'' @ crlf @ crlf)
      in if length t < 102400 then Some t else None)"

definition calculate_item_size :: "(byte list \<Rightarrow> byte list option) \<Rightarrow> form_item \<Rightarrow> int option" where
  "calculate_item_size files item =
     (case item of
        Form_data name d \<Rightarrow> do {
          name \<leftarrow> W2UTF8 name; t \<leftarrow> part_header name None; d \<leftarrow> W2UTF8 d;
          Some (int (length d) + int (length t)) }
      | File_data name d \<Rightarrow> do {
          name \<leftarrow> W2UTF8 name; t \<leftarrow> part_header name (Some (str8 ''RawData.dat''));
          Some (int (length d) + int (length t)) }
      | File_name name file \<Rightarrow> do {
          f \<leftarrow> wfopen files file;
          case f of
            None \<Rightarrow> Some (-1)
          | Some d \<Rightarrow> do {
              name \<leftarrow> W2UTF8 name; file \<leftarrow> W2UTF8 file; t \<leftarrow> part_header name (Some file);
              Some (int (length d) + int (length t)) } })"

text \<open>What has been sent in a request: the bytes, the counter and the calls of the callback.\<close>

record sending =
  s_out :: "byte list"
  s_sent :: int
  s_calls :: "(int \<times> int) list"

definition send_bytes :: "byte list \<Rightarrow> sending \<Rightarrow> sending" where
  "send_bytes b s = s\<lparr>s_out := s_out s @ b, s_sent := wrap32 (s_sent s + int (length b))\<rparr>"

definition callback :: "int \<Rightarrow> sending \<Rightarrow> sending" where
  "callback sz s = s\<lparr>s_calls := s_calls s @ [(s_sent s, sz)]\<rparr>"

text \<open>The blocks of 2048 bytes of a file or of data.\<close>

function send_blocks :: "int \<Rightarrow> byte list \<Rightarrow> sending \<Rightarrow> sending" where
  "send_blocks sz d s =
     (if d = [] then s else send_blocks sz (drop 2048 d) (callback sz (send_bytes (take 2048 d) s)))"
  by pat_completeness auto
termination
  by (relation "measure (\<lambda>(sz, d, s). length d)") auto

declare send_blocks.simps [simp del]

definition send_item :: "(byte list \<Rightarrow> byte list option) \<Rightarrow> int \<Rightarrow> form_item \<Rightarrow> sending \<Rightarrow> (int \<times> sending) option" where
  "send_item files sz item s =
     (case item of
        Form_data name d \<Rightarrow> do {
          name \<leftarrow> W2UTF8 name; t \<leftarrow> part_header name None; d \<leftarrow> W2UTF8 d;
          Some (0, callback sz (send_bytes d (send_bytes t s))) }
      | File_data name d \<Rightarrow> do {
          name \<leftarrow> W2UTF8 name; t \<leftarrow> part_header name (Some (str8 ''RawData.dat''));
          Some (0, send_blocks sz d (send_bytes t s)) }
      | File_name name file \<Rightarrow> do {
          f \<leftarrow> wfopen files file;
          case f of
            None \<Rightarrow> Some (-1, s)
          | Some d \<Rightarrow> do {
              name \<leftarrow> W2UTF8 name; file \<leftarrow> W2UTF8 file; t \<leftarrow> part_header name (Some file);
              Some (0, send_blocks sz d (send_bytes t s)) } })"

section \<open>The request\<close>

definition boundary :: "byte list" where
  "boundary = str8 ''----7b4a6d158c9''"

fun request_size :: "(byte list \<Rightarrow> byte list option) \<Rightarrow> form_item list \<Rightarrow> int \<Rightarrow> int option" where
  "request_size files [] n = Some n"
| "request_size files (i # is) n = do {
     k \<leftarrow> calculate_item_size files i;
     request_size files is
       (wrap32 (n + (int (length boundary) + 4) + k + (int (length boundary) + 8))) }"

fun send_items :: "(byte list \<Rightarrow> byte list option) \<Rightarrow> int \<Rightarrow> form_item list \<Rightarrow> sending \<Rightarrow> sending option" where
  "send_items files sz [] s = Some s"
| "send_items files sz (i # is) s = do {
     (r, s) \<leftarrow> send_item files sz i (send_bytes (str8 ''--'' @ boundary @ crlf) s);
     send_items files sz is
       (callback sz (send_bytes (str8 ''--'' @ boundary @ str8 ''--'' @ crlf) (send_bytes crlf s))) }"

text \<open>The lines of the header; \<open>LINE\<close> prints into one buffer and appends to another, of 1024000 bytes each.\<close>

definition header_line :: "byte list \<Rightarrow> byte list \<Rightarrow> byte list option" where
  "header_line l acc =
     (if length l < 1024000 \<and> length acc + length l + 2 < 1024000 then Some (acc @ l @ crlf) else None)"

fun header_lines :: "byte list list \<Rightarrow> byte list \<Rightarrow> byte list option" where
  "header_lines [] acc = Some acc"
| "header_lines (l # ls) acc = do { acc \<leftarrow> header_line l acc; header_lines ls acc }"

fun convert_headers :: "(wstr32 \<times> wstr32) list \<Rightarrow> byte list list option" where
  "convert_headers [] = Some []"
| "convert_headers ((n, v) # hs) = do {
     n \<leftarrow> W2UTF8 n; v \<leftarrow> W2UTF8 v; ls \<leftarrow> convert_headers hs; Some ((n @ str8 '': '' @ v) # ls) }"

text \<open>\<open>ordered\<close> is the order of the header map, which is the order of addresses.\<close>

definition request_header ::
  "((wstr32 \<times> wstr32) list \<Rightarrow> (wstr32 \<times> wstr32) list) \<Rightarrow> httppost \<Rightarrow> byte list \<Rightarrow> byte list \<Rightarrow> int \<Rightarrow> byte list option" where
  "request_header ordered h object server sz = do {
     own \<leftarrow> convert_headers (ordered (h_request_headers h));
     header_lines
       ([(if h_items h \<noteq> [] then str8 ''POST'' else str8 ''GET'') @ str8 '' '' @ object @ str8 '' HTTP/1.1'',
         str8 ''HOST: '' @ server, str8 ''Accept: */*'',
         str8 ''Content-Type: multipart/form-data; charset=UTF-8; boundary='' @ boundary,
         str8 ''Accept-Encoding: deflate'', str8 ''User-Agent: Mozilla/4.0 (compatible; windows 5.1)'',
         str8 ''Connection: Keep-Alive'', str8 ''Cache-Control: no-cache''] @ own @
        (if sz > 0 then [str8 ''Content-Length: '' @ fmt_int 0 sz] else []) @ [[]]) [] }"

section \<open>The response\<close>

text \<open>\<open>atoll\<close>, whose result is undefined when the number does not fit.\<close>

definition atoll :: "byte list \<Rightarrow> int option" where
  "atoll s =
     (let n = (case dropWhile is_space s of
                 [] \<Rightarrow> 0
               | c # cs \<Rightarrow>
                   if c = 45 then (case scan_nat cs of None \<Rightarrow> 0 | Some (n, r) \<Rightarrow> - int n)
                   else if c = 43 then (case scan_nat cs of None \<Rightarrow> 0 | Some (n, r) \<Rightarrow> int n)
                   else (case scan_nat (c # cs) of None \<Rightarrow> 0 | Some (n, r) \<Rightarrow> int n))
      in if - (2 ^ 63) \<le> n \<and> n < 2 ^ 63 then Some n else None)"

text \<open>The last index that \<open>wcsrchr\<close> finds.\<close>

definition wcsrchr :: "'a \<Rightarrow> 'a list \<Rightarrow> nat option" where
  "wcsrchr c s = map_option (\<lambda>i. length s - 1 - i) (find_sub (rev s) [c])"

definition trim_value :: "wstr32 \<Rightarrow> wstr32" where
  "trim_value v = wcstrim 10 (wcstrim 13 (wcstrim 32 v))"

text \<open>\<open>location\<close>: an absolute address, or one relative to the directory of the last request.\<close>

definition new_location :: "wstr32 \<Rightarrow> httppost \<Rightarrow> wstr32 option" where
  "new_location v h =
     (if is_prefix_of (str32 ''http://'') v then Some (wcstrim 10 (wcstrim 13 v))
      else do {
        url \<leftarrow> h_URL h;
        k \<leftarrow> wcsrchr 47 url;
        Some (wcstrim 10 (wcstrim 13 (take (Suc k) url @ v))) })"

text \<open>One line: the response code, the location and the object, before and after.\<close>

definition note_header ::
  "wstr32 \<Rightarrow> wstr32 \<Rightarrow> int \<times> wstr32 option \<times> httppost \<Rightarrow> (int \<times> wstr32 option \<times> httppost) option" where
  "note_header name v = (\<lambda>(code, loc, h). do {
     let h = h\<lparr>h_headers := h_headers h @ [(name, v)]\<rparr>;
     h \<leftarrow> (if name = str32 ''Content-Length''
           then (let b = snd (utf8fromwcs v)
                 in if length b < 1000 then map_option (\<lambda>n. h\<lparr>h_content_length := n\<rparr>) (atoll b) else None)
           else Some h);
     loc \<leftarrow> (if name = str32 ''Location'' then map_option Some (new_location v h) else Some loc);
     Some (code, loc, h) })"

definition response_line ::
  "byte list \<Rightarrow> int \<times> wstr32 option \<times> httppost \<Rightarrow> (int \<times> wstr32 option \<times> httppost) option" where
  "response_line response = (\<lambda>(code, loc, h).
     if is_prefix_of (str8 ''HTTP'') response
     then (case find_sub response (str8 '' '') of
             None \<Rightarrow> Some (code, loc, h)
           | Some i \<Rightarrow> Some (wtoi (drop (Suc i) response), loc, h))
     else case UTF82W response of
       None \<Rightarrow> None
     | Some line \<Rightarrow>
         (case find_sub line [58] of
            None \<Rightarrow> Some (code, loc, h)
          | Some i \<Rightarrow> note_header (take i line) (trim_value (drop (Suc i) line)) (code, loc, h)))"

definition ends_crlf :: "byte list \<Rightarrow> bool" where
  "ends_crlf l \<longleftrightarrow> length l \<ge> 2 \<and> drop (length l - 2) l = crlf"

text \<open>The loop that reads byte by byte into a buffer of 10240 bytes; the rest stays in the socket.\<close>

fun recv_lines ::
  "byte list \<Rightarrow> byte list \<Rightarrow> int \<times> wstr32 option \<times> httppost \<Rightarrow> ((int \<times> wstr32 option \<times> httppost) \<times> byte list) option" where
  "recv_lines response [] st = Some (st, [])"
| "recv_lines response (b # rest) st =
     (let response = response @ [b]
      in if length response > 10240 then None
         else if \<not> ends_crlf response then recv_lines response rest st
         else if length response \<ge> 10240 then None
         else if length response = 2 then Some (st, rest)
         else case response_line (takeWhile (\<lambda>c. c \<noteq> 0) response) st of
                None \<Rightarrow> None
              | Some st \<Rightarrow> recv_lines [] rest st)"

section \<open>Requests\<close>

text \<open>The request is built and sent, then the response is read; the rest of it stays in the socket.\<close>

definition make_request ::
  "(byte list \<Rightarrow> byte list option) \<Rightarrow> ((wstr32 \<times> wstr32) list \<Rightarrow> (wstr32 \<times> wstr32) list) \<Rightarrow> byte list \<Rightarrow> httppost \<Rightarrow>
   httppost option" where
  "make_request files ordered server h = do {
     object \<leftarrow> h_object h;
     object \<leftarrow> W2UTF8 object;
     sz \<leftarrow> request_size files (h_items h) 0;
     hd \<leftarrow> request_header ordered h object server sz;
     s \<leftarrow> send_items files sz (h_items h) \<lparr>s_out = hd, s_sent = h_sent h, s_calls = []\<rparr>;
     Some (h\<lparr>h_size := sz, h_sent := s_sent s, h_log := h_log h @ [(server, h_port h, s_out s)],
       h_calls := h_calls h @ s_calls s\<rparr>) }"

definition receive_response ::
  "(sent_log \<Rightarrow> byte list) \<Rightarrow> httppost \<Rightarrow> (int \<times> wstr32 option \<times> httppost) option" where
  "receive_response answers h =
     map_option (\<lambda>((code, loc, h), rest). (code, loc, h\<lparr>h_sock := Open rest\<rparr>))
       (recv_lines [] (answers (h_log h)) (400, None, h))"

text \<open>\<open>send_request\<close>, with the number of redirections it may still follow.\<close>

fun send_request ::
  "(byte list \<Rightarrow> byte list option) \<Rightarrow> ((wstr32 \<times> wstr32) list \<Rightarrow> (wstr32 \<times> wstr32) list) \<Rightarrow>
   (sent_log \<Rightarrow> byte list \<Rightarrow> int \<Rightarrow> int) \<Rightarrow> (sent_log \<Rightarrow> byte list) \<Rightarrow> nat \<Rightarrow> httppost \<Rightarrow> (int \<times> httppost) option" where
  "send_request files ordered connects answers n h =
     (if h_last h \<ge> 0 then Some (h_last h, h)
      else do {
        server \<leftarrow> h_server h;
        server \<leftarrow> W2UTF8 server;
        let c = connects (h_log h) server (h_port h);
        if c < 0 then Some (c, if c = -2 then h else h\<lparr>h_sock := Broken\<rparr>)
        else do {
          h \<leftarrow> make_request files ordered server h;
          (code, loc, h) \<leftarrow> receive_response answers h;
          case (loc, n) of
            (Some l, Suc m) \<Rightarrow> do {
              (r, h) \<leftarrow> setURL l h;
              send_request files ordered connects answers m h }
          | _ \<Rightarrow> Some (code, h\<lparr>h_last := code\<rparr>) } })"

declare send_request.simps [simp del]

section \<open>The content\<close>

text \<open>What a call of \<open>recv\<close> does: an error, or up to so many bytes.  The schedule may end: the call blocks.\<close>

datatype recv_outcome = Recv_error | Recv_upto nat

text \<open>One call for at most \<open>n\<close> bytes: the result, the bytes, and the socket.\<close>

definition recv_call :: "recv_outcome \<Rightarrow> nat \<Rightarrow> socket \<Rightarrow> int \<times> byte list \<times> socket" where
  "recv_call r n sock =
     (case (sock, r) of
        (Open d, Recv_upto k) \<Rightarrow>
          (let b = take (min k n) d in (int (length b), b, Open (drop (min k n) d)))
      | _ \<Rightarrow> (-1, [], sock))"

fun recv_content ::
  "recv_outcome list \<Rightarrow> int \<Rightarrow> byte list \<Rightarrow> httppost \<Rightarrow> (int \<times> byte list \<times> httppost) option" where
  "recv_content sched len buf h =
     (if int (length buf) \<ge> len \<or> h_sock h = Closed then Some (int (length buf), buf, h)
      else case sched of
             [] \<Rightarrow> None
           | r # sched \<Rightarrow>
               (case recv_call r (nat len - length buf) (h_sock h) of
                  (k, b, sock) \<Rightarrow>
                    if k \<le> 0
                    then Some (int (length buf) + k, buf, h\<lparr>h_sock := sock, h_content_read := h_content_read h + k\<rparr>)
                    else recv_content sched len (buf @ b)
                           (h\<lparr>h_sock := sock, h_content_read := h_content_read h + k\<rparr>)))"

declare recv_content.simps [simp del]

definition content_size :: "int \<Rightarrow> httppost \<Rightarrow> int" where
  "content_size len h =
     (if h_content_length h > 0 then wrap32 (min len (h_content_length h - h_content_read h)) else len)"

text \<open>The result, the bytes put into the buffer, and the object.\<close>

definition read_content ::
  "recv_outcome list \<Rightarrow> int \<Rightarrow> httppost \<Rightarrow> (int \<times> byte list \<times> httppost) option" where
  "read_content sched len h =
     (let len = content_size len h
      in if len \<le> 0 then Some (0, [], h) else recv_content sched len [] h)"

section \<open>What is sent\<close>

text \<open>The body that the form stands for.\<close>

definition item_bytes :: "(byte list \<Rightarrow> byte list option) \<Rightarrow> form_item \<Rightarrow> byte list option" where
  "item_bytes files item =
     (case item of
        Form_data name d \<Rightarrow> do {
          name \<leftarrow> W2UTF8 name; t \<leftarrow> part_header name None; d \<leftarrow> W2UTF8 d; Some (t @ d) }
      | File_data name d \<Rightarrow> do {
          name \<leftarrow> W2UTF8 name; t \<leftarrow> part_header name (Some (str8 ''RawData.dat'')); Some (t @ d) }
      | File_name name file \<Rightarrow> do {
          f \<leftarrow> wfopen files file; d \<leftarrow> f;
          name \<leftarrow> W2UTF8 name; file \<leftarrow> W2UTF8 file; t \<leftarrow> part_header name (Some file); Some (t @ d) })"

fun form_body :: "(byte list \<Rightarrow> byte list option) \<Rightarrow> form_item list \<Rightarrow> byte list option" where
  "form_body files [] = Some []"
| "form_body files (i # is) = do {
     b \<leftarrow> item_bytes files i; r \<leftarrow> form_body files is;
     Some (str8 ''--'' @ boundary @ crlf @ b @ crlf @ str8 ''--'' @ boundary @ str8 ''--'' @ crlf @ r) }"

lemma wrap32_add [simp]: "wrap32 (wrap32 a + b) = wrap32 (a + b)" "wrap32 (b + wrap32 a) = wrap32 (b + a)"
  "wrap32 (wrap32 a) = wrap32 a"
proof -
  have "wrap32 (wrap32 x + y) = wrap32 (x + y)" for x y
    using mod_add_left_eq [of "x + 2 ^ 31" "2 ^ 32" y] by (simp add: wrap32_def algebra_simps)
  from this [of a b] this [of a 0] show "wrap32 (wrap32 a + b) = wrap32 (a + b)"
    "wrap32 (b + wrap32 a) = wrap32 (b + a)" "wrap32 (wrap32 a) = wrap32 a"
    by (simp_all add: add.commute)
qed

lemma calculate_item_size: "item_bytes files i = Some b \<Longrightarrow> calculate_item_size files i = Some (int (length b))"
  by (cases i) (auto simp: item_bytes_def calculate_item_size_def split: bind_splits)

lemma length_str8 [simp]: "length (str8 s) = length s"
  by (simp add: str8_def)

lemma request_size_body:
  "form_body files is = Some b \<Longrightarrow> request_size files is n = Some (if is = [] then n else wrap32 (n + int (length b)))"
proof (induction "is" arbitrary: n b)
  case (Cons i "is")
  then obtain c r where c: "item_bytes files i = Some c" and r: "form_body files is = Some r"
    and b: "b = str8 ''--'' @ boundary @ crlf @ c @ crlf @ str8 ''--'' @ boundary @ str8 ''--'' @ crlf @ r"
    by (auto split: bind_splits)
  have "is = [] \<Longrightarrow> r = []"
    using r by simp
  then show ?case
    using Cons.IH [OF r] by (auto simp: calculate_item_size [OF c] b boundary_def algebra_simps)
qed simp

text \<open>The effect of sending: the bytes are appended, the counter follows.\<close>

lemma send_blocks:
  "s_out (send_blocks sz d s) = s_out s @ d \<and>
   s_sent (send_blocks sz d s) = (if d = [] then s_sent s else wrap32 (s_sent s + int (length d)))"
proof (induction sz d s rule: send_blocks.induct)
  case (1 sz d s)
  show ?case
  proof (cases "d = []")
    case True
    then show ?thesis
      by (simp add: send_blocks.simps)
  next
    case False
    have "min 2048 (int (length d)) + (int (length d) - 2048) = int (length d)" if "drop 2048 d \<noteq> []"
      using that by simp
    then show ?thesis
      using 1 [OF False] False
      by (subst (1 2) send_blocks.simps) (auto simp: callback_def send_bytes_def add.assoc min_def)
  qed
qed

definition sends :: "byte list \<Rightarrow> sending \<Rightarrow> sending \<Rightarrow> bool" where
  "sends b s s' \<longleftrightarrow> s_out s' = s_out s @ b \<and> wrap32 (s_sent s') = wrap32 (s_sent s + int (length b))"

lemma send_item_bytes:
  assumes "item_bytes files i = Some b"
  shows "\<exists>s'. send_item files sz i s = Some (0, s') \<and> sends b s s'"
proof (cases i)
  case (Form_data name d)
  then show ?thesis
    using assms by (auto simp: item_bytes_def send_item_def sends_def send_bytes_def callback_def algebra_simps split: bind_splits)
next
  case (File_data name d)
  then show ?thesis
    using assms by (auto simp: item_bytes_def send_item_def sends_def send_bytes_def send_blocks algebra_simps split: bind_splits)
next
  case (File_name name fname)
  then show ?thesis
    using assms by (auto simp: item_bytes_def send_item_def sends_def send_bytes_def send_blocks algebra_simps split: bind_splits)
qed

lemma sends_trans: "sends b s s' \<Longrightarrow> sends c s' s'' \<Longrightarrow> sends (b @ c) s s''"
  unfolding sends_def by (metis append.assoc add.assoc length_append of_nat_add wrap32_add(1))

lemma sends_bytes: "sends b s (send_bytes b s)" "sends [] s (callback sz s)"
  by (simp_all add: sends_def send_bytes_def callback_def)

lemma send_items_body:
  "form_body files is = Some b \<Longrightarrow> \<exists>s'. send_items files sz is s = Some s' \<and> sends b s s' \<and>
     (is \<noteq> [] \<longrightarrow> s_calls s' \<noteq> [] \<and> last (s_calls s') = (s_sent s', sz) \<and> wrap32 (s_sent s') = s_sent s')"
proof (induction "is" arbitrary: b s)
  case Nil
  then show ?case
    by (simp add: sends_def)
next
  case (Cons i "is")
  obtain c r where c: "item_bytes files i = Some c" and r: "form_body files is = Some r"
    and b: "b = (str8 ''--'' @ boundary @ crlf) @ c @ crlf @ (str8 ''--'' @ boundary @ str8 ''--'' @ crlf) @ r"
    using Cons.prems by (auto split: bind_splits)
  let ?s1 = "send_bytes (str8 ''--'' @ boundary @ crlf) s"
  obtain s2 where s2: "send_item files sz i ?s1 = Some (0, s2)" "sends c ?s1 s2"
    using send_item_bytes [OF c] by blast
  let ?s3 = "send_bytes (str8 ''--'' @ boundary @ str8 ''--'' @ crlf) (send_bytes crlf s2)"
  obtain s4 where s4: "send_items files sz is (callback sz ?s3) = Some s4" "sends r (callback sz ?s3) s4"
    "is \<noteq> [] \<longrightarrow> s_calls s4 \<noteq> [] \<and> last (s_calls s4) = (s_sent s4, sz) \<and> wrap32 (s_sent s4) = s_sent s4"
    using Cons.IH [OF r] by blast
  have "sends (crlf @ (str8 ''--'' @ boundary @ str8 ''--'' @ crlf) @ [] @ r) s2 s4"
    by (rule sends_trans, rule sends_bytes, rule sends_trans, rule sends_bytes, rule sends_trans, rule sends_bytes, rule s4)
  then have "sends b s s4"
    unfolding b using sends_trans [OF sends_bytes(1) sends_trans [OF s2(2)]] by simp
  moreover have "is = [] \<Longrightarrow> s_calls s4 \<noteq> [] \<and> last (s_calls s4) = (s_sent s4, sz) \<and> wrap32 (s_sent s4) = s_sent s4"
    using s4(1) by (auto simp: callback_def send_bytes_def)
  ultimately show ?case
    using s2 s4 by auto
qed

text \<open>The response changes only the response headers and the content length.\<close>

definition same_request :: "httppost \<Rightarrow> httppost \<Rightarrow> bool" where
  "same_request h h' \<longleftrightarrow> h' = h\<lparr>h_headers := h_headers h', h_content_length := h_content_length h'\<rparr>"

lemma same_request_trans: "same_request h h' \<Longrightarrow> same_request h' h'' \<Longrightarrow> same_request h h''"
  unfolding same_request_def by (cases h; cases h'; cases h'') simp

lemma same_request_simps:
  assumes "same_request h h'"
  shows "h_log h' = h_log h" "h_size h' = h_size h" "h_calls h' = h_calls h" "h_sent h' = h_sent h"
    "h_content_read h' = h_content_read h" "h_URL h' = h_URL h"
  by (subst assms [unfolded same_request_def], simp)+

lemma same_request_intros [intro, simp]: "same_request h h" "same_request h (h\<lparr>h_headers := x\<rparr>)"
  "same_request h (h\<lparr>h_headers := x, h_content_length := n\<rparr>)"
  by (simp_all add: same_request_def)

lemma note_header_same: "note_header name v (code, loc, h) = Some (c', loc', h') \<Longrightarrow> same_request h h'"
  by (auto simp: note_header_def bind_eq_Some_conv Let_def split: if_splits)

lemma response_line_same: "response_line l (code, loc, h) = Some (c', loc', h') \<Longrightarrow> same_request h h'"
  unfolding response_line_def prod.case
  by (split if_splits option.splits)+ (auto dest: note_header_same split: option.splits)

lemma recv_lines_step:
  assumes "recv_lines l (b # d) st = Some r"
  shows "recv_lines (l @ [b]) d st = Some r \<or> r = (st, d) \<or>
    (\<exists>st'. response_line (takeWhile (\<lambda>c. c \<noteq> 0) (l @ [b])) st = Some st' \<and> recv_lines [] d st' = Some r)"
  using assms by (auto simp: Let_def simp del: split_paired_Ex split: if_splits option.splits)

lemma recv_lines_same: "recv_lines l d st = Some (st', rest) \<Longrightarrow> same_request (snd (snd st)) (snd (snd st'))"
proof (induction d arbitrary: l st)
  case (Cons b d)
  have "same_request (snd (snd st)) (snd (snd st'))"
    if "response_line t st = Some st1" "recv_lines [] d st1 = Some (st', rest)" for t st1
    using response_line_same [of t "fst st" "fst (snd st)" "snd (snd st)" "fst st1" "fst (snd st1)" "snd (snd st1)"]
      same_request_trans Cons.IH [OF that(2)] that(1) by simp
  then show ?case
    using recv_lines_step [OF Cons.prems] Cons.IH [of "l @ [b]" st] by auto
qed auto


definition some_http :: httppost where
  "some_http = \<lparr>h_items = [Form_data (str32 ''a'') (str32 ''b'')], h_headers = [], h_request_headers = [],
     h_object = Some (str32 ''/''), h_server = Some (str32 ''h''), h_URL = Some (str32 ''http://h/''), h_port = 80,
     h_sock = Closed, h_content_length = 0, h_content_read = 0, h_sent = 0, h_size = 0, h_last = -1, h_log = [],
     h_calls = []\<rparr>"

lemma some_body: "\<exists>b. form_body (\<lambda>f. None) (h_items some_http) = Some b \<and> length b < 200"
  by (simp add: some_http_def item_bytes_def W2UTF8_def utf8_char_def str32_def str8_def part_header_def boundary_def)

lemma some_request: "\<exists>h'. make_request (\<lambda>f. None) (\<lambda>x. x) (str8 ''h'') some_http = Some h'"
proof -
  obtain b where b: "form_body (\<lambda>f. None) (h_items some_http) = Some b" "length b < 200"
    using some_body by blast
  have "request_size (\<lambda>f. None) (h_items some_http) 0 = Some (int (length b))"
    using request_size_body [OF b(1), of 0] b(2) wrap32_id [of "int (length b)"] by (auto simp: some_http_def)
  moreover have "\<exists>s'. send_items (\<lambda>f. None) sz (h_items some_http) s = Some s'" for sz s
    using send_items_body [OF b(1)] by blast
  moreover have "length (fmt_int 0 (int (length b)) :: byte list) \<le> 3"
    using length_dec_digits_less [of "length b" 3, where 'a = 8] b(2) by (simp add: fmt_int_def pad_digits_def)
  then have "\<exists>hd. request_header (\<lambda>x. x) some_http (str8 ''/'') (str8 ''h'') (int (length b)) = Some hd"
    by (simp add: request_header_def some_http_def header_line_def boundary_def)
  moreover have "W2UTF8 (str32 ''/'') = Some (str8 ''/'')" "h_object some_http = Some (str32 ''/'')"
    by (simp_all add: W2UTF8_def str32_def str8_def utf8_char_def some_http_def)
  ultimately show ?thesis
    by (auto simp: make_request_def bind_eq_Some_conv)
qed


section \<open>Redirection\<close>

lemma setURL_log: "setURL url h = Some (r, h') \<Longrightarrow> h_log h' = h_log h"
  by (auto simp: setURL_def close_connection_def Let_def split: if_splits option.splits)

lemma make_request_log:
  "make_request files ordered server h = Some h' \<Longrightarrow> length (h_log h') = Suc (length (h_log h))"
  by (auto simp: make_request_def bind_eq_Some_conv)

lemma receive_response_log:
  "receive_response answers h = Some (code, loc, h') \<Longrightarrow> h_log h' = h_log h"
  by (auto simp: receive_response_def dest!: recv_lines_same same_request_simps(1))

lemma send_request_cases:
  assumes "send_request files ordered connects answers n h = Some (r, h')"
  shows "h_log h' = h_log h \<or>
    (\<exists>server h1 code loc h2. make_request files ordered server h = Some h1 \<and>
       receive_response answers h1 = Some (code, loc, h2) \<and>
       (h' = h2\<lparr>h_last := code\<rparr> \<or>
        (\<exists>l m k h3. n = Suc m \<and> setURL l h2 = Some (k, h3) \<and>
           send_request files ordered connects answers m h3 = Some (r, h'))))"
proof (rule disjCI)
  assume log: "\<not> (\<exists>server h1 code loc h2. make_request files ordered server h = Some h1 \<and>
       receive_response answers h1 = Some (code, loc, h2) \<and>
       (h' = h2\<lparr>h_last := code\<rparr> \<or>
        (\<exists>l m k h3. n = Suc m \<and> setURL l h2 = Some (k, h3) \<and>
           send_request files ordered connects answers m h3 = Some (r, h'))))"
  note run = assms [unfolded send_request.simps [of files ordered connects answers n h]]
  show "h_log h' = h_log h"
  proof (rule ccontr)
    assume new: "h_log h' \<noteq> h_log h"
    then obtain server h1 where h1: "make_request files ordered server h = Some h1"
      and run1: "do {
          (code, loc, h) \<leftarrow> receive_response answers h1;
          case (loc, n) of
            (Some l, Suc m) \<Rightarrow> do {
              (r, h) \<leftarrow> setURL l h;
              send_request files ordered connects answers m h }
          | _ \<Rightarrow> Some (code, h\<lparr>h_last := code\<rparr>) } = Some (r, h')"
      using run by (auto simp: bind_eq_Some_conv Let_def split: if_splits)
    then obtain code loc h2 where h2: "receive_response answers h1 = Some (code, loc, h2)"
      by (cases "receive_response answers h1") auto
    have "h' \<noteq> h2\<lparr>h_last := code\<rparr>"
      using log h1 h2 by blast
    moreover have "\<not> (n = Suc m \<and> setURL l h2 = Some (k, h3) \<and>
        send_request files ordered connects answers m h3 = Some (r, h'))" for l m k h3
      using log h1 h2 by blast
    ultimately show False
      using run1 by (cases loc; cases n) (auto simp: h2 bind_eq_Some_conv)
  qed
qed

text \<open>
  A call follows at most as many redirections as it was allowed, and ends: it makes at most one request
  more than that, whatever the servers answer.
\<close>

theorem redirections_bounded:
  "send_request files ordered connects answers n h = Some (r, h') \<Longrightarrow>
   length (h_log h') \<le> length (h_log h) + Suc n"
proof (induction n arbitrary: h)
  case 0
  then show ?case
    using send_request_cases [OF 0] by (auto dest!: make_request_log receive_response_log)
next
  case (Suc n)
  then show ?case
    using send_request_cases [OF Suc.prems]
    by (fastforce dest!: make_request_log receive_response_log setURL_log dest: Suc.IH)
qed

section \<open>What is read\<close>

text \<open>A response as a server writes it: the status line, the headers, an empty line.\<close>

definition encode_header :: "wstr32 \<times> wstr32 \<Rightarrow> wstr32" where
  "encode_header = (\<lambda>(n, v). n @ [58, 32] @ v @ crlf)"

definition status_line :: "nat \<Rightarrow> byte list \<Rightarrow> byte list" where
  "status_line code reason = str8 ''HTTP/1.1 '' @ dec_digits code @ [32] @ reason @ crlf"

definition encode_response :: "nat \<Rightarrow> byte list \<Rightarrow> (wstr32 \<times> wstr32) list \<Rightarrow> byte list" where
  "encode_response code reason hs =
     status_line code reason @ concat (map (\<lambda>h. snd (utf8fromwcs (encode_header h))) hs) @ crlf"

definition char_ok :: "u32 \<Rightarrow> bool" where
  "char_ok c \<longleftrightarrow> c \<noteq> 0 \<and> c < 0x40000 \<and> c \<noteq> 10 \<and> c \<noteq> 13"

definition header_ok :: "wstr32 \<times> wstr32 \<Rightarrow> bool" where
  "header_ok = (\<lambda>(n, v). list_all char_ok n \<and> list_all char_ok v \<and> 58 \<notin> set n \<and> v \<noteq> [] \<and> hd v \<noteq> 32 \<and>
     n \<noteq> str32 ''Location'' \<and> \<not> is_prefix_of (str8 ''HTTP'') (snd (utf8fromwcs (encode_header (n, v)))) \<and>
     length (snd (utf8fromwcs (encode_header (n, v)))) < 10240 \<and>
     (n = str32 ''Content-Length'' \<longrightarrow> (\<exists>k < 2 ^ 63. v = dec_digits k \<and> length v < 999)))"

lemma ends_crlf_snoc: "ends_crlf (l @ [13, 10])" "b \<noteq> 10 \<Longrightarrow> \<not> ends_crlf (l @ [b])"
  by (auto simp: ends_crlf_def)

text \<open>A line without a line feed is collected up to its end.\<close>

lemma recv_lines_collect:
  "10 \<notin> set l \<Longrightarrow> length (p @ l @ crlf) < 10240 \<Longrightarrow>
   recv_lines p (l @ crlf @ d) st = recv_lines (p @ l) (crlf @ d) st"
proof (induction l arbitrary: p)
  case (Cons b l)
  then show ?case
    using Cons.IH [of "p @ [b]"] by (simp add: ends_crlf_snoc Let_def)
qed simp

lemma recv_lines_line:
  assumes "10 \<notin> set l" "0 \<notin> set l" "l \<noteq> []" "length (l @ crlf) < 10240"
  shows "recv_lines [] (l @ crlf @ d) st =
    (case response_line (l @ crlf) st of None \<Rightarrow> None | Some st \<Rightarrow> recv_lines [] d st)"
proof -
  have "takeWhile (\<lambda>c. c \<noteq> 0) (l @ crlf) = l @ crlf"
    using assms(2) by (auto simp: takeWhile_eq_all_conv)
  moreover have "\<not> ends_crlf (l @ [13])" "ends_crlf ((l @ [13]) @ [10])"
    using ends_crlf_snoc(2) [of 13 l] ends_crlf_snoc(1) [of l] by simp_all
  ultimately show ?thesis
    using recv_lines_collect [of l "[]" d st] assms by (simp add: Let_def)
qed

lemma recv_lines_end: "recv_lines [] (crlf @ d) st = Some (st, d)"
  using ends_crlf_snoc(2) [of 13 "[]"] ends_crlf_snoc(1) [of "[]"] by (simp add: Let_def)

text \<open>A value keeps its carriage return: the line feed behind it is trimmed after it.\<close>

lemma trim_value_crlf:
  assumes "list_all char_ok v" "v \<noteq> []" "hd v \<noteq> 32"
  shows "trim_value ([32] @ v @ crlf) = v @ [13]"
proof -
  have hd: "hd v \<noteq> 10" "hd v \<noteq> 13"
    using assms(1,2) by (cases v; simp add: char_ok_def)+
  have "wcstrim 32 ([32] @ v @ crlf) = v @ crlf"
    using wcstrim_ends [of "v @ crlf" 32 1 0] assms(2,3) by simp
  moreover have "wcstrim 13 (v @ crlf) = v @ crlf"
    using wcstrim_ends [of "v @ crlf" 13 0 0] assms(2) hd by simp
  moreover have "wcstrim 10 (v @ crlf) = v @ [13]"
    using wcstrim_ends [of "v @ [13]" 10 0 1] assms(2) hd by simp
  ultimately show ?thesis
    by (simp add: trim_value_def)
qed

lemma ucast_digit_char: "d < 10 \<Longrightarrow> ucast (digit_char d :: u32) = (digit_char d :: byte)"
proof -
  assume "d < 10"
  then have "d \<in> {0, 1, 2, 3, 4, 5, 6, 7, 8, 9}"
    by auto
  then show ?thesis
    by (auto simp: digit_char_def)
qed

lemma dec_digits_ucast: "map ucast (dec_digits n :: u32 list) = (dec_digits n :: byte list)"
proof (induction n rule: dec_digits.induct)
  case (1 n)
  then show ?case
    by (subst (1 2) dec_digits.simps) (simp add: ucast_digit_char)
qed

lemma dec_digits_ascii: "list_all (\<lambda>c. c < 0x80) (dec_digits n :: u32 list)"
proof -
  have "is_digit c \<Longrightarrow> c < 0x80" for c :: u32
    by (simp add: is_digit_def word_less_nat_alt)
  then show ?thesis
    using dec_digits_all [of n, where 'a = 32] by (simp add: list_all_iff)
qed

lemma atoll_digits:
  assumes "k < 2 ^ 63"
  shows "atoll (dec_digits k @ [13]) = Some (int k)"
proof -
  let ?ds = "dec_digits k :: byte list"
  obtain c cs where ds: "?ds = c # cs"
    by (cases ?ds) auto
  have c: "is_digit c"
    using dec_digits_all [of k, where 'a = 8] ds by simp
  have "takeWhile is_digit (?ds @ [13]) = ?ds"
    by (rule takeWhile_all) (simp_all add: dec_digits_all is_digit_def)
  then have "scan_nat (?ds @ [13]) = Some (k, dropWhile is_digit (?ds @ [13]))"
    by (simp add: scan_nat_def dec_digits_value Let_def)
  then show ?thesis
    using digit_not_space [OF c] assms by (simp add: atoll_def ds)
qed

definition length_after :: "int \<Rightarrow> wstr32 \<times> wstr32 \<Rightarrow> int" where
  "length_after len = (\<lambda>(n, v). if n = str32 ''Content-Length'' then int (digits_value 0 v) else len)"

lemma note_header_ok:
  assumes "header_ok (n, v)"
  shows "note_header n (v @ [13]) (code, loc, h) =
    Some (code, loc, h\<lparr>h_headers := h_headers h @ [(n, v @ [13])],
      h_content_length := length_after (h_content_length h) (n, v)\<rparr>)"
proof (cases "n = str32 ''Content-Length''")
  case True
  then obtain k where k: "k < 2 ^ 63" "v = dec_digits k" "length v < 999"
    using assms by (auto simp: header_ok_def)
  have "snd (utf8fromwcs (v @ [13])) = dec_digits k @ [13]"
    using utf8_ascii [OF dec_digits_ascii, of k] by (simp add: k(2) utf8_append dec_digits_ucast utf8_char_def)
  moreover have "length (dec_digits k :: byte list) = length v"
    using k(2) dec_digits_ucast [of k] by (metis length_map)
  moreover have "digits_value 0 v = k"
    by (simp add: k(2) dec_digits_value)
  ultimately show ?thesis
    using True assms k atoll_digits [OF k(1)]
    by (simp add: note_header_def length_after_def header_ok_def)
next
  case False
  then show ?thesis
    using assms by (simp add: note_header_def length_after_def header_ok_def)
qed

lemma response_line_header:
  assumes "header_ok (n, v)"
  shows "response_line (snd (utf8fromwcs (encode_header (n, v)))) (code, loc, h) =
    note_header n (v @ [13]) (code, loc, h)"
proof -
  let ?w = "encode_header (n, v)"
  have "list_all (\<lambda>c. c \<noteq> 0 \<and> c < 0x40000) ?w"
    using assms by (auto simp: header_ok_def encode_header_def char_ok_def list_all_iff)
  then have "UTF82W (snd (utf8fromwcs ?w)) = Some ?w"
    by (rule UTF82W_utf8)
  moreover have "find_sub ?w [58] = Some (length n)"
    using assms find_sub_char_append [of 58 n] by (simp add: header_ok_def encode_header_def)
  moreover have "trim_value (drop (Suc (length n)) ?w) = v @ [13]"
    using assms trim_value_crlf [of v] by (simp add: header_ok_def encode_header_def)
  moreover have "take (length n) ?w = n"
    by (simp add: encode_header_def)
  ultimately show ?thesis
    using assms by (simp add: response_line_def header_ok_def)
qed

lemma header_bytes:
  assumes "header_ok (n, v)"
  obtains l where "snd (utf8fromwcs (encode_header (n, v))) = l @ crlf" "10 \<notin> set l" "0 \<notin> set l" "l \<noteq> []"
    "length (l @ crlf) < 10240"
proof
  let ?l = "snd (utf8fromwcs (n @ [58, 32] @ v))"
  show eq: "snd (utf8fromwcs (encode_header (n, v))) = ?l @ crlf"
    by (simp add: encode_header_def utf8_append utf8_char_def case_prod_unfold)
  have "10 \<notin> set (n @ [58, 32] @ v)" "0 \<notin> set (n @ [58, 32] @ v)"
    using assms by (auto simp: header_ok_def char_ok_def list_all_iff)
  then show "10 \<notin> set ?l" "0 \<notin> set ?l"
    using utf8_not_in [of 10 "n @ [58, 32] @ v"] utf8_not_in [of 0 "n @ [58, 32] @ v"] by simp_all
  show "?l \<noteq> []"
    by (simp add: utf8_append utf8_char_def case_prod_unfold)
  show "length (?l @ crlf) < 10240"
    using assms eq by (simp add: header_ok_def)
qed

lemma recv_lines_headers:
  "list_all header_ok hs \<Longrightarrow>
   recv_lines [] (concat (map (\<lambda>h. snd (utf8fromwcs (encode_header h))) hs) @ crlf @ d) (code, loc, h) =
   Some ((code, loc, h\<lparr>h_headers := h_headers h @ map (\<lambda>(n, v). (n, v @ [13])) hs,
     h_content_length := foldl length_after (h_content_length h) hs\<rparr>), d)"
proof (induction hs arbitrary: h)
  case Nil
  then show ?case
    using recv_lines_end [of d] by simp
next
  case (Cons x hs)
  obtain n v where x: "x = (n, v)"
    by (cases x)
  then have ok: "header_ok (n, v)"
    using Cons.prems by simp
  obtain l where l: "snd (utf8fromwcs (encode_header (n, v))) = l @ crlf" "10 \<notin> set l" "0 \<notin> set l" "l \<noteq> []"
    "length (l @ crlf) < 10240"
    by (rule header_bytes [OF ok])
  have "response_line (l @ crlf) (code, loc, h) = note_header n (v @ [13]) (code, loc, h)"
    using response_line_header [OF ok] l(1) by simp
  then show ?case
    using recv_lines_line [OF l(2-5)] Cons by (simp add: x l(1) note_header_ok [OF ok] del: recv_lines.simps)
qed

lemma response_line_status:
  assumes "code < 2 ^ 31"
  shows "response_line (status_line code reason) (c, loc, h) = Some (int code, loc, h)"
proof -
  have "find_sub (status_line code reason) [32] = Some 8"
    using find_sub_char_append [of 32 "str8 ''HTTP/1.1''" "dec_digits code @ [32] @ reason @ crlf"]
    by (simp add: status_line_def str8_def)
  moreover have "drop (Suc 8) (status_line code reason) = dec_digits code @ 32 # reason @ crlf"
    by (simp add: status_line_def str8_def)
  moreover have "is_prefix_of (str8 ''HTTP'') (status_line code reason)"
    by (simp add: status_line_def str8_def)
  moreover have "list_all is_digit (dec_digits code :: byte list)"
    by (simp add: dec_digits_all)
  then have "wtoi (dec_digits code @ 32 # reason @ crlf :: byte list) = int code"
    using scan_int_digits [of "dec_digits code :: byte list" "32 # reason @ crlf"] assms
      wrap32_id [of "int code"]
    by (simp add: wtoi_def is_digit_def dec_digits_value)
  moreover have "str8 '' '' = [32]"
    by (simp add: str8_def)
  ultimately show ?thesis
    by (simp add: response_line_def)
qed

definition response_ok :: "nat \<Rightarrow> byte list \<Rightarrow> (wstr32 \<times> wstr32) list \<Rightarrow> bool" where
  "response_ok code reason hs \<longleftrightarrow> code < 2 ^ 31 \<and> 10 \<notin> set reason \<and> 0 \<notin> set reason \<and>
     length (status_line code reason) < 10240 \<and> list_all header_ok hs"

lemma recv_lines_response:
  assumes "response_ok code reason hs"
  shows "recv_lines [] (encode_response code reason hs @ d) (c, loc, h) =
   Some ((int code, loc, h\<lparr>h_headers := h_headers h @ map (\<lambda>(n, v). (n, v @ [13])) hs,
     h_content_length := foldl length_after (h_content_length h) hs\<rparr>), d)"
proof -
  let ?l = "str8 ''HTTP/1.1 '' @ dec_digits code @ [32] @ reason"
  have digits: "is_digit x \<Longrightarrow> x \<noteq> 10 \<and> x \<noteq> 0" for x :: byte
    by (auto simp: is_digit_def)
  have "10 \<notin> set ?l" "0 \<notin> set ?l" "?l \<noteq> []" "length (?l @ crlf) < 10240"
    using assms digits dec_digits_all [of code, where 'a = 8]
    by (auto simp: response_ok_def status_line_def str8_def list_all_iff)
  from recv_lines_line [OF this] show ?thesis
    using response_line_status [of code reason c loc h] assms recv_lines_headers [of hs d "int code" loc h]
    by (simp add: encode_response_def status_line_def response_ok_def del: recv_lines.simps)
qed

text \<open>Reading on: a call that does not fail and has data takes some of them.\<close>

lemma recv_content_step:
  assumes "h_sock h = Open d" "int (length buf) < len" "0 < k" "d \<noteq> []"
  obtains a e where "d = a @ e" "a \<noteq> []"
    "recv_content (Recv_upto k # sched) len buf h =
     recv_content sched len (buf @ a) (h\<lparr>h_sock := Open e, h_content_read := h_content_read h + int (length a)\<rparr>)"
proof
  let ?n = "min k (nat len - length buf)"
  have "0 < ?n"
    using assms(2,3) by simp
  then show a: "take ?n d \<noteq> []"
    using assms(4) by simp
  show "d = take ?n d @ drop ?n d"
    by simp
  have call: "recv_call (Recv_upto k) (nat len - length buf) (h_sock h) =
      (int (length (take ?n d)), take ?n d, Open (drop ?n d))"
    by (simp only: recv_call_def assms(1) prod.case socket.case recv_outcome.case Let_def)
  have tests: "\<not> int (length (take ?n d)) \<le> 0" "\<not> int (length buf) \<ge> len" "h_sock h \<noteq> Closed"
    using a assms(1,2) by (simp_all only: of_nat_le_0_iff length_0_conv not_False_eq_True not_le socket.distinct)
  show "recv_content (Recv_upto k # sched) len buf h =
     recv_content sched len (buf @ take ?n d)
       (h\<lparr>h_sock := Open (drop ?n d), h_content_read := h_content_read h + int (length (take ?n d))\<rparr>)"
    by (subst recv_content.simps) (simp only: call list.case prod.case if_False simp_thms tests)
qed

lemma recv_content_all:
  "h_sock h = Open d \<Longrightarrow> int (length buf + length d) \<le> len \<Longrightarrow> list_all (\<lambda>r. \<exists>k > 0. r = Recv_upto k) sched \<Longrightarrow>
   length d < length sched \<Longrightarrow>
   \<exists>h'. recv_content sched len buf h = Some (int (length buf + length d), buf @ d, h') \<and>
     h_content_read h' = h_content_read h + int (length d)"
proof (induction sched arbitrary: buf d h)
  case (Cons r sched)
  obtain k where r: "r = Recv_upto k" "0 < k"
    using Cons.prems by auto
  show ?case
  proof (cases "d = []")
    case True
    then show ?thesis
      using Cons.prems(1) r by (subst recv_content.simps) (simp add: recv_call_def)
  next
    case False
    then have "int (length buf) < len"
      using Cons.prems(2) by (cases d) auto
    then obtain a e where ae: "d = a @ e" "a \<noteq> []" "recv_content (r # sched) len buf h =
        recv_content sched len (buf @ a) (h\<lparr>h_sock := Open e, h_content_read := h_content_read h + int (length a)\<rparr>)"
      using recv_content_step [OF Cons.prems(1) _ r(2) False] r(1) by metis
    moreover have "length e < length sched"
      using Cons.prems(4) ae(1,2) by (cases a) auto
    ultimately show ?thesis
      using Cons.IH [of "h\<lparr>h_sock := Open e, h_content_read := h_content_read h + int (length a)\<rparr>" e "buf @ a"] Cons.prems
      by (simp add: add.assoc)
  qed
qed simp

text \<open>
  C30: what a server writes is what the client reports: from a response of a status line, any headers
  except \<open>Location\<close>, an empty line and a body, it takes the code, every header with its value (which keeps
  a carriage return), and the length; then a read returns the whole body, however the network cuts it.
\<close>

theorem response_is_read:
  assumes "response_ok code reason hs" "answers (h_log h) = encode_response code reason hs @ body"
    and "foldl length_after (h_content_length h) hs = int (length body)" "h_content_read h = 0"
    and "list_all (\<lambda>r. \<exists>k > 0. r = Recv_upto k) sched" "length body < length sched"
    and "int (length body) \<le> len" "len < 2 ^ 31"
  shows "\<exists>h1 h2. receive_response answers h = Some (int code, None, h1) \<and>
    h_headers h1 = h_headers h @ map (\<lambda>(n, v). (n, v @ [13])) hs \<and> h_content_length h1 = int (length body) \<and>
    read_content sched len h1 = Some (int (length body), body, h2)"
proof -
  let ?h1 = "h\<lparr>h_headers := h_headers h @ map (\<lambda>(n, v). (n, v @ [13])) hs,
    h_content_length := int (length body), h_sock := Open body\<rparr>"
  have recv: "receive_response answers h = Some (int code, None, ?h1)"
    using recv_lines_response [OF assms(1), of body 400 None h] assms(2,3) by (simp add: receive_response_def)
  have sz: "content_size len ?h1 = (if body = [] then len else int (length body))"
    using assms(4,7,8) wrap32_id [of "int (length body)"] by (auto simp: content_size_def min_def)
  have "\<exists>h2. read_content sched len ?h1 = Some (int (length body), body, h2)"
  proof (cases "content_size len ?h1 \<le> 0")
    case True
    then show ?thesis
      using sz by (cases body) (auto simp: read_content_def split: if_splits)
  next
    case False
    moreover have "int (length body) \<le> content_size len ?h1"
      using sz assms(7) by auto
    ultimately show ?thesis
      using recv_content_all [of ?h1 body "[]" "content_size len ?h1" sched] assms(5,6)
      by (auto simp: read_content_def Let_def)
  qed
  then show ?thesis
    using recv by auto
qed

lemma some_response:
  "response_ok 200 (str8 ''OK'') [(str32 ''Server'', str32 ''x''), (str32 ''Content-Length'', dec_digits 3)]"
proof -
  have d: "dec_digits 3 = ([51] :: u32 list)" "dec_digits 200 = ([50, 48, 48] :: byte list)"
    by (simp_all add: dec_digits.simps digit_char_def)
  have "dec_digits 3 = ([51] :: u32 list) \<Longrightarrow> \<exists>k < 2 ^ 63. ([51] :: u32 list) = dec_digits k"
    by (rule exI [of _ 3]) simp
  then show ?thesis
    by (simp add: d response_ok_def header_ok_def str8_def str32_def status_line_def encode_header_def char_ok_def
        utf8_char_def)
qed

theorem response_is_read_witness:
  "\<exists>h1 h2. receive_response
      (\<lambda>log. encode_response 200 (str8 ''OK'') [(str32 ''Server'', str32 ''x''), (str32 ''Content-Length'', dec_digits 3)] @
         str8 ''abc'') some_http = Some (int 200, None, h1) \<and>
    read_content (replicate 4 (Recv_upto 2)) 100 h1 = Some (3, str8 ''abc'', h2)"
proof -
  have "digits_value 0 (dec_digits 3 :: u32 list) = 3" "str32 ''Server'' \<noteq> str32 ''Content-Length''"
    by (simp_all add: dec_digits_value str32_def)
  then show ?thesis
    using response_is_read [OF some_response, where answers = "\<lambda>log. encode_response 200 (str8 ''OK'')
        [(str32 ''Server'', str32 ''x''), (str32 ''Content-Length'', dec_digits 3)] @ str8 ''abc''"
        and body = "str8 ''abc''" and h = some_http and sched = "replicate 4 (Recv_upto 2)" and len = 100]
    by (auto simp: length_after_def some_http_def list_all_iff)
qed

text \<open>
  The count of bytes read is never reset: when an object has read a response of some length, the content
  of a second response of the same length is not read at all.
\<close>

theorem second_response_unread:
  assumes "receive_response answers h = Some (code, loc, h1)" "h_content_length h1 = h_content_read h"
    and "0 < h_content_read h" "0 < len"
  shows "read_content sched len h1 = Some (0, [], h1)"
proof -
  have "h_content_read h1 = h_content_read h"
    using assms(1) by (auto simp: receive_response_def dest!: recv_lines_same same_request_simps(5))
  then have "content_size len h1 = 0"
    using assms(2-4) by (simp add: content_size_def wrap32_def)
  then show ?thesis
    by (simp add: read_content_def)
qed

end
