(* ===== verification/StereoBoxes.thy ===== *)
theory StereoBoxes
  imports Prelude
begin

text \<open>
  The container of .3dv files: the recursive walk of the demuxer over boxes (\<open>3dvSource/3dvDemuxer.cpp\<close>),
  and a reference writer of trees of boxes.  A file is the list of its bytes; it is shorter than 2 GB, so
  positions and sizes are natural numbers.  What the demuxer makes of a box is the subject of theory
  \<open>StereoFile\<close>; here it is a function on its state.
\<close>

section \<open>Double words\<close>

text \<open>A \<open>DWORD\<close> from its bytes in memory, and its bytes.\<close>

definition dword_of :: "byte \<Rightarrow> byte \<Rightarrow> byte \<Rightarrow> byte \<Rightarrow> u32" where
  "dword_of a b c d = word_of_int (be32 d c b a)"

definition byte_of :: "u32 \<Rightarrow> nat \<Rightarrow> byte" where
  "byte_of w k = ucast (drop_bit (8 * k) w)"

definition reverse_byte_order :: "u32 \<Rightarrow> u32" where
  "reverse_byte_order w = dword_of (byte_of w 3) (byte_of w 2) (byte_of w 1) (byte_of w 0)"

definition is_valid_fourcc :: "u32 \<Rightarrow> bool" where
  "is_valid_fourcc w \<longleftrightarrow> list_all (\<lambda>k. 0x31 \<le> byte_of w k \<and> byte_of w k \<le> 0x7A) [0, 1, 2, 3]"

definition dword_at :: "byte list \<Rightarrow> nat \<Rightarrow> u32 option" where
  "dword_at f i = do {
     a \<leftarrow> rd f (int i); b \<leftarrow> rd f (int i + 1); c \<leftarrow> rd f (int i + 2); d \<leftarrow> rd f (int i + 3);
     Some (dword_of a b c d) }"

text \<open>The header of a box: its name, and the size of what follows it.\<close>

definition box_header :: "byte list \<Rightarrow> nat \<Rightarrow> (u32 \<times> nat) option" where
  "box_header f i = do {
     ds \<leftarrow> dword_at f i; fc \<leftarrow> dword_at f (i + 4);
     Some (reverse_byte_order fc, unat (reverse_byte_order ds - 8)) }"

section \<open>The walk\<close>

text \<open>
  The second header that is read is that of a possible first child.  Whether it is one is guessed from its
  name and size; the result of the walk over the children is ignored.
\<close>

function demux_riff ::
  "byte list \<Rightarrow> (u32 \<Rightarrow> nat \<Rightarrow> nat \<Rightarrow> 's \<Rightarrow> 's option) \<Rightarrow> nat \<Rightarrow> nat \<Rightarrow> 's \<Rightarrow> (int \<times> 's) option" where
  "demux_riff f handle index n s =
     (if n < 8 then Some (0, s)
      else case box_header f index of
        None \<Rightarrow> None
      | Some (fourcc, data_size) \<Rightarrow>
          if data_size > n - 8 \<or> \<not> is_valid_fourcc fourcc then Some (-1, s)
          else case handle fourcc (index + 8) data_size s of
            None \<Rightarrow> None
          | Some s \<Rightarrow>
              (case (if n < 16 then Some s
                     else case box_header f (index + 8) of
                       None \<Rightarrow> None
                     | Some (child_fourcc, child_data_size) \<Rightarrow>
                         if is_valid_fourcc child_fourcc \<and> child_data_size \<le> n - 16
                         then map_option snd (demux_riff f handle (index + 8) data_size s) else Some s) of
                 None \<Rightarrow> None
               | Some s \<Rightarrow> demux_riff f handle (index + 8 + data_size) (n - 8 - data_size) s))"
  by pat_completeness auto
termination
  by (relation "measure (\<lambda>(f, handle, index, n, s). n)") auto

declare demux_riff.simps [simp del]

section \<open>Trees of boxes\<close>

text \<open>A box with a name of four bytes, around bytes or around boxes.\<close>

datatype box = Leaf "byte list" "byte list" | Node "byte list" "box list"

fun enc_box :: "box \<Rightarrow> byte list" where
  "enc_box (Leaf name d) = w32 (int (length d) + 8) @ name @ d"
| "enc_box (Node name bs) =
     w32 (int (length (concat (map enc_box bs))) + 8) @ name @ concat (map enc_box bs)"

abbreviation enc_boxes :: "box list \<Rightarrow> byte list" where
  "enc_boxes bs \<equiv> concat (map enc_box bs)"

fun payload :: "box \<Rightarrow> byte list" where
  "payload (Leaf name d) = d"
| "payload (Node name bs) = enc_boxes bs"

fun name_of :: "box \<Rightarrow> byte list" where
  "name_of (Leaf name d) = name"
| "name_of (Node name bs) = name"

definition fourcc_of :: "byte list \<Rightarrow> u32" where
  "fourcc_of n = word_of_int (be32 (n ! 0) (n ! 1) (n ! 2) (n ! 3))"

definition name_ok :: "byte list \<Rightarrow> bool" where
  "name_ok n \<longleftrightarrow> length n = 4 \<and> list_all (\<lambda>b. 0x31 \<le> b \<and> b \<le> 0x7A) n"

text \<open>The bytes of a leaf must not look like a box.\<close>

fun box_ok :: "box \<Rightarrow> bool" where
  "box_ok (Leaf name d) \<longleftrightarrow> name_ok name \<and> (length d < 8 \<or> \<not> name_ok (take 4 (drop 4 d)))"
| "box_ok (Node name bs) \<longleftrightarrow> name_ok name \<and> list_all box_ok bs"

text \<open>The boxes in the order in which a reader meets them, with the position and size of their contents.\<close>

fun visits :: "nat \<Rightarrow> box list \<Rightarrow> (u32 \<times> nat \<times> nat) list" where
  "visits i [] = []"
| "visits i (Leaf name d # rest) = (fourcc_of name, i + 8, length d) # visits (i + 8 + length d) rest"
| "visits i (Node name bs # rest) =
     (fourcc_of name, i + 8, length (enc_boxes bs)) # visits (i + 8) bs @ visits (i + 8 + length (enc_boxes bs)) rest"

fun handle_all :: "('c \<Rightarrow> 's \<Rightarrow> 's option) \<Rightarrow> 'c list \<Rightarrow> 's \<Rightarrow> 's option" where
  "handle_all h [] s = Some s"
| "handle_all h (v # vs) s = Option.bind (h v s) (handle_all h vs)"

lemma handle_all_append: "handle_all h (us @ vs) s = Option.bind (handle_all h us s) (handle_all h vs)"
  by (induction us arbitrary: s) (auto split: bind_split)

lemma uint_byte_of: "uint (byte_of w k) = uint w div 2 ^ (8 * k) mod 256"
proof -
  have "uint w mod 4294967296 = uint w"
    using uint_lt2p [of w] by simp
  then show ?thesis
    by (simp add: byte_of_def unsigned_ucast_eq unsigned_drop_bit_eq take_bit_eq_mod [where 'a = int]
        drop_bit_eq_div [where 'a = int])
qed

lemma be32_div:
  "be32 a b c d div 256 = (uint a * 256 + uint b) * 256 + uint c"
  "be32 a b c d div 65536 = uint a * 256 + uint b"
  "be32 a b c d div 16777216 = uint a"
proof -
  have step: "(y * 256 + uint x) div 256 = y" for y and x :: byte
    using byte_range [of x] by simp
  show "be32 a b c d div 256 = (uint a * 256 + uint b) * 256 + uint c"
    by (simp only: be32_def step)
  moreover have "be32 a b c d div 65536 = be32 a b c d div 256 div 256"
    "be32 a b c d div 16777216 = be32 a b c d div 256 div 256 div 256"
    by (simp_all add: zdiv_zmult2_eq [symmetric])
  ultimately show "be32 a b c d div 65536 = uint a * 256 + uint b" "be32 a b c d div 16777216 = uint a"
    by (simp_all only: step)
qed

lemma uint_dword_of: "uint (dword_of a b c d) = be32 d c b a"
  using be32_range [of d c b a] by (simp add: dword_of_def uint_word_of_int take_bit_eq_mod)

lemma byte_of_dword:
  "byte_of (dword_of a b c d) 0 = a" "byte_of (dword_of a b c d) (Suc 0) = b" "byte_of (dword_of a b c d) 1 = b"
  "byte_of (dword_of a b c d) 2 = c" "byte_of (dword_of a b c d) 3 = d"
proof -
  have last: "(y * 256 + uint x) mod 256 = uint x" for y and x :: byte
    using byte_range [of x] by simp
  have "be32 d c b a mod 256 = uint a"
    unfolding be32_def by (rule last)
  then show "byte_of (dword_of a b c d) 0 = a" "byte_of (dword_of a b c d) (Suc 0) = b"
    "byte_of (dword_of a b c d) 1 = b" "byte_of (dword_of a b c d) 2 = c" "byte_of (dword_of a b c d) 3 = d"
    using last [of "uint d * 256 + uint c" b] last [of "uint d" c] last [of 0 d]
    by (simp_all only: word_uint_eq_iff uint_byte_of uint_dword_of) (simp_all add: be32_div del: distrib_right_numeral)
qed

lemma reverse_dword: "reverse_byte_order (dword_of a b c d) = word_of_int (be32 a b c d)"
  unfolding reverse_byte_order_def byte_of_dword by (simp add: dword_of_def)

lemma valid_fourcc:
  "is_valid_fourcc (word_of_int (be32 a b c d)) = list_all (\<lambda>b. 0x31 \<le> b \<and> b \<le> 0x7A) [a, b, c, d]"
  by (subst dword_of_def [symmetric]) (auto simp: is_valid_fourcc_def byte_of_dword)

lemma list_4: "length xs = 4 \<Longrightarrow> xs = [xs ! 0, xs ! 1, xs ! 2, xs ! 3]"
  by (simp add: list_eq_iff_nth_eq nth_Cons split: nat.split) (auto simp: less_Suc_eq numeral_eq_Suc)

lemma dword_at_drop:
  assumes "drop i f = [a, b, c, d] @ r"
  shows "dword_at f i = Some (dword_of a b c d)"
  using rd_at [of f i 0] rd_at [of f i 1] rd_at [of f i 2] rd_at [of f i 3] assms
  by (simp add: dword_at_def rd_tail rd_def)

text \<open>What a header is read as, in bytes that are there.\<close>

lemma box_header_bytes:
  assumes "drop i f = xs @ ys @ r" "length xs = 4" "length ys = 4"
  shows "box_header f i = Some (fourcc_of ys, unat (fourcc_of xs - 8))"
    "is_valid_fourcc (fourcc_of ys) = name_ok ys"
proof -
  obtain a b c d where xs: "xs = [a, b, c, d]"
    using list_4 [OF assms(2)] by blast
  obtain a' b' c' d' where ys: "ys = [a', b', c', d']"
    using list_4 [OF assms(3)] by blast
  have "drop 4 (drop i f) = ys @ r"
    unfolding assms(1) using assms(2) by simp
  then have "drop (i + 4) f = ys @ r"
    by (simp add: add.commute)
  then have "dword_at f (i + 4) = Some (dword_of a' b' c' d')"
    unfolding ys by (rule dword_at_drop)
  moreover have "dword_at f i = Some (dword_of a b c d)"
    using assms(1) unfolding xs by (rule dword_at_drop)
  ultimately show "box_header f i = Some (fourcc_of ys, unat (fourcc_of xs - 8))"
    by (simp add: box_header_def reverse_dword fourcc_of_def xs ys)
  show "is_valid_fourcc (fourcc_of ys) = name_ok ys"
    by (simp add: fourcc_of_def name_ok_def valid_fourcc ys)
qed

lemma fourcc_of_w32:
  assumes "0 \<le> n" "n < 2 ^ 32"
  shows "fourcc_of (w32 n) = word_of_int n"
proof -
  obtain a b c d where "w32 n = [a, b, c, d]" "be32 a b c d = n"
    using assms by (rule be32_split)
  then show ?thesis
    by (simp add: fourcc_of_def)
qed

lemma enc_box_eq: "enc_box b = w32 (int (length (payload b)) + 8) @ name_of b @ payload b"
  by (cases b) simp_all

lemma box_ok_name: "box_ok b \<Longrightarrow> name_ok (name_of b)"
  by (cases b) simp_all

lemma box_header_enc:
  assumes "drop i f = enc_box b @ r" "length (payload b) < 2 ^ 31" "box_ok b"
  shows "box_header f i = Some (fourcc_of (name_of b), length (payload b))" "is_valid_fourcc (fourcc_of (name_of b))"
proof -
  have len: "length (name_of b) = 4"
    using box_ok_name [OF assms(3)] by (simp add: name_ok_def)
  have d: "drop i f = w32 (int (length (payload b)) + 8) @ name_of b @ (payload b @ r)"
    using assms(1) by (simp add: enc_box_eq)
  have "unat (word_of_int (int n + 8) - 8 :: u32) = n" if "n < 2 ^ 31" for n
  proof -
    have "word_of_int (int n + 8) - 8 = (of_nat n :: u32)"
      by (simp only: of_int_add of_int_of_nat_eq of_int_numeral add_diff_cancel)
    then show ?thesis
      using that by (simp only: unat_of_nat) simp
  qed
  then show "box_header f i = Some (fourcc_of (name_of b), length (payload b))"
    using box_header_bytes(1) [OF d _ len] assms(2) by (simp add: fourcc_of_w32)
  show "is_valid_fourcc (fourcc_of (name_of b))"
    using box_header_bytes(2) [OF d _ len] box_ok_name [OF assms(3)] by simp
qed

lemma short_walk: "n < 8 \<Longrightarrow> demux_riff f h i n s = Some (0, s)"
  by (subst demux_riff.simps) simp

text \<open>What the walk does with the children of a box, in a range of \<open>n\<close> bytes that begins with the box.\<close>

definition walk_child ::
  "byte list \<Rightarrow> (u32 \<Rightarrow> nat \<Rightarrow> nat \<Rightarrow> 's \<Rightarrow> 's option) \<Rightarrow> nat \<Rightarrow> nat \<Rightarrow> nat \<Rightarrow> 's \<Rightarrow> 's option" where
  "walk_child f h i k n s =
     (if n < 16 then Some s
      else case box_header f i of
        None \<Rightarrow> None
      | Some (c, m) \<Rightarrow>
          if is_valid_fourcc c \<and> m \<le> n - 16 then map_option snd (demux_riff f h i k s) else Some s)"

lemma walk_step:
  assumes "drop i f = enc_box b @ q" "box_ok b" "length f < 2 ^ 31" "8 + length (payload b) \<le> n"
  shows "demux_riff f h i n s = Option.bind (h (fourcc_of (name_of b)) (i + 8) (length (payload b)) s)
    (\<lambda>s. Option.bind (walk_child f h (i + 8) (length (payload b)) n s)
      (demux_riff f h (i + 8 + length (payload b)) (n - 8 - length (payload b))))"
proof -
  have "length (payload b) \<le> length (enc_box b)"
    by (simp add: enc_box_eq)
  moreover have "length (enc_box b) \<le> length f"
    using arg_cong [OF assms(1), of length] by simp
  ultimately have "length (payload b) < 2 ^ 31"
    using assms(3) by linarith
  moreover have "\<not> n < 8" "\<not> n - 8 < length (payload b)"
    using assms(4) by linarith+
  ultimately show ?thesis
    using box_header_enc [OF assms(1) _ assms(2)] by (subst demux_riff.simps) (simp add: walk_child_def split: bind_split option.split)
qed

lemma box_header_some: "i + 8 \<le> length f \<Longrightarrow> \<exists>c n. box_header f i = Some (c, n)"
  by (auto simp: box_header_def dword_at_def rd_def)

lemma walk_short: "k < 8 \<Longrightarrow> i + n \<le> length f + 8 \<Longrightarrow> walk_child f h i k n s = Some s"
  using box_header_some [of i f] by (auto simp: walk_child_def short_walk)

lemma walk_leaf:
  assumes "box_ok (Leaf name d)" "drop i f = d @ q" "i + n \<le> length f + 8"
  shows "walk_child f h i (length d) n s = Some s"
proof (cases "length d < 8")
  case False
  have "drop i f = take 4 d @ take 4 (drop 4 d) @ drop 8 d @ q"
    using assms(2) append_take_drop_id [of 4 d] append_take_drop_id [of 4 "drop 4 d"] by (metis append.assoc drop_drop
        numeral_plus_numeral semiring_norm(2) semiring_norm(6))
  from box_header_bytes [OF this] show ?thesis
    using False assms(1) by (simp add: walk_child_def)
qed (use assms(3) in \<open>simp add: walk_short\<close>)

lemma walk_node:
  assumes "list_all box_ok bs" "drop i f = enc_boxes bs @ q" "i + n \<le> length f + 8" "length f < 2 ^ 31"
    and "8 + length (enc_boxes bs) \<le> n"
  shows "walk_child f h i (length (enc_boxes bs)) n s = map_option snd (demux_riff f h i (length (enc_boxes bs)) s)"
proof (cases bs)
  case Nil
  then show ?thesis
    using assms(3) walk_short [of 0 i n f h s] by (simp add: short_walk)
next
  case (Cons b rest)
  have len: "length (enc_box b) = 8 + length (payload b)"
    using assms(1) Cons box_ok_name [of b] by (simp add: enc_box_eq name_ok_def)
  have "length (enc_boxes bs) \<le> length f"
    using arg_cong [OF assms(2), of length] by simp
  then have "length (payload b) < 2 ^ 31"
    using assms(4) Cons len by simp
  moreover have "drop i f = enc_box b @ enc_boxes rest @ q"
    using assms(2) Cons by simp
  moreover have "\<not> n < 16" "length (payload b) \<le> n - 16"
    using assms(5) Cons len by simp_all
  ultimately show ?thesis
    using box_header_enc [of i f b] assms(1) Cons by (simp add: walk_child_def)
qed

lemma drop_enc_box:
  assumes "drop i f = enc_box b @ q" "box_ok b"
  shows "drop (i + 8) f = payload b @ q" "drop (i + 8 + length (payload b)) f = q"
proof -
  have len: "length (name_of b) = 4"
    using box_ok_name [OF assms(2)] by (simp add: name_ok_def)
  have "drop 8 (drop i f) = payload b @ q"
    unfolding assms(1) enc_box_eq using len by simp
  moreover have "drop (length (payload b)) (payload b @ q) = q"
    by simp
  ultimately show "drop (i + 8) f = payload b @ q" "drop (i + 8 + length (payload b)) f = q"
    by (metis drop_drop add.commute)+
qed

lemma end_of_drop:
  assumes "drop i f = enc_box b @ q"
  shows "i + length (enc_box b @ q) = length f"
proof -
  have "drop i f \<noteq> []"
    unfolding assms enc_box_eq by (simp add: w32_def)
  then show ?thesis
    using arg_cong [OF assms, of length] by simp
qed

text \<open>The walk over a forest calls the handler for every box, in order.\<close>

lemma demux_visits:
  assumes "list_all box_ok bs" "drop i f = enc_boxes bs @ r" "length f < 2 ^ 31"
  shows "demux_riff f h i (length (enc_boxes bs)) s =
    map_option (Pair 0) (handle_all (\<lambda>(c, j, n). h c j n) (visits i bs) s)"
  using assms
proof (induction i bs arbitrary: r s rule: visits.induct)
  case (1 i)
  show ?case
    by (simp add: short_walk)
next
  case (2 i name d rest)
  let ?j = "i + 8 + length d" and ?n = "8 + length d + length (enc_boxes rest)"
  have len: "length name = 4"
    using "2.prems"(1) by (simp add: name_ok_def)
  have at: "drop i f = enc_box (Leaf name d) @ enc_boxes rest @ r"
    using "2.prems"(2) by simp
  have at': "drop (i + 8) f = d @ enc_boxes rest @ r" "drop ?j f = enc_boxes rest @ r"
    using drop_enc_box [OF at] "2.prems"(1) by simp_all
  have "walk_child f h (i + 8) (length d) ?n s' = Some s'" for s'
    using "2.prems"(1) end_of_drop [OF at] len by (intro walk_leaf [OF _ at'(1), of name]) simp_all
  moreover have "length (enc_boxes (Leaf name d # rest)) = ?n"
    using len by simp
  moreover have "list_all box_ok rest" "box_ok (Leaf name d)"
    using "2.prems"(1) by simp_all
  moreover note walk_step [OF at _ "2.prems"(3), of ?n h s]
  ultimately show ?case
    using "2.IH" [OF _ at'(2) "2.prems"(3)] by (simp add: add.assoc split: bind_split)
next
  case (3 i name bs rest)
  let ?k = "length (enc_boxes bs)"
  let ?j = "i + 8 + ?k" and ?n = "8 + ?k + length (enc_boxes rest)"
  have len: "length name = 4"
    using "3.prems"(1) by (simp add: name_ok_def)
  have at: "drop i f = enc_box (Node name bs) @ enc_boxes rest @ r"
    using "3.prems"(2) by simp
  have at': "drop (i + 8) f = enc_boxes bs @ enc_boxes rest @ r" "drop ?j f = enc_boxes rest @ r"
    using drop_enc_box [OF at] "3.prems"(1) by simp_all
  have ok: "list_all box_ok rest" "box_ok (Node name bs)" "list_all box_ok bs"
    using "3.prems"(1) by simp_all
  have "walk_child f h (i + 8) ?k ?n s' = handle_all (\<lambda>(c, j, n). h c j n) (visits (i + 8) bs) s'" for s'
    using walk_node [OF ok(3) at'(1), of ?n h s'] end_of_drop [OF at] len "3.prems"(3)
      "3.IH"(1) [OF ok(3) at'(1) "3.prems"(3), of s']
    by (simp add: option.map_comp comp_def option.map_ident)
  moreover have "length (enc_boxes (Node name bs # rest)) = ?n"
    using len by simp
  moreover note walk_step [OF at ok(2) "3.prems"(3), of ?n h s]
  ultimately show ?case
    using "3.IH"(2) [OF ok(1) at'(2) "3.prems"(3)] by (simp add: handle_all_append add.assoc split: bind_split)
qed

end
