(* ===== verification/StereoFile.thy ===== *)
theory StereoFile
  imports StereoBoxes
begin

text \<open>
  The .3dv source: what the demuxer makes of the boxes of a file (\<open>3dvSource/3dvDemuxer.cpp\<close>), and the
  pins that deliver the packets of a stream and seek in it (\<open>3dvSource/my12doomSource.cpp\<close>).
  \<^theory_text>\<open>None\<close> is the use of a stream or a table that does not exist, of a byte that was never read, or a
  division by zero; a table with a negative number of entries is not followed either.
\<close>

section \<open>Streams\<close>

record stream_3dv =
  st_type :: int
  packet_count :: int
  st_length :: int
  CBR :: int
  packet_index :: "u32 list option"
  packet_sizes :: "u32 list option"
  keyframe_count :: int
  keyframes :: "u32 list option"
  max_packet_size :: u32
  time_units :: int
  time_in_units :: int
  audio_sample_rate :: int
  audio_bit_depth :: int
  audio_channel :: int

definition zero_stream :: stream_3dv where
  "zero_stream = \<lparr>st_type = 0, packet_count = 0, st_length = 0, CBR = 0, packet_index = None, packet_sizes = None,
     keyframe_count = 0, keyframes = None, max_packet_size = 0, time_units = 0, time_in_units = 0,
     audio_sample_rate = 0, audio_bit_depth = 0, audio_channel = 0\<rparr>"

text \<open>\<open>data\<close> holds the first 200 bytes of the box.\<close>

definition data_byte :: "byte list \<Rightarrow> nat \<Rightarrow> nat \<Rightarrow> nat \<Rightarrow> int option" where
  "data_byte f index n k = (if k < min n 200 then map_option uint (rd f (int (index + k))) else None)"

definition data_dword :: "byte list \<Rightarrow> nat \<Rightarrow> nat \<Rightarrow> nat \<Rightarrow> int option" where
  "data_dword f index n k =
     (if k + 4 \<le> min n 200 then map_option (sint \<circ> reverse_byte_order) (dword_at f (index + k)) else None)"

text \<open>A table of \<open>count\<close> double words in the file; it may lie behind the end of its box.\<close>

fun those_dwords :: "byte list \<Rightarrow> nat \<Rightarrow> nat \<Rightarrow> u32 list option" where
  "those_dwords f i 0 = Some []"
| "those_dwords f i (Suc n) = do {
     w \<leftarrow> dword_at f i; ws \<leftarrow> those_dwords f (i + 4) n; Some (reverse_byte_order w # ws) }"

definition read_table :: "byte list \<Rightarrow> nat \<Rightarrow> int \<Rightarrow> u32 list option" where
  "read_table f i count = (if count < 0 then None else those_dwords f i (nat count))"

text \<open>\<open>current_track\<close> is the last stream.\<close>

definition on_track ::
  "(stream_3dv \<Rightarrow> stream_3dv option) \<Rightarrow> stream_3dv list \<Rightarrow> stream_3dv list option" where
  "on_track g ss = (if ss = [] then None else map_option (\<lambda>s. butlast ss @ [s]) (g (last ss)))"

definition stsd :: "byte list \<Rightarrow> nat \<Rightarrow> nat \<Rightarrow> stream_3dv \<Rightarrow> stream_3dv option" where
  "stsd f i n s =
     (if st_type s = 1 then do {
        codec \<leftarrow> data_byte f i n 11;
        ch \<leftarrow> data_byte f i n 33; bits \<leftarrow> data_byte f i n 35;
        r1 \<leftarrow> data_byte f i n 40; r0 \<leftarrow> data_byte f i n 41;
        Some (s\<lparr>st_type := if codec = 0x55 then 1 else 2, audio_channel := ch, audio_bit_depth := bits,
                audio_sample_rate := r1 * 256 + r0\<rparr>) }
      else Some s)"

definition stsz :: "byte list \<Rightarrow> nat \<Rightarrow> nat \<Rightarrow> stream_3dv \<Rightarrow> stream_3dv option" where
  "stsz f i n s = do {
     cbr \<leftarrow> data_dword f i n 4; count \<leftarrow> data_dword f i n 8;
     let s = s\<lparr>CBR := cbr, packet_count := count\<rparr>;
     if cbr \<noteq> 0 then Some s
     else do {
       ws \<leftarrow> read_table f (i + 12) count;
       Some (s\<lparr>packet_sizes := Some ws, max_packet_size := foldl max (max_packet_size s) ws\<rparr>) } }"

definition handle_data :: "byte list \<Rightarrow> u32 \<Rightarrow> nat \<Rightarrow> nat \<Rightarrow> stream_3dv list \<Rightarrow> stream_3dv list option" where
  "handle_data f fourcc i n ss =
     (if fourcc = 0x7472616B then Some (ss @ [zero_stream])
      else if fourcc = 0x746B6864
      then on_track (\<lambda>s. map_option (\<lambda>v. s\<lparr>st_length := v\<rparr>) (data_dword f i n 20)) ss
      else if fourcc = 0x6D646864
      then on_track (\<lambda>s. do {
        u \<leftarrow> data_dword f i n 12; t \<leftarrow> data_dword f i n 16; Some (s\<lparr>time_units := u, time_in_units := t\<rparr>) }) ss
      else if fourcc = 0x766D6864 then on_track (\<lambda>s. Some (s\<lparr>st_type := 0\<rparr>)) ss
      else if fourcc = 0x736D6864 then on_track (\<lambda>s. Some (s\<lparr>st_type := 1\<rparr>)) ss
      else if fourcc = 0x73747364 then on_track (stsd f i n) ss
      else if fourcc = 0x7374737A then on_track (stsz f i n) ss
      else if fourcc = 0x7374636F
      then on_track (\<lambda>s. map_option (\<lambda>ws. s\<lparr>packet_index := Some ws\<rparr>) (read_table f (i + 8) (packet_count s))) ss
      else if fourcc = 0x73747373
      then on_track (\<lambda>s. do {
        count \<leftarrow> data_dword f i n 4; ws \<leftarrow> read_table f (i + 8) count;
        Some (s\<lparr>keyframe_count := count, keyframes := Some (map (\<lambda>w. w - 1) ws)\<rparr>) }) ss
      else Some ss)"

text \<open>The constructor: the result of the walk is ignored.\<close>

definition load_3dv :: "byte list \<Rightarrow> stream_3dv list option" where
  "load_3dv f = map_option snd (demux_riff f (handle_data f) 0 (length f) [])"

section \<open>Delivering packets\<close>

record source_stream =
  ss_stream :: stream_3dv
  ss_frame_number :: int
  ss_stream_start :: int

definition new_source_stream :: "stream_3dv \<Rightarrow> source_stream" where
  "new_source_stream s = \<lparr>ss_stream = s, ss_frame_number = 0, ss_stream_start = 0\<rparr>"

definition wrap64 :: "int \<Rightarrow> int" where
  "wrap64 x = (x + 2 ^ 63) mod 2 ^ 64 - 2 ^ 63"

text \<open>\<open>(REFERENCE_TIME)n * length * 10000 / packet_count\<close>\<close>

definition frame_time :: "stream_3dv \<Rightarrow> int \<Rightarrow> int" where
  "frame_time s n = cdiv (wrap64 (n * st_length s * 10000)) (packet_count s)"

definition decide_buffer_size :: "stream_3dv \<Rightarrow> nat" where
  "decide_buffer_size s = (if CBR s \<noteq> 0 then unat (word_of_int (CBR s) :: u32) else unat (max_packet_size s))"

text \<open>
  A sample: its length, the bytes read into it, and its times.  \<open>cap\<close> is the size of its buffer.
  The file may end before the packet does; the rest of the sample is then what the buffer held.
\<close>

definition FillBuffer ::
  "byte list \<Rightarrow> nat \<Rightarrow> source_stream \<Rightarrow> (hresult \<times> (nat \<times> byte list \<times> int \<times> int) option \<times> source_stream) option" where
  "FillBuffer f cap p =
     (let s = ss_stream p; k = ss_frame_number p
      in if k \<ge> packet_count s then Some (S_FALSE, None, p)
         else do {
           n \<leftarrow> (if CBR s \<noteq> 0 then Some (word_of_int (CBR s)) else Option.bind (packet_sizes s) (\<lambda>ws. rd ws k));
           at \<leftarrow> Option.bind (packet_index s) (\<lambda>ws. rd ws k);
           let bs = slice (unat at) (unat n) f;
           if length bs > cap \<or> k < 0 then None
           else Some (S_OK, Some (unat n, bs, frame_time s (k + 1) - ss_stream_start p,
                                  frame_time s (k + 2) - ss_stream_start p),
                      p\<lparr>ss_frame_number := k + 1\<rparr>) })"

section \<open>The format of a stream\<close>

text \<open>
  The media type that a pin offers: of a video stream the time of a frame (the picture size is always 800 by
  480), of an audio stream the \<open>WAVEFORMATEX\<close> and the bytes behind it.
\<close>

record wave_format =
  wFormatTag :: nat
  nChannels :: int
  nSamplesPerSec :: int
  nAvgBytesPerSec :: int
  nBlockAlign :: nat
  wBitsPerSample :: int
  extra_data :: "byte list"

datatype media_type = Xvid_type int | Mp3_type wave_format | Aac_type wave_format | Other_audio_type wave_format

definition wave_format_of :: "stream_3dv \<Rightarrow> wave_format" where
  "wave_format_of s = \<lparr>wFormatTag = 0, nChannels = audio_channel s, nSamplesPerSec = audio_sample_rate s,
     nAvgBytesPerSec = cdiv (wrap32 (audio_channel s * audio_bit_depth s * audio_sample_rate s)) 8 mod 2 ^ 32,
     nBlockAlign = 0, wBitsPerSample = audio_bit_depth s, extra_data = []\<rparr>"

text \<open>The flag says whether there is a place for the result.\<close>

definition GetMediaType :: "int \<Rightarrow> bool \<Rightarrow> stream_3dv \<Rightarrow> (hresult \<times> media_type option) option" where
  "GetMediaType pos out s =
     (if \<not> out then Some (E_POINTER, None)
      else if pos < 0 then Some (E_INVALIDARG, None)
      else if pos > 0 then Some (VFW_S_NO_MORE_ITEMS, None)
      else if st_type s = 0
      then (if time_units s = 0 \<or> packet_count s = 0 then None
            else Some (S_OK, Some (Xvid_type (cdiv (cdiv (10000000 * time_in_units s) (time_units s)) (packet_count s)))))
      else Some (S_OK, Some
        (if st_type s = 1
         then Mp3_type ((wave_format_of s)\<lparr>wFormatTag := 0x55, nBlockAlign := 1,
           extra_data := [1, 0, 2, 0, 0, 0, 0x80, 1, 1, 0, 0, 0]\<rparr>)
         else if st_type s = 2
         then Aac_type ((wave_format_of s)\<lparr>wFormatTag := 0xff, nBlockAlign := 4, extra_data := [0x12, 0x90]\<rparr>)
         else Other_audio_type (wave_format_of s))))"

text \<open>A file whose video has no packets divides by zero here.\<close>

lemma GetMediaType_undefined:
  "GetMediaType 0 True s = None \<longleftrightarrow> st_type s = 0 \<and> (time_units s = 0 \<or> packet_count s = 0)"
  by (simp add: GetMediaType_def)

text \<open>A frame is not given more than its share of the duration.\<close>

lemma frame_time_bound:
  assumes "st_type s = 0" "0 < time_units s" "0 < packet_count s" "0 \<le> time_in_units s"
  shows "\<exists>t. GetMediaType 0 True s = Some (S_OK, Some (Xvid_type t)) \<and> 0 \<le> t \<and>
    t * packet_count s * time_units s \<le> 10000000 * time_in_units s"
proof -
  let ?q = "10000000 * time_in_units s div time_units s"
  have "?q div packet_count s * packet_count s \<le> ?q"
    using assms(3) by (metis div_mult_mod_eq le_add_same_cancel1 pos_mod_sign)
  then have "?q div packet_count s * packet_count s * time_units s \<le> ?q * time_units s"
    using assms(2) by (simp add: mult_right_mono)
  also have "\<dots> \<le> 10000000 * time_in_units s"
    using assms(2) by (metis div_mult_mod_eq le_add_same_cancel1 pos_mod_sign)
  finally show ?thesis
    using assms by (simp add: GetMediaType_def pos_imp_zdiv_nonneg_iff)
qed

section \<open>Seeking\<close>

text \<open>The second loop: a frame between two key frames.\<close>

fun between_keys :: "u32 \<Rightarrow> u32 list \<Rightarrow> u32 option" where
  "between_keys n (a # b # ks) = (if a < n \<and> n < b then Some a else between_keys n (b # ks))"
| "between_keys n _ = None"

definition seek_key :: "u32 list \<Rightarrow> int \<Rightarrow> int" where
  "seek_key ks k =
     (if word_of_int k \<in> set ks then k
      else case between_keys (word_of_int k) ks of Some a \<Rightarrow> sint a | None \<Rightarrow> sint (last ks))"

definition ChangeStart :: "int \<Rightarrow> source_stream \<Rightarrow> source_stream option" where
  "ChangeStart rt p =
     (let s = ss_stream p
      in if st_length s = 0 then None
         else (let k = wrap32 (cdiv (cdiv (wrap64 (rt * packet_count s)) (st_length s)) 10000);
                   p = p\<lparr>ss_stream_start := rt, ss_frame_number := k\<rparr>
               in if st_type s = 0 \<and> keyframe_count s > 0
                  then map_option (\<lambda>ks. p\<lparr>ss_frame_number := seek_key ks k\<rparr>) (keyframes s)
                  else Some p))"

text \<open>\<open>ChangeStop\<close> flushes the graph when the pin is past the new end.\<close>

definition ChangeStop_flushes :: "int \<Rightarrow> source_stream \<Rightarrow> bool option" where
  "ChangeStop_flushes rt p =
     (if packet_count (ss_stream p) = 0 then None
      else Some (\<not> frame_time (ss_stream p) (ss_frame_number p + 1) < rt))"

section \<open>Seeking finds key frames\<close>

lemma between_keys_greatest:
  assumes "sorted_wrt (<) (a # ks)" "a < n" "n \<notin> set (a # ks)"
  shows "\<exists>r. (case between_keys n (a # ks) of Some b \<Rightarrow> b | None \<Rightarrow> last (a # ks)) = r \<and> r \<in> set (a # ks) \<and> r < n \<and>
    (\<forall>b \<in> set (a # ks). b < n \<longrightarrow> b \<le> r)"
  using assms
proof (induction ks arbitrary: a)
  case (Cons b ks)
  show ?case
  proof (cases "n < b")
    case True
    with Cons.prems show ?thesis
      by (auto dest: less_trans)
  next
    case False
    then have "b < n"
      using Cons.prems(3) by (auto simp: not_less order_le_less)
    have "sorted_wrt (<) (b # ks)" "n \<notin> set (b # ks)" "a < b"
      using Cons.prems by simp_all
    with Cons.IH [OF _ \<open>b < n\<close>] obtain r where r: "(case between_keys n (b # ks) of Some b \<Rightarrow> b | None \<Rightarrow> last (b # ks)) = r"
      "r \<in> set (b # ks)" "r < n" "\<forall>b \<in> set (b # ks). b < n \<longrightarrow> b \<le> r"
      by blast
    then have "a \<le> r"
      using \<open>a < b\<close> \<open>b < n\<close> by fastforce
    moreover have "between_keys n (a # b # ks) = between_keys n (b # ks)" "last (a # b # ks) = last (b # ks)"
      using False by simp_all
    ultimately have "(case between_keys n (a # b # ks) of Some b \<Rightarrow> b | None \<Rightarrow> last (a # b # ks)) = r"
      using r(1) by (simp only:)
    with r \<open>a \<le> r\<close> show ?thesis
      by (intro exI [of _ r]) (simp del: between_keys.simps last.simps)
  qed
qed simp

lemma seek_key_Max:
  assumes "sorted_wrt (<) ks" "ks \<noteq> []" "hd ks = 0" "uint (last ks) < 2 ^ 31" "0 \<le> k" "k < 2 ^ 31"
  shows "seek_key ks k = Max {n \<in> uint ` set ks. n \<le> k}"
proof -
  obtain ks' where ks: "ks = 0 # ks'"
    using assms(2,3) by (cases ks) auto
  let ?n = "word_of_int k :: u32"
  have n: "uint ?n = k"
    using assms(5,6) by (simp add: uint_word_of_int take_bit_eq_mod)
  have le: "uint b \<le> k \<longleftrightarrow> b \<le> ?n" for b
    by (simp add: word_le_def n)
  show ?thesis
  proof (cases "?n \<in> set ks")
    case True
    then have "Max {n \<in> uint ` set ks. n \<le> k} = k"
      by (intro Max_eqI) (simp_all, metis n image_eqI)
    with True show ?thesis
      by (simp add: seek_key_def)
  next
    case False
    moreover have "0 < ?n"
      using False ks by (metis list.set_intros(1) word_gt_0)
    ultimately obtain r where r: "(case between_keys ?n ks of Some b \<Rightarrow> b | None \<Rightarrow> last ks) = r" "r \<in> set ks" "r < ?n"
      "\<forall>b \<in> set ks. b < ?n \<longrightarrow> b \<le> r"
      using between_keys_greatest [of 0 ks' ?n] assms(1) unfolding ks by blast
    have "uint r < 2 ^ 31"
      using r(3) n assms(6) by (simp add: word_less_def)
    then have "sint r = uint r"
      using order_trans [OF _ uint_ge_0 [of r], of "- (2 ^ 31)"]
      by (subst sint_uint) (rule signed_take_bit_int_eq_self; simp)
    then have "seek_key ks k = uint r"
      using False r(1) by (auto simp: seek_key_def split: option.splits)
    moreover have "Max {n \<in> uint ` set ks. n \<le> k} = uint r"
    proof (rule Max_eqI)
      show "uint r \<in> {n \<in> uint ` set ks. n \<le> k}"
        using r(2,3) le by simp
      show "m \<le> uint r" if m: "m \<in> {n \<in> uint ` set ks. n \<le> k}" for m
      proof -
        obtain x where x: "m = uint x" "x \<in> set ks" "x \<le> ?n"
          using m le by auto
        then have "x < ?n"
          using False by (metis order_le_less)
        then show ?thesis
          using r(4) x by (simp add: word_le_def)
      qed
    qed simp
    ultimately show ?thesis
      by simp
  qed
qed

text \<open>
  C36: Seeking in a video stream whose key frames are listed in order, beginning with the first frame, goes
  to the last key frame that is not behind the frame at the time asked for, and remembers that time.
\<close>

theorem seek_finds_keyframe:
  assumes "st_type (ss_stream p) = 0" "0 < keyframe_count (ss_stream p)" "keyframes (ss_stream p) = Some ks"
    and "sorted_wrt (<) ks" "ks \<noteq> []" "hd ks = 0" "uint (last ks) < 2 ^ 31"
    and "0 < st_length (ss_stream p)" "0 \<le> packet_count (ss_stream p)" "0 \<le> rt" "rt * packet_count (ss_stream p) < 2 ^ 63"
    and "k = rt * packet_count (ss_stream p) div st_length (ss_stream p) div 10000" "k < 2 ^ 31"
  shows "ChangeStart rt p =
    Some (p\<lparr>ss_stream_start := rt, ss_frame_number := Max {n \<in> uint ` set ks. n \<le> k}\<rparr>)"
proof -
  have nonneg: "0 \<le> rt * packet_count (ss_stream p)" "0 \<le> rt * packet_count (ss_stream p) div st_length (ss_stream p)"
    using assms(8-10) by (simp_all add: pos_imp_zdiv_nonneg_iff)
  then have "0 \<le> k"
    unfolding assms(12) by (simp add: pos_imp_zdiv_nonneg_iff)
  moreover have "wrap64 (rt * packet_count (ss_stream p)) = rt * packet_count (ss_stream p)"
    using nonneg(1) assms(11) by (simp add: wrap64_def)
  then have "wrap32 (cdiv (cdiv (wrap64 (rt * packet_count (ss_stream p))) (st_length (ss_stream p))) 10000) = k"
    using nonneg assms(8,13) \<open>0 \<le> k\<close> unfolding assms(12) by (simp add: wrap32_id)
  ultimately show ?thesis
    using assms(1-3,8) seek_key_Max [OF assms(4-7) _ assms(13)] by (simp add: ChangeStart_def Let_def)
qed

definition some_video :: source_stream where
  "some_video = new_source_stream (zero_stream\<lparr>packet_count := 100, st_length := 4000, keyframe_count := 3,
     keyframes := Some [0, 30, 60]\<rparr>)"

theorem seek_finds_keyframe_witness:
  "ChangeStart 20000000 some_video =
    Some (some_video\<lparr>ss_stream_start := 20000000, ss_frame_number := Max {n \<in> uint ` set [0, 30, 60 :: u32]. n \<le> 50}\<rparr>)"
  using seek_finds_keyframe [of some_video "[0, 30, 60]" 20000000 50]
  by (simp add: some_video_def new_source_stream_def zero_stream_def)

text \<open>A time before the first key frame leads to the last one.\<close>

theorem seek_before_first_key:
  "ks \<noteq> [] \<Longrightarrow> word_of_int k < hd ks \<Longrightarrow> sorted_wrt (<) ks \<Longrightarrow> seek_key ks k = sint (last ks)"
proof -
  assume "ks \<noteq> []" "word_of_int k < hd ks" "sorted_wrt (<) ks"
  moreover have "n < hd us \<Longrightarrow> sorted_wrt (<) us \<Longrightarrow> between_keys n us = None" for n us
    by (induction n us rule: between_keys.induct) auto
  moreover have "word_of_int k \<notin> set ks"
    using calculation(1-3) by (cases ks) auto
  ultimately show ?thesis
    by (simp add: seek_key_def)
qed

section \<open>Buffers are large enough\<close>

text \<open>What every handler keeps, the walk keeps.\<close>

lemma demux_riff_invariant:
  assumes "\<And>c j m s s'. h c j m s = Some s' \<Longrightarrow> P s \<Longrightarrow> P s'"
  shows "demux_riff f h i n s = Some (r, s') \<Longrightarrow> P s \<Longrightarrow> P s'"
proof (induction n arbitrary: i s r s' rule: less_induct)
  case (less n)
  show ?case
  proof (cases "n < 8")
    case True
    with less.prems show ?thesis
      by (simp add: short_walk)
  next
    case False
    obtain c m where hd: "box_header f i = Some (c, m)"
      using less.prems(1) False by (subst (asm) demux_riff.simps) (auto split: option.splits)
    show ?thesis
    proof (cases "m > n - 8 \<or> \<not> is_valid_fourcc c")
      case True
      with less.prems False hd show ?thesis
        by (subst (asm) demux_riff.simps) simp
    next
      case ok: False
      then obtain s1 s2 where s: "h c (i + 8) m s = Some s1" "walk_child f h (i + 8) m n s1 = Some s2"
        "demux_riff f h (i + 8 + m) (n - 8 - m) s2 = Some (r, s')"
        using less.prems(1) False hd
        by (subst (asm) demux_riff.simps) (auto simp: walk_child_def split: option.splits if_splits)
      have "P s1"
        using assms s(1) less.prems(2) by blast
      moreover have "P s2" if "P s1"
        using s(2) that less.IH [of m "i + 8"] ok False
        by (auto simp: walk_child_def split: if_splits option.splits prod.splits)
      ultimately show ?thesis
        using less.IH [OF _ s(3)] False by simp
    qed
  qed
qed

definition sizes_ok :: "stream_3dv \<Rightarrow> bool" where
  "sizes_ok s \<longleftrightarrow> (case packet_sizes s of None \<Rightarrow> True | Some ws \<Rightarrow> list_all (\<lambda>w. w \<le> max_packet_size s) ws)"

lemma foldl_max: "list_all (\<lambda>w. w \<le> foldl max (m :: u32) ws) ws \<and> m \<le> foldl max m ws"
proof (induction ws arbitrary: m)
  case (Cons w ws)
  from Cons [of "max m w"] show ?case
    by (auto simp: max_def split: if_splits)
qed simp

lemma stsz_sizes:
  assumes "stsz f i n s = Some s'" "sizes_ok s"
  shows "sizes_ok s'"
proof -
  obtain cbr count where *: "data_dword f i n 4 = Some cbr" "data_dword f i n 8 = Some count"
    using assms(1) by (auto simp: stsz_def bind_eq_Some_conv)
  show ?thesis
  proof (cases "cbr = 0")
    case True
    with assms(1) * obtain ws where "s' = s\<lparr>CBR := cbr, packet_count := count, packet_sizes := Some ws,
        max_packet_size := foldl max (max_packet_size s) ws\<rparr>"
      by (auto simp: stsz_def bind_eq_Some_conv Let_def)
    then show ?thesis
      using foldl_max by (simp add: sizes_ok_def)
  next
    case False
    with assms * show ?thesis
      by (auto simp: stsz_def Let_def sizes_ok_def split: option.split)
  qed
qed

lemma stsd_sizes: "stsd f i n s = Some s' \<Longrightarrow> sizes_ok s \<Longrightarrow> sizes_ok s'"
  by (auto simp: stsd_def sizes_ok_def bind_eq_Some_conv split: if_splits option.splits)

lemma on_track_keeps:
  assumes "on_track g ss = Some ss'" "list_all P ss" "\<And>s s'. g s = Some s' \<Longrightarrow> P s \<Longrightarrow> P s'"
  shows "list_all P ss'"
proof -
  obtain us s where "ss = us @ [s]"
    using assms(1) by (cases ss rule: rev_cases) (auto simp: on_track_def)
  then show ?thesis
    using assms by (auto simp: on_track_def)
qed

lemma handle_data_sizes: "handle_data f c i n ss = Some ss' \<Longrightarrow> list_all sizes_ok ss \<Longrightarrow> list_all sizes_ok ss'"
  unfolding handle_data_def
  by (auto split: if_splits elim!: on_track_keeps stsz_sizes stsd_sizes simp: bind_eq_Some_conv)
    (auto simp: sizes_ok_def zero_stream_def split: option.splits)

end
