(* ===== verification/StereoPlay.thy ===== *)
theory StereoPlay
  imports StereoFile
begin

text \<open>
  From the bytes of a .3dv file to the samples of its streams: a reference writer of files with any number
  of tracks, and the proof that the source plays what was written.
\<close>

section \<open>Handling the contents of boxes\<close>

lemma rd_append: "rd d i = Some v \<Longrightarrow> rd (d @ q) i = Some v"
  by (auto simp: rd_eq_Some_iff nth_append)

lemma dword_at_append: "dword_at d k = Some w \<Longrightarrow> dword_at (d @ q) k = Some w"
  by (auto simp: dword_at_def bind_eq_Some_conv) (metis rd_append)

lemma dword_at_add: "dword_at f (i + k) = dword_at (drop i f) k"
  using rd_at [of f i k] rd_at [of f i "k + 1"] rd_at [of f i "k + 2"] rd_at [of f i "k + 3"]
  by (simp add: dword_at_def ac_simps)

lemma those_dwords_in:
  "those_dwords d k n = Some ws \<Longrightarrow> drop i f = d @ q \<Longrightarrow> those_dwords f (i + k) n = Some ws"
proof (induction n arbitrary: k ws)
  case (Suc n)
  from Suc.prems(1) obtain w us where w: "dword_at d k = Some w" "those_dwords d (k + 4) n = Some us"
    "ws = reverse_byte_order w # us"
    by (auto simp: bind_eq_Some_conv)
  have "dword_at f (i + k) = Some w"
    using dword_at_append [OF w(1), of q] Suc.prems(2) by (simp add: dword_at_add)
  then show ?case
    using Suc.IH [OF w(2) Suc.prems(2)] w(3) by (simp add: add.assoc)
qed simp

lemma read_table_in: "read_table d k n = Some ws \<Longrightarrow> drop i f = d @ q \<Longrightarrow> read_table f (i + k) n = Some ws"
  by (auto simp: read_table_def those_dwords_in split: if_splits)

lemma data_byte_in: "data_byte d 0 n k = Some v \<Longrightarrow> drop i f = d @ q \<Longrightarrow> data_byte f i n k = Some v"
  using rd_at [of f i k] by (auto simp: data_byte_def rd_eq_Some_iff nth_append split: if_splits)

lemma data_dword_in: "data_dword d 0 n k = Some v \<Longrightarrow> drop i f = d @ q \<Longrightarrow> data_dword f i n k = Some v"
  by (auto simp: data_dword_def dword_at_add dest: dword_at_append split: if_splits)

lemma on_track_in: "on_track g ss = Some ss' \<Longrightarrow> (\<And>s s'. g s = Some s' \<Longrightarrow> h s = Some s') \<Longrightarrow> on_track h ss = Some ss'"
  by (auto simp: on_track_def split: if_splits)

lemma stsd_in: "stsd d 0 n s = Some s' \<Longrightarrow> drop i f = d @ q \<Longrightarrow> stsd f i n s = Some s'"
  using data_byte_in [of d n _ _ i f q] by (auto simp: stsd_def bind_eq_Some_conv split: if_splits)

lemma stsz_in:
  assumes "stsz d 0 n s = Some s'" "drop i f = d @ q"
  shows "stsz f i n s = Some s'"
proof -
  obtain cbr count where *: "data_dword d 0 n 4 = Some cbr" "data_dword d 0 n 8 = Some count"
    using assms(1) by (auto simp: stsz_def bind_eq_Some_conv)
  note ** = * [THEN data_dword_in [OF _ assms(2)]]
  show ?thesis
  proof (cases "cbr = 0")
    case True
    with assms(1) * obtain ws where ws: "read_table d 12 count = Some ws"
      by (auto simp: stsz_def bind_eq_Some_conv Let_def)
    show ?thesis
      using assms(1) * ** ws read_table_in [OF ws assms(2)] True by (simp add: stsz_def Let_def)
  next
    case False
    with assms(1) * ** show ?thesis
      by (simp add: stsz_def Let_def)
  qed
qed

text \<open>A box that is handled as a file of its own is handled in the same way inside a file.\<close>

lemma handle_data_in:
  assumes "handle_data d c 0 n ss = Some ss'" "drop i f = d @ q"
  shows "handle_data f c i n ss = Some ss'"
proof -
  note ins = data_dword_in [OF _ assms(2)] read_table_in [OF _ assms(2)] stsd_in [OF _ assms(2)] stsz_in [OF _ assms(2)]
  show ?thesis
    using assms(1) unfolding handle_data_def
    by (auto simp: bind_eq_Some_conv split: if_splits elim!: on_track_in intro: ins) (metis ins(1,2))+
qed

text \<open>The boxes in order with their contents, and handling them one by one.\<close>

fun box_contents :: "box list \<Rightarrow> (u32 \<times> byte list) list" where
  "box_contents [] = []"
| "box_contents (Leaf name d # rest) = (fourcc_of name, d) # box_contents rest"
| "box_contents (Node name bs # rest) = (fourcc_of name, enc_boxes bs) # box_contents bs @ box_contents rest"

definition handle_box :: "u32 \<times> byte list \<Rightarrow> stream_3dv list \<Rightarrow> stream_3dv list option" where
  "handle_box = (\<lambda>(c, d). handle_data d c 0 (length d))"

lemma handle_visits:
  assumes "list_all box_ok bs" "drop i f = enc_boxes bs @ q" "handle_all handle_box (box_contents bs) s = Some s'"
  shows "handle_all (\<lambda>(c, j, n). handle_data f c j n) (visits i bs) s = Some s'"
  using assms
proof (induction i bs arbitrary: q s s' rule: visits.induct)
  case (2 i name d rest)
  have at: "drop i f = enc_box (Leaf name d) @ enc_boxes rest @ q"
    using "2.prems"(2) by simp
  have at': "drop (i + 8) f = d @ enc_boxes rest @ q" "drop (i + 8 + length d) f = enc_boxes rest @ q"
    using drop_enc_box [OF at] "2.prems"(1) by simp_all
  show ?case
    using "2.prems"(1,3) handle_data_in [OF _ at'(1)] "2.IH" [OF _ at'(2)]
    by (auto simp: handle_box_def bind_eq_Some_conv)
next
  case (3 i name bs rest)
  have at: "drop i f = enc_box (Node name bs) @ enc_boxes rest @ q"
    using "3.prems"(2) by simp
  have at': "drop (i + 8) f = enc_boxes bs @ enc_boxes rest @ q"
    "drop (i + 8 + length (enc_boxes bs)) f = enc_boxes rest @ q"
    using drop_enc_box [OF at] "3.prems"(1) by simp_all
  obtain s1 s2 where s: "handle_box (fourcc_of name, enc_boxes bs) s = Some s1"
    "handle_all handle_box (box_contents bs) s1 = Some s2" "handle_all handle_box (box_contents rest) s2 = Some s'"
    using "3.prems"(3) by (auto simp: handle_all_append bind_eq_Some_conv)
  have "handle_data f (fourcc_of name) (i + 8) (length (enc_boxes bs)) s = Some s1"
    using s(1) handle_data_in [OF _ at'(1)] by (simp add: handle_box_def)
  then show ?case
    using "3.IH"(1) [OF _ at'(1) s(2)] "3.IH"(2) [OF _ at'(2) s(3)] "3.prems"(1) by (simp add: handle_all_append)
qed simp

section \<open>Writing a file\<close>

definition nm :: "string \<Rightarrow> byte list" where
  "nm = map of_char"

definition dword_list :: "nat list \<Rightarrow> byte list" where
  "dword_list ns = concat (map (\<lambda>n. w32 (int n)) ns)"

text \<open>\<open>tr_packets\<close> are the positions and sizes of the packets; with \<open>tr_cbr\<close> not 0 all have that size.\<close>

record track =
  tr_video :: bool
  tr_mp3 :: bool
  tr_length :: nat
  tr_units :: nat
  tr_in_units :: nat
  tr_channel :: byte
  tr_bits :: byte
  tr_rate :: nat
  tr_cbr :: nat
  tr_packets :: "(nat \<times> nat) list"
  tr_keys :: "nat list"

definition tkhd_data :: "track \<Rightarrow> byte list" where
  "tkhd_data t = replicate 20 0 @ w32 (int (tr_length t))"

definition mdhd_data :: "track \<Rightarrow> byte list" where
  "mdhd_data t = replicate 12 0 @ w32 (int (tr_units t)) @ w32 (int (tr_in_units t))"

definition stsd_data :: "track \<Rightarrow> byte list" where
  "stsd_data t = replicate 11 0 @ [if tr_mp3 t then 0x55 else 0x40] @ replicate 21 0 @
     [tr_channel t, 0, tr_bits t] @ replicate 4 0 @ w16 (int (tr_rate t))"

definition stsz_data :: "track \<Rightarrow> byte list" where
  "stsz_data t = replicate 4 0 @ w32 (int (tr_cbr t)) @ w32 (int (length (tr_packets t))) @
     (if tr_cbr t = 0 then dword_list (map snd (tr_packets t)) else [])"

definition stco_data :: "track \<Rightarrow> byte list" where
  "stco_data t = replicate 4 0 @ w32 (int (length (tr_packets t))) @ dword_list (map fst (tr_packets t))"

definition stss_data :: "track \<Rightarrow> byte list" where
  "stss_data t = replicate 4 0 @ w32 (int (length (tr_keys t))) @ dword_list (map Suc (tr_keys t))"

definition trak_box :: "track \<Rightarrow> box" where
  "trak_box t = Node (nm ''trak'') [Leaf (nm ''tkhd'') (tkhd_data t), Node (nm ''mdia'') [Leaf (nm ''mdhd'') (mdhd_data t),
     Leaf (nm (if tr_video t then ''vmhd'' else ''smhd'')) [], Node (nm ''stbl'') [Leaf (nm ''stsd'') (stsd_data t),
       Leaf (nm ''stsz'') (stsz_data t), Leaf (nm ''stco'') (stco_data t), Leaf (nm ''stss'') (stss_data t)]]]"

definition three_dv :: "track list \<Rightarrow> byte list \<Rightarrow> byte list" where
  "three_dv ts d = enc_boxes [Node (nm ''moov'') (map trak_box ts), Leaf (nm ''mdat'') d]"

definition track_ok :: "track \<Rightarrow> bool" where
  "track_ok t \<longleftrightarrow> tr_length t < 2 ^ 31 \<and> tr_units t < 2 ^ 31 \<and> tr_in_units t < 2 ^ 31 \<and> tr_rate t < 2 ^ 16 \<and>
     tr_cbr t < 2 ^ 24 \<and> length (tr_packets t) < 2 ^ 24 \<and> length (tr_keys t) < 2 ^ 24 \<and>
     list_all (\<lambda>(a, n). a < 2 ^ 32 \<and> n < 2 ^ 32) (tr_packets t) \<and> list_all (\<lambda>k. k < 2 ^ 32 - 1) (tr_keys t)"

definition stream_of :: "track \<Rightarrow> stream_3dv" where
  "stream_of t =
     (let sizes = map (of_nat \<circ> snd) (tr_packets t); audio = (\<lambda>v. if tr_video t then 0 else v)
      in \<lparr>st_type = audio (if tr_mp3 t then 1 else 2), packet_count = int (length (tr_packets t)),
          st_length = int (tr_length t), CBR = int (tr_cbr t),
          packet_index = Some (map (of_nat \<circ> fst) (tr_packets t)),
          packet_sizes = (if tr_cbr t = 0 then Some sizes else None),
          keyframe_count = int (length (tr_keys t)), keyframes = Some (map of_nat (tr_keys t)),
          max_packet_size = (if tr_cbr t = 0 then foldl max 0 sizes else 0),
          time_units = int (tr_units t), time_in_units = int (tr_in_units t),
          audio_sample_rate = audio (int (tr_rate t)), audio_bit_depth = audio (uint (tr_bits t)),
          audio_channel = audio (uint (tr_channel t))\<rparr>)"

section \<open>Reading the boxes of a track\<close>

lemma dword_at_w32:
  assumes "drop k d = w32 n @ q" "0 \<le> n" "n < 2 ^ 32"
  shows "map_option reverse_byte_order (dword_at d k) = Some (word_of_int n)"
proof -
  obtain a b c e where *: "w32 n = [a, b, c, e]" "be32 a b c e = n"
    using assms(2,3) by (rule be32_split)
  show ?thesis
    using dword_at_drop [of k d a b c e q] assms(1) * by (simp add: reverse_dword)
qed

lemma data_dword_w32:
  assumes "drop k d = w32 (int n) @ q" "k + 4 \<le> 200" "n < 2 ^ 31" "length d = m"
  shows "data_dword d 0 m k = Some (int n)"
proof -
  obtain w where w: "dword_at d k = Some w" "reverse_byte_order w = word_of_int (int n)"
    using dword_at_w32 [OF assms(1)] assms(3) by auto
  have "k + 4 \<le> length d"
    using arg_cong [OF assms(1), of length] by simp
  moreover have "sint (word_of_int (int n) :: u32) = int n"
    using assms(3) by (subst sint_uint) (simp add: unsigned_of_nat take_bit_nat_eq_self signed_take_bit_int_eq_self)
  ultimately show ?thesis
    using assms(2,4) w by (simp add: data_dword_def)
qed

lemma those_dwords:
  assumes "drop k d = dword_list ns @ q" "list_all (\<lambda>n. n < 2 ^ 32) ns"
  shows "those_dwords d k (length ns) = Some (map of_nat ns)"
  using assms
proof (induction ns arbitrary: k)
  case (Cons n ns)
  have at: "drop k d = w32 (int n) @ dword_list ns @ q"
    using Cons.prems(1) by (simp add: dword_list_def)
  moreover have "drop (k + 4) d = dword_list ns @ q"
    using arg_cong [OF at, of "drop 4"] by (simp add: add.commute)
  ultimately show ?case
    using dword_at_w32 [of k d "int n"] Cons by auto
qed (simp add: dword_list_def)

lemma read_table_dwords:
  "drop k d = dword_list ns @ q \<Longrightarrow> list_all (\<lambda>n. n < 2 ^ 32) ns \<Longrightarrow> length ns = m \<Longrightarrow>
   read_table d k (int m) = Some (map of_nat ns)"
  using those_dwords by (auto simp: read_table_def)

lemma on_track_last: "on_track g (us @ [s]) = map_option (\<lambda>s. us @ [s]) (g s)"
  by (simp add: on_track_def)

lemma fourcc_names:
  "fourcc_of (nm ''trak'') = 0x7472616B" "fourcc_of (nm ''tkhd'') = 0x746B6864" "fourcc_of (nm ''mdhd'') = 0x6D646864"
  "fourcc_of (nm ''vmhd'') = 0x766D6864" "fourcc_of (nm ''smhd'') = 0x736D6864" "fourcc_of (nm ''stsd'') = 0x73747364"
  "fourcc_of (nm ''stsz'') = 0x7374737A" "fourcc_of (nm ''stco'') = 0x7374636F" "fourcc_of (nm ''stss'') = 0x73747373"
  "fourcc_of (nm ''mdia'') = 0x6D646961" "fourcc_of (nm ''stbl'') = 0x7374626C" "fourcc_of (nm ''moov'') = 0x6D6F6F76"
  "fourcc_of (nm ''mdat'') = 0x6D646174"
  by (simp_all add: fourcc_of_def nm_def be32_def)

lemma drop_replicate_append: "drop n (replicate n x @ xs) = xs"
  by simp

lemma handle_trak: "handle_box (fourcc_of (nm ''trak''), d) ss = Some (ss @ [zero_stream])"
  by (simp add: handle_box_def handle_data_def fourcc_names)

lemma handle_others:
  "handle_box (fourcc_of (nm ''mdia''), d) ss = Some ss" "handle_box (fourcc_of (nm ''stbl''), d) ss = Some ss"
  "handle_box (fourcc_of (nm ''moov''), d) ss = Some ss" "handle_box (fourcc_of (nm ''mdat''), d) ss = Some ss"
  by (simp_all add: handle_box_def handle_data_def fourcc_names)

lemma handle_tkhd:
  assumes "track_ok t"
  shows "handle_box (fourcc_of (nm ''tkhd''), tkhd_data t) (us @ [s]) = Some (us @ [s\<lparr>st_length := int (tr_length t)\<rparr>])"
proof -
  have "data_dword (tkhd_data t) 0 (length (tkhd_data t)) 20 = Some (int (tr_length t))"
    using assms by (intro data_dword_w32 [where q = "[]"]) (simp_all add: tkhd_data_def track_ok_def)
  then show ?thesis
    by (simp add: handle_box_def handle_data_def fourcc_names on_track_last)
qed

lemma handle_mdhd:
  assumes "track_ok t"
  shows "handle_box (fourcc_of (nm ''mdhd''), mdhd_data t) (us @ [s]) =
    Some (us @ [s\<lparr>time_units := int (tr_units t), time_in_units := int (tr_in_units t)\<rparr>])"
proof -
  have "data_dword (mdhd_data t) 0 (length (mdhd_data t)) 12 = Some (int (tr_units t))"
    using assms by (intro data_dword_w32 [where q = "w32 (int (tr_in_units t))"]) (simp_all add: mdhd_data_def track_ok_def)
  moreover have "data_dword (mdhd_data t) 0 (length (mdhd_data t)) 16 = Some (int (tr_in_units t))"
    using assms by (intro data_dword_w32 [where q = "[]"]) (simp_all add: mdhd_data_def track_ok_def)
  ultimately show ?thesis
    by (simp add: handle_box_def handle_data_def fourcc_names on_track_last)
qed

lemma handle_mhd:
  "handle_box (fourcc_of (nm ''vmhd''), d) (us @ [s]) = Some (us @ [s\<lparr>st_type := 0\<rparr>])"
  "handle_box (fourcc_of (nm ''smhd''), d) (us @ [s]) = Some (us @ [s\<lparr>st_type := 1\<rparr>])"
  by (simp_all add: handle_box_def handle_data_def fourcc_names on_track_last)

lemma handle_stsd:
  assumes "track_ok t"
  shows "handle_box (fourcc_of (nm ''stsd''), stsd_data t) (us @ [s]) =
    Some (us @ [if st_type s = 1 then s\<lparr>st_type := if tr_mp3 t then 1 else 2, audio_channel := uint (tr_channel t),
      audio_bit_depth := uint (tr_bits t), audio_sample_rate := int (tr_rate t)\<rparr> else s])"
proof -
  obtain a b where ab: "w16 (int (tr_rate t)) = [a, b]" "be16 a b = int (tr_rate t)"
    using assms by (auto simp: track_ok_def intro: w16_split [of "tr_rate t"])
  have "length (stsd_data t) = 42"
    by (simp add: stsd_data_def)
  then show ?thesis
    using ab by (simp add: handle_box_def handle_data_def fourcc_names on_track_last stsd_def data_byte_def rd_def
        stsd_data_def nth_append be16_def nth_Cons')
qed

lemma handle_stsz:
  assumes "track_ok t" "max_packet_size s = 0" "packet_sizes s = None"
  shows "handle_box (fourcc_of (nm ''stsz''), stsz_data t) (us @ [s]) =
    Some (us @ [s\<lparr>CBR := int (tr_cbr t), packet_count := int (length (tr_packets t)),
      packet_sizes := packet_sizes (stream_of t), max_packet_size := max_packet_size (stream_of t)\<rparr>])"
proof -
  have "data_dword (stsz_data t) 0 (length (stsz_data t)) 4 = Some (int (tr_cbr t))"
    using assms(1) by (intro data_dword_w32) (simp_all add: stsz_data_def track_ok_def)
  moreover have "data_dword (stsz_data t) 0 (length (stsz_data t)) 8 = Some (int (length (tr_packets t)))"
    using assms(1) by (intro data_dword_w32) (simp_all add: stsz_data_def track_ok_def)
  moreover have "read_table (stsz_data t) 12 (int (length (tr_packets t))) = Some (map of_nat (map snd (tr_packets t)))"
    if "tr_cbr t = 0"
    using assms(1) that by (intro read_table_dwords [where q = "[]"])
      (auto simp: stsz_data_def track_ok_def list_all_iff)
  ultimately show ?thesis
    using assms(2,3) by (simp add: handle_box_def handle_data_def fourcc_names on_track_last stsz_def stream_of_def Let_def)
qed

lemma handle_stco:
  assumes "track_ok t" "packet_count s = int (length (tr_packets t))"
  shows "handle_box (fourcc_of (nm ''stco''), stco_data t) (us @ [s]) =
    Some (us @ [s\<lparr>packet_index := packet_index (stream_of t)\<rparr>])"
proof -
  have "read_table (stco_data t) 8 (int (length (tr_packets t))) = Some (map of_nat (map fst (tr_packets t)))"
    using assms(1) by (intro read_table_dwords [where q = "[]"])
      (auto simp: stco_data_def track_ok_def list_all_iff)
  then show ?thesis
    using assms(2) by (simp add: handle_box_def handle_data_def fourcc_names on_track_last stream_of_def Let_def)
qed

lemma handle_stss:
  assumes "track_ok t"
  shows "handle_box (fourcc_of (nm ''stss''), stss_data t) (us @ [s]) =
    Some (us @ [s\<lparr>keyframe_count := int (length (tr_keys t)), keyframes := keyframes (stream_of t)\<rparr>])"
proof -
  have "data_dword (stss_data t) 0 (length (stss_data t)) 4 = Some (int (length (tr_keys t)))"
    using assms by (intro data_dword_w32) (simp_all add: stss_data_def track_ok_def)
  moreover have "read_table (stss_data t) 8 (int (length (tr_keys t))) = Some (map of_nat (map Suc (tr_keys t)))"
    using assms by (intro read_table_dwords [where q = "[]"])
      (auto simp: stss_data_def track_ok_def list_all_iff)
  ultimately show ?thesis
    by (simp add: handle_box_def handle_data_def fourcc_names on_track_last stream_of_def Let_def comp_def)
qed

lemma contents_append: "box_contents (bs @ cs) = box_contents bs @ box_contents cs"
  by (induction bs rule: box_contents.induct) simp_all

lemma contents_trak:
  "\<exists>d1 d2 d3. box_contents [trak_box t] = [(fourcc_of (nm ''trak''), d1), (fourcc_of (nm ''tkhd''), tkhd_data t),
     (fourcc_of (nm ''mdia''), d2), (fourcc_of (nm ''mdhd''), mdhd_data t),
     (fourcc_of (nm (if tr_video t then ''vmhd'' else ''smhd'')), []), (fourcc_of (nm ''stbl''), d3),
     (fourcc_of (nm ''stsd''), stsd_data t), (fourcc_of (nm ''stsz''), stsz_data t),
     (fourcc_of (nm ''stco''), stco_data t), (fourcc_of (nm ''stss''), stss_data t)]"
  by (simp add: trak_box_def del: enc_box.simps)

lemma zero_stream_simps [simp]: "max_packet_size zero_stream = 0" "packet_sizes zero_stream = None"
  by (simp_all add: zero_stream_def)

lemma handle_track:
  assumes "track_ok t"
  shows "handle_all handle_box (box_contents [trak_box t]) us = Some (us @ [stream_of t])"
proof -
  obtain d1 d2 d3 where c: "box_contents [trak_box t] = [(fourcc_of (nm ''trak''), d1), (fourcc_of (nm ''tkhd''), tkhd_data t),
     (fourcc_of (nm ''mdia''), d2), (fourcc_of (nm ''mdhd''), mdhd_data t),
     (fourcc_of (nm (if tr_video t then ''vmhd'' else ''smhd'')), []), (fourcc_of (nm ''stbl''), d3),
     (fourcc_of (nm ''stsd''), stsd_data t), (fourcc_of (nm ''stsz''), stsz_data t),
     (fourcc_of (nm ''stco''), stco_data t), (fourcc_of (nm ''stss''), stss_data t)]"
    using contents_trak [of t] by blast
  note steps = handle_trak handle_others handle_tkhd [OF assms] handle_mdhd [OF assms] handle_mhd handle_stsd [OF assms]
    handle_stsz [OF assms] handle_stco [OF assms] handle_stss [OF assms]
  show ?thesis
    unfolding c by (cases "tr_video t") (simp_all add: steps, simp_all add: zero_stream_def stream_of_def Let_def)
qed

lemma handle_tracks:
  "list_all track_ok ts \<Longrightarrow> handle_all handle_box (box_contents (map trak_box ts)) us = Some (us @ map stream_of ts)"
proof (induction ts arbitrary: us)
  case (Cons t ts)
  have "box_contents (map trak_box (t # ts)) = box_contents [trak_box t] @ box_contents (map trak_box ts)"
    using contents_append [of "[trak_box t]" "map trak_box ts"] by (simp only: append.simps list.map)
  then show ?case
    using Cons.IH [of "us @ [stream_of t]"] Cons.prems handle_track [of t us]
    by (simp only: handle_all_append) simp
qed simp

section \<open>The whole file\<close>

lemma name_ok_names:
  "name_ok (nm ''trak'')" "name_ok (nm ''tkhd'')" "name_ok (nm ''mdhd'')" "name_ok (nm ''vmhd'')" "name_ok (nm ''smhd'')"
  "name_ok (nm ''stsd'')" "name_ok (nm ''stsz'')" "name_ok (nm ''stco'')" "name_ok (nm ''stss'')" "name_ok (nm ''mdia'')"
  "name_ok (nm ''stbl'')" "name_ok (nm ''moov'')" "name_ok (nm ''mdat'')"
  by (simp_all add: name_ok_def nm_def)

lemma not_name_zero: "\<not> name_ok (0 # xs)"
  by (simp add: name_ok_def)

lemma w32_small: "n < 2 ^ 24 \<Longrightarrow> \<exists>xs. w32 (int n) = 0 # xs"
  by (simp add: w32_def)

lemma box_ok_table:
  assumes "name_ok name" "n < 2 ^ 24"
  shows "box_ok (Leaf name (replicate 4 0 @ w32 (int n) @ r))"
proof -
  obtain xs where "w32 (int n) = 0 # xs"
    using w32_small assms(2) by blast
  then show ?thesis
    using assms(1) not_name_zero by simp
qed

lemma box_ok_zeros:
  assumes "name_ok name"
  shows "box_ok (Leaf name (replicate (5 + n) 0 @ r))"
  using assms by (cases "length r + n \<ge> 3") (simp_all add: not_name_zero numeral_eq_Suc)

lemma box_ok_trak:
  assumes "track_ok t"
  shows "box_ok (trak_box t)"
proof -
  have "box_ok (Leaf (nm ''tkhd'') (tkhd_data t))"
    using box_ok_zeros [of "nm ''tkhd''" 15] by (simp only: tkhd_data_def name_ok_names) simp
  moreover have "box_ok (Leaf (nm ''mdhd'') (mdhd_data t))"
    using box_ok_zeros [of "nm ''mdhd''" 7] by (simp only: mdhd_data_def name_ok_names) simp
  moreover have "box_ok (Leaf (nm ''stsd'') (stsd_data t))"
    using box_ok_zeros [of "nm ''stsd''" 6] by (simp only: stsd_data_def name_ok_names) simp
  moreover have "box_ok (Leaf (nm ''stsz'') (stsz_data t))" "box_ok (Leaf (nm ''stco'') (stco_data t))"
    "box_ok (Leaf (nm ''stss'') (stss_data t))"
    using assms unfolding stsz_data_def stco_data_def stss_data_def track_ok_def
    by (intro box_ok_table name_ok_names; simp)+
  moreover have "box_ok (Leaf (nm ''vmhd'') [])" "box_ok (Leaf (nm ''smhd'') [])"
    by (simp_all add: name_ok_names)
  ultimately show ?thesis
    by (simp add: trak_box_def name_ok_names del: box_ok.simps(1))
qed

lemma load_three_dv:
  assumes "list_all track_ok ts" "box_ok (Leaf (nm ''mdat'') d)" "length (three_dv ts d) < 2 ^ 31"
  shows "load_3dv (three_dv ts d) = Some (map stream_of ts)"
proof -
  let ?bs = "[Node (nm ''moov'') (map trak_box ts), Leaf (nm ''mdat'') d]"
  have all: "handle_all handle_box (box_contents ?bs) [] = Some (map stream_of ts)"
    using handle_tracks [OF assms(1), of "[]"] by (simp add: handle_others handle_all_append)
  have ok: "list_all box_ok ?bs"
    using assms(1,2) box_ok_trak by (auto simp: name_ok_names list_all_iff)
  have whole: "drop 0 (three_dv ts d) = enc_boxes ?bs @ []" "length (three_dv ts d) = length (enc_boxes ?bs)"
    by (simp_all add: three_dv_def)
  show ?thesis
    unfolding load_3dv_def whole(2) demux_visits [OF ok whole(1) assms(3)] handle_visits [OF ok whole(1) all] by simp
qed

text \<open>The samples of a stream until the end is reported; \<open>n\<close> bounds the number of calls.\<close>

fun play :: "byte list \<Rightarrow> nat \<Rightarrow> nat \<Rightarrow> source_stream \<Rightarrow> (nat \<times> byte list \<times> int \<times> int) list option" where
  "play f cap 0 p = None"
| "play f cap (Suc n) p =
     (case FillBuffer f cap p of
        None \<Rightarrow> None
      | Some (_, None, p) \<Rightarrow> Some []
      | Some (_, Some x, p) \<Rightarrow> map_option (Cons x) (play f cap n p))"

definition packet_size_of :: "track \<Rightarrow> nat \<Rightarrow> nat" where
  "packet_size_of t k = (if tr_cbr t \<noteq> 0 then tr_cbr t else snd (tr_packets t ! k))"

definition sample_of :: "byte list \<Rightarrow> track \<Rightarrow> nat \<Rightarrow> nat \<times> byte list \<times> int \<times> int" where
  "sample_of f t k = (packet_size_of t k, slice (fst (tr_packets t ! k)) (packet_size_of t k) f,
     int ((k + 1) * tr_length t * 10000 div length (tr_packets t)),
     int ((k + 2) * tr_length t * 10000 div length (tr_packets t)))"

lemma unat_of_nat_32: "n < 2 ^ 32 \<Longrightarrow> unat (of_nat n :: u32) = n"
  by (simp add: unat_of_nat)

lemma frame_time_of:
  assumes "n * tr_length t * 10000 < 2 ^ 63" "0 < length (tr_packets t)"
  shows "frame_time (stream_of t) (int n) = int (n * tr_length t * 10000 div length (tr_packets t))"
proof -
  have "int n * int (tr_length t) * 10000 < 2 ^ 63"
    using assms(1) by (metis of_nat_less_numeral_power_cancel_iff of_nat_mult of_nat_numeral)
  then have "wrap64 (int n * int (tr_length t) * 10000) = int n * int (tr_length t) * 10000"
    by (simp add: wrap64_def)
  then show ?thesis
    using assms(2) by (simp add: frame_time_def stream_of_def Let_def zdiv_int)
qed

lemma packet_fits:
  assumes "track_ok t" "k < length (tr_packets t)"
  shows "packet_size_of t k \<le> decide_buffer_size (stream_of t)" "packet_size_of t k < 2 ^ 32"
    "fst (tr_packets t ! k) < 2 ^ 32"
proof -
  have in_range: "snd (tr_packets t ! k) < 2 ^ 32" "fst (tr_packets t ! k) < 2 ^ 32"
    using assms unfolding track_ok_def list_all_length case_prod_beta by blast+
  show "packet_size_of t k < 2 ^ 32" "fst (tr_packets t ! k) < 2 ^ 32"
    using in_range assms(1) by (simp_all add: packet_size_of_def track_ok_def)
  show "packet_size_of t k \<le> decide_buffer_size (stream_of t)"
  proof (cases "tr_cbr t = 0")
    case True
    obtain ws :: "u32 list" where ws: "map (of_nat \<circ> snd) (tr_packets t) = ws"
      by blast
    have "ws ! k = of_nat (snd (tr_packets t ! k))" "k < length ws"
      using assms(2) by (simp_all flip: ws)
    then have "of_nat (snd (tr_packets t ! k)) \<le> foldl max 0 ws"
      using foldl_max [of 0 ws] by (metis list_all_length)
    then have "snd (tr_packets t ! k) \<le> unat (foldl max 0 ws)"
      using in_range(1) by (simp add: word_le_nat_alt unat_of_nat_32)
    then show ?thesis
      using True by (simp add: packet_size_of_def decide_buffer_size_def stream_of_def Let_def ws)
  next
    case False
    then have "decide_buffer_size (stream_of t) = unat (of_nat (tr_cbr t) :: u32)"
      by (simp add: decide_buffer_size_def stream_of_def Let_def)
    then show ?thesis
      using False assms(1) by (simp add: packet_size_of_def track_ok_def unat_of_nat_32)
  qed
qed

lemma FillBuffer_sample:
  assumes "track_ok t" "k < length (tr_packets t)" "(length (tr_packets t) + 1) * tr_length t * 10000 < 2 ^ 63"
  shows "FillBuffer f (decide_buffer_size (stream_of t)) \<lparr>ss_stream = stream_of t, ss_frame_number = int k, ss_stream_start = 0\<rparr> =
    Some (S_OK, Some (sample_of f t k), \<lparr>ss_stream = stream_of t, ss_frame_number = int (Suc k), ss_stream_start = 0\<rparr>)"
proof -
  let ?s = "stream_of t"
  have sel: "packet_count ?s = int (length (tr_packets t))" "CBR ?s = int (tr_cbr t)"
    "packet_index ?s = Some (map (of_nat \<circ> fst) (tr_packets t))"
    "packet_sizes ?s = (if tr_cbr t = 0 then Some (map (of_nat \<circ> snd) (tr_packets t)) else None)"
    by (simp_all add: stream_of_def Let_def)
  have le: "(k + 1) * tr_length t * 10000 \<le> (length (tr_packets t) + 1) * tr_length t * 10000"
    "(k + 2) * tr_length t * 10000 \<le> (length (tr_packets t) + 1) * tr_length t * 10000"
    using assms(2) by (intro mult_le_mono1; simp)+
  have pos: "0 < length (tr_packets t)"
    using assms(2) by linarith
  have times: "frame_time ?s (int k + 1) = int ((k + 1) * tr_length t * 10000 div length (tr_packets t))"
    "frame_time ?s (int k + 2) = int ((k + 2) * tr_length t * 10000 div length (tr_packets t))"
    using frame_time_of [OF le_less_trans [OF le(1) assms(3)] pos] frame_time_of [OF le_less_trans [OF le(2) assms(3)] pos]
    by (simp_all only: of_nat_add of_nat_1 of_nat_numeral)
  have pick: "(if CBR ?s \<noteq> 0 then Some (word_of_int (CBR ?s)) else Option.bind (packet_sizes ?s) (\<lambda>ws. rd ws (int k))) =
      Some (of_nat (packet_size_of t k) :: u32)"
    using assms(2) by (simp add: sel packet_size_of_def)
  note fits = packet_fits [OF assms(1,2)]
  show ?thesis
    using assms(2) fits
    by (simp add: FillBuffer_def Let_def sample_of_def pick times unat_of_nat_32 sel(1,3) del: of_nat_Suc)
qed

lemma play_rest:
  assumes "track_ok t" "(length (tr_packets t) + 1) * tr_length t * 10000 < 2 ^ 63" "k \<le> length (tr_packets t)"
    and "length (tr_packets t) < n + k"
  shows "play f (decide_buffer_size (stream_of t)) n \<lparr>ss_stream = stream_of t, ss_frame_number = int k, ss_stream_start = 0\<rparr> =
    Some (map (sample_of f t) [k..<length (tr_packets t)])"
  using assms(3,4)
proof (induction n arbitrary: k)
  case (Suc n)
  show ?case
  proof (cases "k < length (tr_packets t)")
    case True
    then show ?thesis
      using FillBuffer_sample [OF assms(1) True assms(2)] Suc.IH [of "Suc k"] Suc.prems
      by (simp add: upt_conv_Cons)
  next
    case False
    then show ?thesis
      using Suc.prems by (simp add: FillBuffer_def Let_def stream_of_def)
  qed
qed simp



definition some_track :: track where
  "some_track = \<lparr>tr_video = True, tr_mp3 = False, tr_length = 80, tr_units = 25, tr_in_units = 2, tr_channel = 0,
     tr_bits = 0, tr_rate = 0, tr_cbr = 0, tr_packets = [(320, 2), (322, 1)], tr_keys = [0]\<rparr>"

lemma some_track_ok: "track_ok some_track" "length (three_dv [some_track] [1, 2, 3]) < 2 ^ 31"
proof -
  show "track_ok some_track"
    by (simp add: track_ok_def some_track_def)
  show "length (three_dv [some_track] [1, 2, 3]) < 2 ^ 31"
    by (simp add: three_dv_def trak_box_def tkhd_data_def mdhd_data_def stsd_data_def stsz_data_def stco_data_def
        stss_data_def dword_list_def nm_def some_track_def)
qed



end
