(* ===== verification/Pictures.thy ===== *)
theory Pictures
  imports Prelude
begin

text \<open>
  Stereoscopic pictures: the parsers of MPO files (\<open>MPOCodec/MPOParser.cpp\<close>) and of .3dp files
  (\<open>MPOCodec/3DPParser.cpp\<close>).  A file is the list of its bytes, shorter than 2 GB, with a position.
  Memory for a picture is always found.
\<close>

unbundle bit_operations_syntax

section \<open>Files\<close>

text \<open>\<open>fseek\<close> to an unsigned position: one that is negative as a \<open>long\<close> fails and leaves the position.\<close>

definition seek_set :: "u32 \<Rightarrow> nat \<Rightarrow> nat" where
  "seek_set off pos = (if off < 0x80000000 then unat off else pos)"

text \<open>The bytes that \<open>fread\<close> finds, and the position behind them.\<close>

definition fread :: "byte list \<Rightarrow> nat \<Rightarrow> nat \<Rightarrow> byte list \<times> nat" where
  "fread f n pos = (slice pos n f, pos + length (slice pos n f))"

text \<open>\<open>swapendian\<close> exchanges bytes by three exclusive ors.\<close>

fun swap_loop :: "nat \<Rightarrow> nat \<Rightarrow> byte list \<Rightarrow> byte list" where
  "swap_loop i 0 t = t"
| "swap_loop i (Suc n) t =
     (let j = length t - i - 1;
          t = t[i := (t ! j) XOR (t ! i)];
          t = t[j := (t ! i) XOR (t ! j)];
          t = t[i := (t ! j) XOR (t ! i)]
      in swap_loop (i + 1) n t)"

definition swapendian :: "byte list \<Rightarrow> byte list" where
  "swapendian t = swap_loop 0 (length t div 2) t"

text \<open>An unsigned number from its bytes in memory, lowest first.\<close>

definition le_value :: "byte list \<Rightarrow> nat" where
  "le_value bs = foldr (\<lambda>b n. unat b + 256 * n) bs 0"

text \<open>\<open>read2\<close> and \<open>read4\<close>: bytes that the file does not have are zero.\<close>

definition read_number :: "byte list \<Rightarrow> bool \<Rightarrow> nat \<Rightarrow> nat \<Rightarrow> nat \<times> nat" where
  "read_number f little n pos =
     (let (bs, pos) = fread f n pos; o' = bs @ replicate (n - length bs) 0
      in (le_value (if little then o' else swapendian o'), pos))"

definition read2 :: "byte list \<Rightarrow> bool \<Rightarrow> nat \<Rightarrow> nat \<times> nat" where
  "read2 f little = read_number f little 2"

definition read4 :: "byte list \<Rightarrow> bool \<Rightarrow> nat \<Rightarrow> nat \<times> nat" where
  "read4 f little = read_number f little 4"

section \<open>MPO files\<close>

text \<open>
  The entries of the index: only a known tag has its value read, the number of images is kept as an
  \<open>int\<close>, and \<open>version\<close>, the list of identifiers and the number of frames are not used.
\<close>

fun index_entries :: "byte list \<Rightarrow> bool \<Rightarrow> nat \<Rightarrow> int \<times> nat \<Rightarrow> int \<times> nat" where
  "index_entries f le 0 s = s"
| "index_entries f le (Suc n) (images, pos) =
     (let (tag, pos) = read2 f le pos; (_, pos) = read2 f le pos; (_, pos) = read4 f le pos
      in index_entries f le n
           (if tag = 0xB000 then (images, snd (fread f 4 pos))
            else if tag = 0xB001 then (let (v, pos) = read4 f le pos in (wrap32 (int v), pos))
            else if tag = 0xB002 \<or> tag = 0xB003 \<or> tag = 0xB004 then (images, snd (read4 f le pos))
            else (images, pos)))"

text \<open>
  The pictures.  \<open>Inl\<close>: one is not complete, and \<open>parseFile\<close> returns 0.  There is room for 32;
  \<^theory_text>\<open>None\<close> is the use of an entry behind them.
\<close>

fun read_images :: "byte list \<Rightarrow> bool \<Rightarrow> nat \<Rightarrow> nat \<Rightarrow> nat \<Rightarrow> nat \<Rightarrow> byte list list \<Rightarrow> (byte list list + byte list list) option" where
  "read_images f le start i 0 pos datas = Some (Inr datas)"
| "read_images f le start i (Suc n) pos datas =
     (let (_, pos) = read4 f le pos; (image_size, pos) = read4 f le pos; (data_offset, pos) = read4 f le pos;
          (_, pos) = read2 f le pos; (_, pos) = read2 f le pos;
          offset = (if i = 0 then 0 else of_nat (data_offset + start));
          (bs, _) = fread f image_size (seek_set offset pos)
      in if i \<ge> 32 then None
         else if length bs \<noteq> image_size then Some (Inl (datas @ [bs]))
         else read_images f le start (i + 1) n pos (datas @ [bs]))"

text \<open>A pass of the loop over the segments.  \<open>Mpo_end\<close> holds the result and the pictures.\<close>

datatype segment = Mpo_next nat | Mpo_end int "byte list list" | Mpo_overrun

definition mpo_index :: "byte list \<Rightarrow> nat \<Rightarrow> segment" where
  "mpo_index f start =
     (let (endian, pos) = read4 f False start;
          le = (endian = 0x49492A00);
          (offset, pos) = read4 f le pos;
          (count, pos) = read2 f le (seek_set (of_nat (start + offset)) pos);
          (images, pos) = index_entries f le count (0, pos);
          (_, pos) = read4 f le pos
      in case read_images f le start 0 (nat images) pos [] of
           None \<Rightarrow> Mpo_overrun
         | Some (Inl datas) \<Rightarrow> Mpo_end 0 datas
         | Some (Inr datas) \<Rightarrow> Mpo_end images datas)"

definition mpo_segment :: "byte list \<Rightarrow> nat \<Rightarrow> segment" where
  "mpo_segment f pos =
     (let (marker, pos) = read2 f False pos; (len, pos) = read2 f False pos
      in if marker = 0xFFE2
         then (let (identifier, pos) = fread f 4 pos; len = (len + 65532) mod 65536
               in if take 4 (identifier @ replicate 4 0) = [0x4D, 0x50, 0x46, 0] then mpo_index f pos
                  else Mpo_next (nat (int pos + int len - 2)))
         else Mpo_next (nat (int pos + int len - 2)))"

text \<open>\<open>parseFile\<close>, for a number of passes; \<^theory_text>\<open>None\<close> when it has not returned after them.\<close>

fun mpo_loop :: "byte list \<Rightarrow> nat \<Rightarrow> nat \<Rightarrow> segment option" where
  "mpo_loop f 0 pos = None"
| "mpo_loop f (Suc n) pos =
     (if pos < length f
      then (case mpo_segment f pos of Mpo_next pos \<Rightarrow> mpo_loop f n pos | r \<Rightarrow> Some r)
      else Some (Mpo_end 0 []))"

definition mpo_parseFile :: "byte list option \<Rightarrow> nat \<Rightarrow> segment option" where
  "mpo_parseFile f_opt n =
     (case f_opt of
        None \<Rightarrow> Some (Mpo_end 0 [])
      | Some f \<Rightarrow>
          (let (soi, pos) = read2 f False 0 in if soi \<noteq> 0xFFD8 then Some (Mpo_end 0 []) else mpo_loop f n pos))"

section \<open>3DP files\<close>

record header_3dp =
  h_dummy :: "byte list"
  h_chunk_size :: nat
  h_width :: nat
  h_height :: nat

definition dummy_value :: "byte list" where
  "dummy_value = [0xff, 0xe2, 0x00, 0x17, 0x4d, 0x50, 0x46, 0x00, 0x49, 0x49, 0x2a, 0x00]"

text \<open>The 27 bytes of a header at a position; the numbers are big-endian.\<close>

definition read_header_3dp :: "byte list \<Rightarrow> nat \<Rightarrow> header_3dp option" where
  "read_header_3dp f pos =
     (let (bs, _) = fread f 27 pos
      in if length bs \<noteq> 27 then None
         else let h = \<lparr>h_dummy = slice 2 12 bs, h_chunk_size = le_value (swapendian (slice 14 4 bs)),
                       h_width = le_value (swapendian (slice 22 2 bs)), h_height = le_value (swapendian (slice 24 2 bs))\<rparr>
              in if h_dummy h = dummy_value then Some h else None)"

text \<open>The result: the pictures and the size, \<^theory_text>\<open>None\<close> for the return of 0.\<close>

definition parseFile_3dp :: "byte list option \<Rightarrow> (byte list list \<times> nat \<times> nat) option" where
  "parseFile_3dp f_opt = do {
     f \<leftarrow> f_opt;
     h1 \<leftarrow> read_header_3dp f 0;
     h2 \<leftarrow> read_header_3dp f (seek_set (of_nat (h_chunk_size h1)) 27);
     let (d1, pos) = fread f (h_chunk_size h1) 0;
     if length d1 \<noteq> h_chunk_size h1 then None
     else do {
       let (d2, pos) = fread f (h_chunk_size h2) (seek_set (of_nat (h_chunk_size h1)) pos);
       if length d2 \<noteq> h_chunk_size h2 then None
       else Some ([d1, d2], h_width h1, h_height h1) } }"

section \<open>Numbers\<close>

lemma xor_swap:
  assumes "i < length t" "j < length t" "i \<noteq> j" "t1 = t[i := (t ! j) XOR (t ! i)]" "t2 = t1[j := (t1 ! i) XOR (t1 ! j)]"
  shows "t2[i := (t2 ! j) XOR (t2 ! i)] = (t[i := t ! j])[j := (t ! i :: byte)]"
proof -
  have "t2[i := (t2 ! j) XOR (t2 ! i)] ! k = (t[i := t ! j])[j := t ! i] ! k" if "k < length t" for k
    using assms that by (auto simp: nth_list_update xor.assoc xor.commute xor.left_commute)
  then show ?thesis
    using assms(4,5) by (intro nth_equalityI) simp_all
qed

lemma swap_loop_nth:
  "i + n \<le> length t div 2 \<Longrightarrow> k < length t \<Longrightarrow> length (swap_loop i n t) = length t \<and>
   swap_loop i n t ! k =
     (if i \<le> k \<and> k < i + n \<or> i \<le> length t - 1 - k \<and> length t - 1 - k < i + n then t ! (length t - 1 - k) else t ! k)"
proof (induction n arbitrary: i t)
  case (Suc n)
  obtain j where j: "length t - i - 1 = j"
    by blast
  have ij: "i < length t" "j < length t" "i \<noteq> j"
    using Suc.prems j by auto
  have step: "swap_loop i (Suc n) t = swap_loop (i + 1) n ((t[i := t ! j])[j := t ! i])"
    using xor_swap [OF ij refl refl] by (simp only: swap_loop.simps Let_def j)
  have far: "i + 1 + n \<le> j"
    using Suc.prems(1) j by linarith
  let ?t = "(t[i := t ! j])[j := t ! i]" and ?k = "length t - 1 - k"
  have IH: "length (swap_loop (i + 1) n ?t) = length t \<and> swap_loop (i + 1) n ?t ! k =
      (if i + 1 \<le> k \<and> k < i + 1 + n \<or> i + 1 \<le> ?k \<and> ?k < i + 1 + n then ?t ! ?k else ?t ! k)"
    using Suc.IH [of "i + 1" ?t] Suc.prems by simp
  consider "k = i" "?k = j" | "k = j" "?k = i" | "k \<noteq> i" "k \<noteq> j" "?k \<noteq> i" "?k \<noteq> j"
    using j ij Suc.prems(2) by linarith
  then show ?case
  proof cases
    case 1
    then show ?thesis
      using IH ij far unfolding step by simp
  next
    case 2
    then show ?thesis
      using IH ij far unfolding step by simp
  next
    case 3
    then have "?t ! ?k = t ! ?k" "?t ! k = t ! k" "(i \<le> k) = (i + 1 \<le> k)" "(i \<le> ?k) = (i + 1 \<le> ?k)"
      by auto
    then show ?thesis
      using IH unfolding step by simp
  qed
qed auto

text \<open>The exclusive ors reverse the bytes.\<close>

lemma swapendian_rev: "swapendian t = rev t"
proof (rule nth_equalityI)
  fix k
  assume "k < length (swapendian t)"
  then have k: "k < length t"
    using swap_loop_nth [of 0 "length t div 2" t 0] by (cases "t = []") (auto simp: swapendian_def)
  have mid: "length t - 1 - k = k" if "\<not> k < length t div 2" "\<not> length t - 1 - k < length t div 2"
    using that k by linarith
  show "swapendian t ! k = rev t ! k"
    using swap_loop_nth [of 0 "length t div 2" t k] k mid by (auto simp: swapendian_def rev_nth)
qed (use swap_loop_nth [of 0 "length t div 2" t 0] in \<open>cases "t = []"; auto simp: swapendian_def\<close>)

lemma le_value_append: "le_value (bs @ [b]) = le_value bs + 256 ^ length bs * unat b"
  by (induction bs) (simp_all add: le_value_def)

text \<open>A number of \<open>k\<close> bytes in either order.\<close>

fun le_number :: "nat \<Rightarrow> nat \<Rightarrow> byte list" where
  "le_number 0 n = []"
| "le_number (Suc k) n = of_nat n # le_number k (n div 256)"

definition num_bytes :: "bool \<Rightarrow> nat \<Rightarrow> nat \<Rightarrow> byte list" where
  "num_bytes little k n = (if little then le_number k n else rev (le_number k n))"

lemma length_le_number [simp]: "length (le_number k n) = k" "length (num_bytes little k n) = k"
proof -
  show "length (le_number k n) = k"
    by (induction k n rule: le_number.induct) simp_all
  then show "length (num_bytes little k n) = k"
    by (simp add: num_bytes_def)
qed

lemma le_value_bytes: "n < 256 ^ k \<Longrightarrow> le_value (le_number k n) = n"
proof (induction k n rule: le_number.induct)
  case (2 k n)
  then have "le_value (le_number k (n div 256)) = n div 256"
    by (simp add: less_mult_imp_div_less mult.commute)
  then show ?case
    by (simp add: le_value_def unat_of_nat)
qed (simp add: le_value_def)

lemma read_number_bytes:
  assumes "drop pos f = num_bytes little k n @ q" "n < 256 ^ k"
  shows "read_number f little k pos = (n, pos + k)"
proof -
  have "slice pos k f = num_bytes little k n"
    using assms(1) by (simp add: slice_def)
  then show ?thesis
    using le_value_bytes [OF assms(2)]
    by (simp add: read_number_def fread_def swapendian_rev num_bytes_def Let_def)
qed

section \<open>Files on which the loop does not end\<close>

lemma read_number_end: "read_number f little k (length f) = (0, length f)"
proof -
  have "le_value (replicate k 0) = 0"
    by (induction k) (simp_all add: le_value_def)
  then show ?thesis
    by (simp add: read_number_def fread_def slice_def swapendian_rev Let_def)
qed

lemma two_bytes: "unat (b :: byte) + 256 * unat a = 256 * m + k \<longleftrightarrow> a = of_nat m \<and> b = of_nat k" if "m < 256" "k < 256" for a b :: byte
proof -
  have "unat c = n \<longleftrightarrow> c = of_nat n" if "n < 256" for c :: byte and n
  proof
    assume "c = of_nat n"
    then show "unat c = n"
      using that by (simp add: unat_of_nat)
  qed auto
  with that have "unat a = m \<longleftrightarrow> a = of_nat m" "unat b = k \<longleftrightarrow> b = of_nat k"
    by blast+
  moreover have "unat b < 256" "unat a < 256"
    using unsigned_less [of b] unsigned_less [of a] by simp_all
  moreover have "x + 256 * y = 256 * m + k \<longleftrightarrow> y = m \<and> x = k" if "x < 256" for x y
  proof
    assume *: "x + 256 * y = 256 * m + k"
    have "(x + 256 * y) div 256 = y" "(x + 256 * y) mod 256 = x" "(256 * m + k) div 256 = m" "(256 * m + k) mod 256 = k"
      using \<open>x < 256\<close> \<open>k < 256\<close> by simp_all
    then show "y = m \<and> x = k"
      unfolding * by simp
  qed simp
  ultimately show ?thesis
    by simp
qed

text \<open>Two bytes before the end: the length of the segment is not there, reads as 0, and the position goes back.\<close>

lemma mpo_segment_stuck:
  assumes "2 \<le> length f" "drop (length f - 2) f \<noteq> [0xFF, 0xE2]"
  shows "mpo_segment f (length f - 2) = Mpo_next (length f - 2)"
proof -
  have two: "\<exists>a b. xs = [a, b]" if "length xs = 2" for xs :: "byte list"
    using that by (cases xs; cases "tl xs") auto
  obtain a b where ab: "drop (length f - 2) f = [a, b]"
    using two [of "drop (length f - 2) f"] assms(1) by auto
  have "read2 f False (length f - 2) = (unat b + 256 * unat a, length f)"
    using ab assms(1) by (simp add: read2_def read_number_def fread_def slice_def swapendian_rev le_value_def)
  moreover have "unat b + 256 * unat a \<noteq> 0xFFE2"
    using two_bytes [of 255 226 b a] assms(2) ab by simp
  moreover have "read2 f False (length f) = (0, length f)"
    by (simp add: read2_def read_number_end)
  ultimately show ?thesis
    using assms(1) by (simp add: mpo_segment_def nat_diff_distrib)
qed

text \<open>The smallest JPEG file: the markers of its start and its end.\<close>

definition tiny_jpeg :: "byte list" where
  "tiny_jpeg = [0xFF, 0xD8, 0xFF, 0xD9]"

lemma tiny_jpeg: "length tiny_jpeg = 4" "drop (4 - 2) tiny_jpeg \<noteq> [0xFF, 0xE2]" "read2 tiny_jpeg False 0 = (0xFFD8, 2)"
  by (simp_all add: tiny_jpeg_def read2_def read_number_def fread_def slice_def swapendian_rev le_value_def)

text \<open>
  A walk over the segments that comes to the last two bytes of a file never ends, unless these are the
  marker of an APP2 segment; in particular \<open>parseFile\<close> does not return for the smallest JPEG file, which
  holds only the markers of its start and its end.
\<close>

theorem mpo_parse_hangs:
  assumes "2 \<le> length f" "drop (length f - 2) f \<noteq> [0xFF, 0xE2]"
  shows "mpo_loop f n (length f - 2) = None \<and> mpo_parseFile (Some tiny_jpeg) n = None"
proof -
  have hang: "mpo_loop f n (length f - 2) = None" if "2 \<le> length f" "drop (length f - 2) f \<noteq> [0xFF, 0xE2]" for f n
    using mpo_segment_stuck [OF that] that(1) by (induction n) auto
  have "mpo_loop tiny_jpeg n (4 - 2) = None"
    using hang [of tiny_jpeg n] tiny_jpeg(2) by (simp only: tiny_jpeg(1)) simp
  then show ?thesis
    using hang [OF assms] by (simp add: mpo_parseFile_def tiny_jpeg(3))
qed

theorem mpo_parse_hangs_witness: "mpo_loop tiny_jpeg 1000 (4 - 2) = None"
  using mpo_parse_hangs [of tiny_jpeg 1000] tiny_jpeg(2) by (simp only: tiny_jpeg(1)) simp

section \<open>Reading back what was written\<close>

lemma read2_bytes:
  assumes "drop pos f = num_bytes le 2 n @ q" "n < 65536" "pos + 2 = p"
  shows "read2 f le pos = (n, p)" "drop p f = q"
proof -
  show "read2 f le pos = (n, p)"
    using read_number_bytes [OF assms(1)] assms(2,3) by (simp add: read2_def)
  show "drop p f = q"
    using arg_cong [OF assms(1), of "drop 2"] assms(3) by (simp add: add.commute)
qed

lemma read4_bytes:
  assumes "drop pos f = num_bytes le 4 n @ q" "n < 2 ^ 32" "pos + 4 = p"
  shows "read4 f le pos = (n, p)" "drop p f = q"
proof -
  show "read4 f le pos = (n, p)"
    using read_number_bytes [OF assms(1)] assms(2,3) by (simp add: read4_def)
  show "drop p f = q"
    using arg_cong [OF assms(1), of "drop 4"] assms(3) by (simp add: add.commute)
qed

text \<open>An entry of the index, its value included, and one of the list of pictures: size and position.\<close>

definition index_entry :: "bool \<Rightarrow> nat \<Rightarrow> nat \<Rightarrow> nat \<Rightarrow> nat \<Rightarrow> byte list" where
  "index_entry le tag ty count v = num_bytes le 2 tag @ num_bytes le 2 ty @ num_bytes le 4 count @ num_bytes le 4 v"

definition image_entry :: "bool \<Rightarrow> nat \<times> nat \<Rightarrow> byte list" where
  "image_entry le = (\<lambda>(n, at). num_bytes le 4 0 @ num_bytes le 4 n @ num_bytes le 4 at @ num_bytes le 2 0 @ num_bytes le 2 0)"

text \<open>A segment of another kind: its marker and its data.\<close>

definition other_segment :: "nat \<times> byte list \<Rightarrow> byte list" where
  "other_segment = (\<lambda>(m, d). num_bytes False 2 m @ num_bytes False 2 (length d + 2) @ d)"

definition segment_ok :: "nat \<times> byte list \<Rightarrow> bool" where
  "segment_ok = (\<lambda>(m, d). m < 65536 \<and> m \<noteq> 0xFFE2 \<and> length d + 2 < 65536)"

definition mpf_block :: "bool \<Rightarrow> (nat \<times> nat) list \<Rightarrow> byte list" where
  "mpf_block le images = num_bytes False 4 (if le then 0x49492A00 else 0x4D4D002A) @ num_bytes le 4 8 @ num_bytes le 2 3 @
     index_entry le 0xB000 7 4 0x30313030 @ index_entry le 0xB001 4 1 (length images) @
     index_entry le 0xB002 7 (16 * length images) 50 @ num_bytes le 4 0 @ concat (map (image_entry le) images)"

definition mpo_file :: "bool \<Rightarrow> (nat \<times> byte list) list \<Rightarrow> (nat \<times> nat) list \<Rightarrow> byte list \<Rightarrow> byte list" where
  "mpo_file le segs images rest = num_bytes False 2 0xFFD8 @ concat (map other_segment segs) @ num_bytes False 2 0xFFE2 @
     num_bytes False 2 (length (mpf_block le images) + 6) @ [0x4D, 0x50, 0x46, 0] @ mpf_block le images @ rest"

text \<open>Where the positions of pictures count from.\<close>

definition mpf_start :: "(nat \<times> byte list) list \<Rightarrow> nat" where
  "mpf_start segs = 10 + length (concat (map other_segment segs))"

text \<open>The position of picture \<open>i\<close>: the first one is at the beginning of the file.\<close>

definition image_at :: "nat \<Rightarrow> nat \<Rightarrow> nat \<times> nat \<Rightarrow> nat" where
  "image_at start i = (\<lambda>(n, at). if i = 0 then 0 else start + at)"

lemma seek_small: "x < 2 ^ 31 \<Longrightarrow> seek_set (of_nat x) p = x"
  by (simp add: seek_set_def word_less_nat_alt unat_of_nat)

lemma read_images_written:
  assumes "drop pos f = concat (map (image_entry le) images) @ q" "i + length images \<le> 32" "length f < 2 ^ 31"
    and "\<And>k. k < length images \<Longrightarrow> image_at start (i + k) (images ! k) + fst (images ! k) \<le> length f \<and>
      start + snd (images ! k) < 2 ^ 31"
  shows "read_images f le start i (length images) pos datas =
    Some (Inr (datas @ map (\<lambda>k. slice (image_at start (i + k) (images ! k)) (fst (images ! k)) f) [0..<length images]))"
  using assms
proof (induction images arbitrary: i pos datas)
  case (Cons e es)
  obtain n at where e: "e = (n, at)"
    by fastforce
  have here: "image_at start i (n, at) + n \<le> length f" "start + at < 2 ^ 31"
    using Cons.prems(4) [of 0] by (simp_all add: e)
  then have bounds: "n < 2 ^ 32" "at < 2 ^ 32"
    using Cons.prems(3) by simp_all
  have d: "drop pos f = num_bytes le 4 0 @ num_bytes le 4 n @ num_bytes le 4 at @ num_bytes le 2 0 @ num_bytes le 2 0 @
      concat (map (image_entry le) es) @ q"
    using Cons.prems(1) by (simp add: e image_entry_def)
  obtain p1 p2 p3 p4 p5 where p: "pos + 4 = p1" "p1 + 4 = p2" "p2 + 4 = p3" "p3 + 2 = p4" "p4 + 2 = p5"
    by blast
  note r1 = read4_bytes [OF d _ p(1), simplified]
  note r2 = read4_bytes [OF r1(2) bounds(1) p(2)]
  note r3 = read4_bytes [OF r2(2) bounds(2) p(3)]
  note r4 = read2_bytes [OF r3(2) _ p(4), simplified]
  note r5 = read2_bytes [OF r4(2) _ p(5), simplified]
  have "seek_set (if i = 0 then 0 else of_nat (at + start)) p = image_at start i e" for p
    using here(2) seek_small [of 0] seek_small [of "start + at"] by (simp add: image_at_def e add.commute del: of_nat_add)
  then have step: "read_images f le start i (length (e # es)) pos datas =
      read_images f le start (i + 1) (length es) p5 (datas @ [slice (image_at start i e) n f])"
    using here(1) Cons.prems(2) by (simp add: r1(1) r2(1) r3(1) r4(1) r5(1) fread_def e Let_def del: of_nat_add)
  have upt: "[0..<length (e # es)] = 0 # map Suc [0..<length es]"
    by (simp add: upt_conv_Cons map_Suc_upt del: upt_Suc)
  have rest: "\<And>k. k < length es \<Longrightarrow> image_at start (i + 1 + k) (es ! k) + fst (es ! k) \<le> length f \<and>
      start + snd (es ! k) < 2 ^ 31"
    using Cons.prems(4) [of "Suc _"] by simp
  show ?case
    unfolding step upt
    using Cons.IH [OF r5(2) _ Cons.prems(3) rest, of "datas @ [slice (image_at start i e) n f]"] Cons.prems(2)
    by (simp add: e comp_def)
qed simp

lemma index_entry_step:
  assumes "drop pos f = index_entry le tag ty count v @ q" "tag < 65536" "ty < 65536" "count < 2 ^ 32" "v < 2 ^ 32"
    and "tag = 0xB000 \<or> tag = 0xB001 \<or> tag = 0xB002" "pos + 12 = p"
  shows "index_entries f le (Suc n) (images, pos) =
    index_entries f le n (if tag = 0xB001 then wrap32 (int v) else images, p)" "drop p f = q"
proof -
  obtain p1 p2 p3 where p: "pos + 2 = p1" "p1 + 2 = p2" "p2 + 4 = p3" "p3 + 4 = p"
    using assms(7) by force
  note d = assms(1) [unfolded index_entry_def append_assoc]
  note r1 = read2_bytes [OF d assms(2) p(1)]
  note r2 = read2_bytes [OF r1(2) assms(3) p(2)]
  note r3 = read4_bytes [OF r2(2) assms(4) p(3)]
  note r4 = read4_bytes [OF r3(2) assms(5) p(4)]
  have "fread f 4 p3 = (num_bytes le 4 v, p)"
    using r3(2) p(4) by (simp add: fread_def slice_def)
  then show "index_entries f le (Suc n) (images, pos) =
      index_entries f le n (if tag = 0xB001 then wrap32 (int v) else images, p)"
    using assms(6) r1(1) r2(1) r3(1) r4(1) by (auto simp: Let_def)
  show "drop p f = q"
    by (rule r4(2))
qed

lemma mpo_index_written:
  assumes "drop start f = mpf_block le images @ q" "length images \<le> 32" "length f < 2 ^ 31"
    and "\<And>k. k < length images \<Longrightarrow> image_at start k (images ! k) + fst (images ! k) \<le> length f \<and>
      start + snd (images ! k) < 2 ^ 31"
  shows "mpo_index f start = Mpo_end (int (length images))
    (map (\<lambda>k. slice (image_at start k (images ! k)) (fst (images ! k)) f) [0..<length images])"
proof -
  note d = assms(1) [unfolded mpf_block_def append_assoc]
  have "start + 8 \<le> length f"
    using arg_cong [OF d, of length] by simp
  then have seek: "seek_set (of_nat (start + 8)) p = start + 8" for p
    using assms(3) by (intro seek_small) simp
  let ?n = "length images" and ?e = "if le then 0x49492A00 else 0x4D4D002A :: nat"
  have r1: "read4 f False start = (?e, start + 4)"
    by (rule read4_bytes(1) [OF d]) simp_all
  have d1: "drop (start + 4) f = num_bytes le 4 8 @ num_bytes le 2 3 @ index_entry le 0xB000 7 4 0x30313030 @
      index_entry le 0xB001 4 1 ?n @ index_entry le 0xB002 7 (16 * ?n) 50 @ num_bytes le 4 0 @
      concat (map (image_entry le) images) @ q"
    by (rule read4_bytes(2) [OF d]) simp_all
  have r2: "read4 f le (start + 4) = (8, start + 8)"
    by (rule read4_bytes(1) [OF d1]) simp_all
  have d2: "drop (start + 8) f = num_bytes le 2 3 @ index_entry le 0xB000 7 4 0x30313030 @
      index_entry le 0xB001 4 1 ?n @ index_entry le 0xB002 7 (16 * ?n) 50 @ num_bytes le 4 0 @
      concat (map (image_entry le) images) @ q"
    by (rule read4_bytes(2) [OF d1]) simp_all
  have r3: "read2 f le (start + 8) = (3, start + 10)"
    by (rule read2_bytes(1) [OF d2]) simp_all
  have d3: "drop (start + 10) f = index_entry le 0xB000 7 4 0x30313030 @
      index_entry le 0xB001 4 1 ?n @ index_entry le 0xB002 7 (16 * ?n) 50 @ num_bytes le 4 0 @
      concat (map (image_entry le) images) @ q"
    by (rule read2_bytes(2) [OF d2]) simp_all
  have d4: "drop (start + 22) f = index_entry le 0xB001 4 1 ?n @ index_entry le 0xB002 7 (16 * ?n) 50 @ num_bytes le 4 0 @
      concat (map (image_entry le) images) @ q"
    by (rule index_entry_step(2) [OF d3]) simp_all
  have d5: "drop (start + 34) f = index_entry le 0xB002 7 (16 * ?n) 50 @ num_bytes le 4 0 @
      concat (map (image_entry le) images) @ q"
    using assms(2) by (intro index_entry_step(2) [OF d4]) simp_all
  have d6: "drop (start + 46) f = num_bytes le 4 0 @ concat (map (image_entry le) images) @ q"
    using assms(2) by (intro index_entry_step(2) [OF d5]) simp_all
  have "index_entries f le (Suc (Suc (Suc 0))) (0, start + 10) = (int ?n, start + 46)"
    using index_entry_step(1) [OF d3, of "start + 22" "Suc (Suc 0)" 0] index_entry_step(1) [OF d4, of "start + 34" "Suc 0" 0]
      index_entry_step(1) [OF d5, of "start + 46" 0 "int ?n"] assms(2) by (simp add: wrap32_id del: index_entries.simps(2))
  then have idx: "index_entries f le 3 (0, start + 10) = (int ?n, start + 46)"
    by (simp only: numeral_3_eq_3)
  have r4: "read4 f le (start + 46) = (0, start + 50)" "drop (start + 50) f = concat (map (image_entry le) images) @ q"
    by (rule read4_bytes [OF d6]; simp)+
  have le: "?e = 0x49492A00 \<longleftrightarrow> le"
    by simp
  show ?thesis
    using read_images_written [OF r4(2), of 0 start "[]"] assms(2-4)
    by (simp only: mpo_index_def r1 r2 r3 r4(1) idx Let_def prod.case le seek nat_int add_0 append_Nil option.case sum.case refl
        if_True if_False not_False_eq_True)
qed

lemma mpo_segments:
  assumes "drop pos f = concat (map other_segment segs) @ q" "list_all segment_ok segs" "q \<noteq> []"
  shows "mpo_loop f (length segs + n) pos = mpo_loop f n (pos + length (concat (map other_segment segs)))"
  using assms
proof (induction segs arbitrary: pos)
  case (Cons seg segs)
  obtain m d where seg: "seg = (m, d)"
    by fastforce
  have ok: "m < 65536" "m \<noteq> 0xFFE2" "length d + 2 < 65536"
    using Cons.prems(2) by (simp_all add: seg segment_ok_def)
  obtain p1 p2 p3 where p: "pos + 2 = p1" "p1 + 2 = p2" "p2 + length d = p3"
    by blast
  have d0: "drop pos f = num_bytes False 2 m @ num_bytes False 2 (length d + 2) @ d @ concat (map other_segment segs) @ q"
    using Cons.prems(1) by (simp add: seg other_segment_def)
  note r1 = read2_bytes [OF d0 ok(1) p(1)]
  note r2 = read2_bytes [OF r1(2) ok(3) p(2)]
  have "drop p3 f = concat (map other_segment segs) @ q"
    using arg_cong [OF r2(2), of "drop (length d)"] p(3) by (simp add: add.commute)
  moreover have "pos < length f"
    using Cons.prems(1,3) by (metis append_is_Nil_conv drop_all not_less)
  moreover have "mpo_segment f pos = Mpo_next p3"
    using ok(2) p(3) by (auto simp: mpo_segment_def r1(1) r2(1))
  moreover have "pos + length (other_segment seg) = p3"
    using p by (auto simp: seg other_segment_def)
  ultimately show ?case
    using Cons.IH [of p3] Cons.prems(2,3) by (auto simp: add.assoc [symmetric])
qed simp

text \<open>
  C37: From an MPO file, in either byte order and with any segments before its index, \<open>parseFile\<close> returns
  the number of pictures and their bytes at the positions in the index, the first one from the beginning of
  the file, when there are at most 32 and all lie inside the file.
\<close>

theorem mpo_pictures_found:
  assumes "f = mpo_file le segs images rest" "list_all segment_ok segs" "length images \<le> 32" "length f < 2 ^ 31"
    and "length (mpf_block le images) + 6 < 65536" "length segs < n"
    and "\<And>k. k < length images \<Longrightarrow> image_at (mpf_start segs) k (images ! k) + fst (images ! k) \<le> length f \<and>
      mpf_start segs + snd (images ! k) < 2 ^ 31"
  shows "mpo_parseFile (Some f) n = Some (Mpo_end (int (length images))
    (map (\<lambda>k. slice (image_at (mpf_start segs) k (images ! k)) (fst (images ! k)) f) [0..<length images]))"
proof -
  let ?s = "concat (map other_segment segs)" and ?id = "[0x4D, 0x50, 0x46, 0] :: byte list" and ?b = "mpf_block le images"
  obtain m where n: "n = length segs + Suc m"
    using assms(6) less_imp_Suc_add by force
  have d0: "drop 0 f = num_bytes False 2 0xFFD8 @ ?s @ num_bytes False 2 0xFFE2 @ num_bytes False 2 (length ?b + 6) @ ?id @ ?b @ rest"
    by (simp add: assms(1) mpo_file_def)
  have soi: "read2 f False 0 = (0xFFD8, 2)"
    by (rule read2_bytes(1) [OF d0]) simp_all
  have d1: "drop 2 f = ?s @ num_bytes False 2 0xFFE2 @ num_bytes False 2 (length ?b + 6) @ ?id @ ?b @ rest"
    by (rule read2_bytes(2) [OF d0]) simp_all
  obtain p p1 p2 where p: "2 + length ?s = p" "p + 2 = p1" "p1 + 2 = p2"
    by blast
  have d2: "drop p f = num_bytes False 2 0xFFE2 @ num_bytes False 2 (length ?b + 6) @ ?id @ ?b @ rest"
    using arg_cong [OF d1, of "drop (length ?s)"] p(1) by (simp add: add.commute)
  note r1 = read2_bytes [OF d2 _ p(2)]
  note r2 = read2_bytes [OF r1(2) assms(5) p(3)]
  have start: "p2 + 4 = mpf_start segs"
    using p by (simp add: mpf_start_def)
  have id: "fread f 4 p2 = (?id, mpf_start segs)"
    using r2(2) start by (simp add: fread_def slice_def)
  have d3: "drop (mpf_start segs) f = ?b @ rest"
    using arg_cong [OF r2(2), of "drop 4"] start by (simp add: add.commute)
  have "mpo_segment f p = mpo_index f (mpf_start segs)"
    by (simp add: mpo_segment_def r1(1) r2(1) id)
  moreover have "p < length f"
  proof (rule ccontr)
    assume "\<not> p < length f"
    then show False
      using d2 by (metis append_is_Nil_conv drop_all length_le_number(2) list.size(3) not_less zero_neq_numeral)
  qed
  moreover have "mpo_loop f n 2 = mpo_loop f (Suc m) p"
    unfolding n p(1) [symmetric] using d1 assms(2) by (rule mpo_segments) (metis append_is_Nil_conv length_le_number(2) list.size(3) zero_neq_numeral)
  ultimately show ?thesis
    using mpo_index_written [OF d3 assms(3,4,7)] soi by (simp add: mpo_parseFile_def)
qed

lemma length_mpf_block: "length (mpf_block le images) = 50 + 16 * length images"
proof -
  have "length (concat (map (image_entry le) images)) = 16 * length images"
    by (induction images) (auto simp: image_entry_def)
  then show ?thesis
    by (simp add: mpf_block_def index_entry_def)
qed

definition some_mpo :: "byte list" where
  "some_mpo = mpo_file True [(0xFFE1, [1, 2, 3])] [(60, 0), (20, 30)] []"

theorem mpo_pictures_found_witness:
  "mpo_parseFile (Some some_mpo) 5 = Some (Mpo_end 2 [slice 0 60 some_mpo, slice 47 20 some_mpo])"
proof -
  obtain im :: "(nat \<times> nat) list" where im: "im = [(60, 0), (20, 30)]"
    by blast
  obtain segs :: "(nat \<times> byte list) list" where segs: "segs = [(0xFFE1, [1, 2, 3])]"
    by blast
  have start: "mpf_start segs = 17"
    by (simp add: mpf_start_def other_segment_def segs)
  have len: "length some_mpo = 99" "length im = 2"
    by (simp_all add: some_mpo_def mpo_file_def other_segment_def length_mpf_block im)
  have "image_at 17 k (im ! k) + fst (im ! k) \<le> 99 \<and> 17 + snd (im ! k) < 2 ^ 31" if "k < 2" for k
    using that by (auto simp: less_2_cases_iff image_at_def im)
  moreover have "[0..<2] = [0, 1 :: nat]"
    by (simp add: upt_rec)
  moreover have "some_mpo = mpo_file True segs im []"
    by (simp add: some_mpo_def im segs)
  ultimately show ?thesis
    using mpo_pictures_found [of some_mpo True segs im "[]" 5] start len
    by (simp add: length_mpf_block segment_ok_def segs) (simp add: im image_at_def)
qed

section \<open>3DP files written and read\<close>

definition chunk_3dp :: "byte list \<Rightarrow> byte list \<Rightarrow> nat \<Rightarrow> nat \<Rightarrow> byte list \<Rightarrow> byte list" where
  "chunk_3dp soi tag w h d = soi @ dummy_value @ num_bytes False 4 (27 + length d) @ tag @ num_bytes False 2 w @
     num_bytes False 2 h @ [1] @ d"

lemma read_header_chunk:
  assumes "drop pos f = chunk_3dp soi tag w h d @ q" "length soi = 2" "length tag = 4" "w < 65536" "h < 65536"
    "27 + length d < 2 ^ 31"
  shows "read_header_3dp f pos =
    Some \<lparr>h_dummy = dummy_value, h_chunk_size = 27 + length d, h_width = w, h_height = h\<rparr>"
proof -
  let ?h = "soi @ dummy_value @ num_bytes False 4 (27 + length d) @ tag @ num_bytes False 2 w @ num_bytes False 2 h @ [1]"
  have len: "length dummy_value = 12"
    by (simp add: dummy_value_def)
  have "slice pos 27 f = ?h"
    using assms(1-3) len by (simp add: slice_def chunk_3dp_def)
  moreover have "slice 2 12 ?h = dummy_value" "slice 14 4 ?h = num_bytes False 4 (27 + length d)"
    "slice 22 2 ?h = num_bytes False 2 w" "slice 24 2 ?h = num_bytes False 2 h"
    using assms(2,3) len by (simp_all add: slice_def)
  moreover have "le_value (swapendian (num_bytes False k n)) = n" if "n < 256 ^ k" for k n
    using le_value_bytes [OF that] by (simp add: swapendian_rev num_bytes_def)
  moreover have "length ?h = 27"
    using assms(2,3) len by simp
  ultimately show ?thesis
    using assms(4-6) by (simp add: read_header_3dp_def fread_def Let_def)
qed

text \<open>
  From a .3dp file of two chunks, each with its size in its header, the parser returns both chunks,
  headers included, and the width and height of the first.
\<close>

theorem chunks_3dp_found:
  assumes "length soi = 2" "length tag = 4" "w < 65536" "h < 65536" "length soi' = 2" "length tag' = 4" "w' < 65536" "h' < 65536"
    and "length (chunk_3dp soi tag w h d) < 2 ^ 31" "length (chunk_3dp soi' tag' w' h' d') < 2 ^ 31"
  shows "parseFile_3dp (Some (chunk_3dp soi tag w h d @ chunk_3dp soi' tag' w' h' d' @ rest)) =
    Some ([chunk_3dp soi tag w h d, chunk_3dp soi' tag' w' h' d'], w, h)"
proof -
  obtain c1 c2 where c: "chunk_3dp soi tag w h d = c1" "chunk_3dp soi' tag' w' h' d' = c2"
    by blast
  let ?f = "c1 @ c2 @ rest"
  have len: "length c1 = 27 + length d" "length c2 = 27 + length d'"
    using assms(1,2,5,6) by (simp_all add: chunk_3dp_def dummy_value_def flip: c)
  have h1: "read_header_3dp ?f 0 = Some \<lparr>h_dummy = dummy_value, h_chunk_size = length c1, h_width = w, h_height = h\<rparr>"
    using read_header_chunk [of 0 ?f soi tag w h d "c2 @ rest"] assms(1-4,9) by (simp add: c len)
  have h2: "read_header_3dp ?f (length c1) =
      Some \<lparr>h_dummy = dummy_value, h_chunk_size = length c2, h_width = w', h_height = h'\<rparr>"
    using read_header_chunk [of "length c1" ?f soi' tag' w' h' d' rest] assms(5-8,10) by (simp add: c len)
  have seek: "seek_set (of_nat (length c1)) p = length c1" for p
    using assms(9) by (intro seek_small) (simp add: c)
  show ?thesis
    unfolding c by (simp add: parseFile_3dp_def h1 h2 seek fread_def slice_def)
qed

theorem chunks_3dp_found_witness:
  "parseFile_3dp (Some (chunk_3dp [0xFF, 0xD8] [1, 2, 3, 4] 640 480 [5] @ chunk_3dp [0xFF, 0xD8] [1, 2, 3, 4] 640 480 [6, 7])) =
    Some ([chunk_3dp [0xFF, 0xD8] [1, 2, 3, 4] 640 480 [5], chunk_3dp [0xFF, 0xD8] [1, 2, 3, 4] 640 480 [6, 7]], 640, 480)"
  using chunks_3dp_found [of "[0xFF, 0xD8]" "[1, 2, 3, 4]" 640 480 "[0xFF, 0xD8]" "[1, 2, 3, 4]" 640 480 "[5]" "[6, 7]" "[]"]
  by (simp add: chunk_3dp_def dummy_value_def)

end
