(* ===== verification/Playlist.thy ===== *)
theory Playlist
  imports Prelude
begin

text \<open>
  Blu-ray play lists (\<open>mvc_interlacer/tsdemux/mpls.cpp\<close>): the numbers of the clips, and the dates of an
  extension.  The file is a buffer of its size; \<^theory_text>\<open>None\<close> is a read outside the buffer, or of an
  entry of \<open>chapters\<close> that does not exist.  A pointer into the buffer is its offset.
\<close>

section \<open>The parser\<close>

definition get_ui32 :: "byte list \<Rightarrow> nat \<Rightarrow> nat option" where
  "get_ui32 f p = do {
     a \<leftarrow> rd f (int p); b \<leftarrow> rd f (int p + 1); c \<leftarrow> rd f (int p + 2); d \<leftarrow> rd f (int p + 3);
     Some (nat (be32 a b c d)) }"

definition get_ui16 :: "byte list \<Rightarrow> nat \<Rightarrow> nat option" where
  "get_ui16 f p = do { a \<leftarrow> rd f (int p); b \<leftarrow> rd f (int p + 1); Some (nat (be16 a b)) }"

text \<open>\<open>memcmp\<close> reads all bytes that it may compare.\<close>

definition same_bytes :: "byte list \<Rightarrow> nat \<Rightarrow> byte list \<Rightarrow> bool option" where
  "same_bytes f p bs = (if p + length bs \<le> length f then Some (slice p (length bs) f = bs) else None)"

text \<open>The five digits of a clip; nothing checks that they are digits.\<close>

definition clip_number :: "byte list \<Rightarrow> nat \<Rightarrow> int option" where
  "clip_number f p =
     (if p + 5 \<le> length f then Some (foldl (\<lambda>n b. n * 10 + (uint b - 48)) 0 (slice p 5 f)) else None)"

text \<open>The items; the flag is false when one begins behind the end of the list, and \<open>parse\<close> returns -1.\<close>

fun mpls_items :: "byte list \<Rightarrow> nat \<Rightarrow> nat \<Rightarrow> nat \<Rightarrow> int list \<Rightarrow> (bool \<times> int list) option" where
  "mpls_items f p2 0 p clips = Some (True, clips)"
| "mpls_items f p2 (Suc n) p clips =
     (if p > p2 then Some (False, clips)
      else do {
        item_len \<leftarrow> get_ui16 f p; clip \<leftarrow> clip_number f (p + 2);
        mpls_items f p2 n (p + 2 + item_len) (clips @ [clip]) })"

text \<open>\<open>%.2x\<close>\<close>

definition hex_digit :: "nat \<Rightarrow> char" where
  "hex_digit n = ''0123456789abcdef'' ! n"

definition hex2 :: "byte \<Rightarrow> string" where
  "hex2 b = [hex_digit (unat b div 16), hex_digit (unat b mod 16)]"

definition date_text :: "byte list \<Rightarrow> string" where
  "date_text bs = ''20'' @ hex2 (bs ! 0) @ ''-'' @ hex2 (bs ! 1) @ ''-'' @ hex2 (bs ! 2) @ '' '' @ hex2 (bs ! 3) @ '':'' @
     hex2 (bs ! 4) @ '':'' @ hex2 (bs ! 5)"

fun mpls_dates :: "byte list \<Rightarrow> nat \<Rightarrow> int list \<Rightarrow> nat \<Rightarrow> nat \<Rightarrow> nat \<Rightarrow> (int \<rightharpoonup> string) \<Rightarrow> (int \<rightharpoonup> string) option" where
  "mpls_dates f p2 chapters i 0 p m = Some m"
| "mpls_dates f p2 chapters i (Suc n) p m =
     (if p + 66 > p2 then Some m
      else do {
        ca \<leftarrow> same_bytes f (p + 44) [0x43, 0x41];
        if ca then
          if p + 18 \<le> length f \<and> i < length chapters
          then mpls_dates f p2 chapters (i + 1) n (p + 66) (m(chapters ! i \<mapsto> date_text (slice (p + 12) 6 f)))
          else None
        else mpls_dates f p2 chapters (i + 1) n (p + 66) m })"

text \<open>The section at \<open>playlist_ext_offset\<close>.\<close>

definition mpls_ext :: "byte list \<Rightarrow> int list \<Rightarrow> nat \<Rightarrow> (int \<rightharpoonup> string) \<Rightarrow> (int \<rightharpoonup> string) option" where
  "mpls_ext f chapters off m = do {
     l \<leftarrow> get_ui32 f off;
     let p = off + 4;
     let p2 = p + l;
     plex \<leftarrow> (if p + 4 \<le> p2 then same_bytes f (p + 20) [0x50, 0x4C, 0x45, 0x58] else Some False);
     if plex \<and> p + 348 + 2 \<le> p2 then do {
       n \<leftarrow> get_ui16 f (p + 348);
       mpls_dates f p2 chapters 0 n (p + 350) m }
     else Some m }"

text \<open>\<open>parse\<close>, on the file if it can be read: the result, the play list and the dates.\<close>

definition mpls_parse ::
  "byte list option \<Rightarrow> int list \<Rightarrow> (int \<rightharpoonup> string) \<Rightarrow> (int \<times> int list \<times> (int \<rightharpoonup> string)) option" where
  "mpls_parse f_opt playlist datetime =
     (case f_opt of
        None \<Rightarrow> Some (-1, playlist, datetime)
      | Some f \<Rightarrow> do {
          magic \<leftarrow> same_bytes f 0 [0x4D, 0x50, 0x4C, 0x53, 0x30];
          if \<not> magic then Some (-1, playlist, datetime)
          else do {
            playlist_offset \<leftarrow> get_ui32 f 8; mark_offset \<leftarrow> get_ui32 f 12; ext_offset \<leftarrow> get_ui32 f 16;
            if playlist_offset > length f \<or> mark_offset > length f \<or> ext_offset > length f
            then Some (-1, playlist, datetime)
            else do {
              (ok, chapters) \<leftarrow>
                (if playlist_offset = 0 then Some (True, [])
                 else do {
                   l \<leftarrow> get_ui32 f playlist_offset;
                   n \<leftarrow> get_ui16 f (playlist_offset + 6);
                   mpls_items f (playlist_offset + 4 + l) n (playlist_offset + 10) [] });
              if \<not> ok then Some (-1, playlist @ chapters, datetime)
              else do {
                m \<leftarrow> (if ext_offset = 0 then Some datetime else mpls_ext f chapters ext_offset datetime);
                Some (0, playlist @ chapters, m) } } } })"

section \<open>Writing a play list\<close>

definition digits5 :: "nat \<Rightarrow> byte list" where
  "digits5 n = map (\<lambda>k. of_nat (48 + n div 10 ^ k mod 10)) [4, 3, 2, 1, 0]"

text \<open>An item: its clip and the rest of its bytes.\<close>

definition play_item_bytes :: "nat \<times> byte list \<Rightarrow> byte list" where
  "play_item_bytes = (\<lambda>(c, d). w16 (int (5 + length d)) @ digits5 c @ d)"

definition item_ok :: "nat \<times> byte list \<Rightarrow> bool" where
  "item_ok = (\<lambda>(c, d). c < 100000 \<and> 5 + length d < 65536)"

text \<open>The entry of a clip in the extension: 66 bytes, six of which are a date if the two at 44 say so.\<close>

definition entry_ok :: "byte list \<Rightarrow> bool" where
  "entry_ok e \<longleftrightarrow> length e = 66"

definition dated :: "byte list \<Rightarrow> bool" where
  "dated e \<longleftrightarrow> slice 44 2 e = [0x43, 0x41]"

definition clip_section :: "(nat \<times> byte list) list \<Rightarrow> byte list" where
  "clip_section items = [0, 0] @ w16 (int (length items)) @ [0, 0] @ concat (map play_item_bytes items)"

definition date_section :: "byte list \<Rightarrow> byte list \<Rightarrow> byte list list \<Rightarrow> byte list" where
  "date_section a b entries = a @ [0x50, 0x4C, 0x45, 0x58] @ b @ w16 (int (length entries)) @ concat entries"

definition mpls_file :: "(nat \<times> byte list) list \<Rightarrow> byte list \<Rightarrow> byte list \<Rightarrow> byte list list \<Rightarrow> byte list" where
  "mpls_file items a b entries =
     (let list = clip_section items; ext = date_section a b entries
      in [0x4D, 0x50, 0x4C, 0x53, 0x30, 0x32, 0x30, 0x30] @ w32 20 @ w32 0 @ w32 (24 + int (length list)) @
         w32 (int (length list)) @ list @ w32 (int (length ext)) @ ext)"

definition dates_of :: "(nat \<times> byte list) list \<Rightarrow> byte list list \<Rightarrow> (int \<rightharpoonup> string) \<Rightarrow> (int \<rightharpoonup> string)" where
  "dates_of items entries m =
     fold (\<lambda>((c, _), e) m. if dated e then m(int c \<mapsto> date_text (slice 12 6 e)) else m) (zip items entries) m"

lemma get_ui32_bytes:
  assumes "drop p f = w32 (int n) @ q" "n < 2 ^ 32" "p + 4 = p'"
  shows "get_ui32 f p = Some n" "drop p' f = q"
proof -
  have "0 \<le> int n" "int n < 2 ^ 32"
    using assms(2) by simp_all
  then obtain a b c d where "w32 (int n) = [a, b, c, d]" "be32 a b c d = int n"
    by (rule be32_split)
  then show "get_ui32 f p = Some n"
    using rd_at [of f p 0] rd_at [of f p 1] rd_at [of f p 2] rd_at [of f p 3] assms(1)
    by (simp add: get_ui32_def rd_tail rd_def)
  show "drop p' f = q"
    using arg_cong [OF assms(1), of "drop 4"] assms(3) by (simp add: add.commute)
qed

lemma get_ui16_bytes:
  assumes "drop p f = w16 (int n) @ q" "n < 65536" "p + 2 = p'"
  shows "get_ui16 f p = Some n" "drop p' f = q"
proof -
  obtain a b where *: "w16 (int n) = [a, b]" "be16 a b = int n"
    using assms(2) by (rule w16_split)
  then show "get_ui16 f p = Some n"
    using rd_at [of f p 0] rd_at [of f p 1] assms(1) by (simp add: get_ui16_def rd_tail rd_def)
  show "drop p' f = q"
    using arg_cong [OF assms(1), of "drop 2"] assms(3) by (simp add: add.commute)
qed

lemma clip_number_digits:
  assumes "drop p f = digits5 c @ q" "c < 100000"
  shows "clip_number f p = Some (int c)"
proof -
  have digit: "uint (of_nat (48 + k mod 10) :: byte) - 48 = int (k mod 10)" for k
  proof -
    have "48 + k mod 10 < 256"
      using mod_less_divisor [of 10 k] by linarith
    then show ?thesis
      by (simp add: unsigned_of_nat take_bit_eq_mod del: of_nat_add)
  qed
  have "p + 5 \<le> length f"
    using arg_cong [OF assms(1), of length] by (simp add: digits5_def)
  moreover have "slice p 5 f = digits5 c"
    using assms(1) by (simp add: slice_def digits5_def)
  moreover have "foldl (\<lambda>n b. n * 10 + (uint b - 48)) 0 (digits5 c) = int c"
  proof -
    have "foldl (\<lambda>n b. n * 10 + (uint b - 48)) 0 (digits5 c) =
        int ((((c div 10000 mod 10 * 10 + c div 1000 mod 10) * 10 + c div 100 mod 10) * 10 + c div 10 mod 10) * 10 + c mod 10)"
      unfolding digits5_def by (simp only: list.map foldl.simps digit) simp
    moreover have "c div 10000 < 10"
      using assms(2) by (simp add: less_mult_imp_div_less)
    then have "c div 10000 mod 10 = c div 10000"
      by simp
    moreover have "c div 10000 = c div 1000 div 10" "c div 1000 = c div 100 div 10" "c div 100 = c div 10 div 10"
      by (simp_all flip: div_mult2_eq)
    ultimately show ?thesis
      by (simp only: div_mult_mod_eq)
  qed
  ultimately show ?thesis
    by (simp add: clip_number_def)
qed

lemma mpls_items_written:
  assumes "drop p f = concat (map play_item_bytes items) @ q" "list_all item_ok items" "p + length (concat (map play_item_bytes items)) \<le> p2"
  shows "mpls_items f p2 (length items) p clips = Some (True, clips @ map (int \<circ> fst) items)"
  using assms
proof (induction items arbitrary: p clips)
  case (Cons item items)
  obtain c d where item: "item = (c, d)"
    by fastforce
  have d0: "drop p f = w16 (int (5 + length d)) @ digits5 c @ d @ concat (map play_item_bytes items) @ q"
    using Cons.prems(1) by (simp add: item play_item_bytes_def)
  have ok: "5 + length d < 65536" "c < 100000"
    using Cons.prems(2) by (simp_all add: item item_ok_def)
  note r1 = get_ui16_bytes [OF d0 ok(1) refl]
  have len: "length (digits5 c) = 5"
    by (simp add: digits5_def)
  have "drop (5 + length d) (drop (p + 2) f) = concat (map play_item_bytes items) @ q"
    unfolding r1(2) using len by simp
  then have rest: "drop (p + 2 + (5 + length d)) f = concat (map play_item_bytes items) @ q"
    by (simp add: add.commute)
  have "length (play_item_bytes item) = 2 + (5 + length d)"
    using len by (simp add: item play_item_bytes_def)
  then show ?case
    using Cons.IH [OF rest, of "clips @ [int c]"] Cons.prems(2,3) r1(1) clip_number_digits [OF r1(2) ok(2)]
    by (simp add: item)
qed simp

lemma same_bytes_at:
  assumes "drop p f = bs @ q" "length bs = length cs" "bs \<noteq> []"
  shows "same_bytes f p cs = Some (bs = cs)"
proof -
  have "p < length f"
    using assms(1,3) by (metis append_is_Nil_conv drop_all not_less)
  then have "p + length bs \<le> length f"
    using arg_cong [OF assms(1), of length] by simp
  then show ?thesis
    using assms by (simp add: same_bytes_def slice_def)
qed

lemma mpls_dates_written:
  assumes "drop p f = concat entries @ q" "list_all entry_ok entries" "p + 66 * length entries \<le> p2"
    and "i + length entries \<le> length items"
  shows "mpls_dates f p2 (map (int \<circ> fst) items) i (length entries) p m = Some (dates_of (drop i items) entries m)"
  using assms
proof (induction entries arbitrary: p i m)
  case (Cons e es)
  have len: "length e = 66"
    using Cons.prems(2) by (simp add: entry_ok_def)
  have d: "drop p f = e @ concat es @ q"
    using Cons.prems(1) by simp
  have "p + 66 \<le> length f"
    using arg_cong [OF d, of length] len by simp
  have rest: "drop (p + 66) f = concat es @ q"
    using arg_cong [OF d, of "drop 66"] len by (simp add: add.commute)
  have ca: "same_bytes f (p + 44) [0x43, 0x41] = Some (dated e)"
  proof -
    have "drop 44 (drop p f) = slice 44 2 e @ drop 46 e @ concat es @ q"
      unfolding d using len append_take_drop_id [of 2 "drop 44 e"] by (simp add: slice_def)
    then show ?thesis
      using same_bytes_at [of "p + 44" f "slice 44 2 e" _ "[0x43, 0x41]"] len
      by (simp add: dated_def add.commute flip: length_greater_0_conv)
  qed
  have tx: "slice (p + 12) 6 f = slice 12 6 e"
    using arg_cong [OF d, of "drop 12"] len by (simp add: slice_def add.commute)
  have i: "i < length items"
    using Cons.prems(4) by simp
  obtain c d' where item: "items ! i = (c, d')"
    by fastforce
  have "drop i items = (c, d') # drop (Suc i) items"
    using i item by (metis Cons_nth_drop_Suc)
  then show ?case
    using Cons.IH [OF rest, of "i + 1"] Cons.prems(2-4) ca tx i item \<open>p + 66 \<le> length f\<close>
    by (simp add: dates_of_def)
qed (simp add: dates_of_def)

lemma drop_after: "drop p f = u @ v \<Longrightarrow> p + length u = p' \<Longrightarrow> drop p' f = v"
  by (drule arg_cong [of _ _ "drop (length u)"]) (simp add: add.commute)

lemma clip_section_written:
  assumes d: "drop p f = w32 (int (length (clip_section items))) @ clip_section items @ q"
    and "length (clip_section items) < 2 ^ 32" "length items < 65536" "list_all item_ok items"
  shows "get_ui32 f p = Some (length (clip_section items))" "get_ui16 f (p + 6) = Some (length items)"
    "mpls_items f (p + 4 + length (clip_section items)) (length items) (p + 10) [] = Some (True, map (int \<circ> fst) items)"
    "drop (p + 4 + length (clip_section items)) f = q"
proof -
  note r = get_ui32_bytes [OF d assms(2) refl]
  show "get_ui32 f p = Some (length (clip_section items))"
    by (rule r(1))
  show "drop (p + 4 + length (clip_section items)) f = q"
    by (rule drop_after [OF r(2) refl])
  have "drop (p + 4) f = [0, 0] @ w16 (int (length items)) @ [0, 0] @ concat (map play_item_bytes items) @ q"
    using r(2) by (simp add: clip_section_def)
  then have d6: "drop (p + 6) f = w16 (int (length items)) @ [0, 0] @ concat (map play_item_bytes items) @ q"
    by (rule drop_after) simp
  show "get_ui16 f (p + 6) = Some (length items)"
    by (rule get_ui16_bytes(1) [OF d6 assms(3) refl])
  have "drop (p + 10) f = concat (map play_item_bytes items) @ q"
    by (rule drop_after [OF get_ui16_bytes(2) [OF d6 assms(3) refl]]) simp
  then show "mpls_items f (p + 4 + length (clip_section items)) (length items) (p + 10) [] = Some (True, map (int \<circ> fst) items)"
    using mpls_items_written [of "p + 10" f items q _ "[]"] assms(4) by (simp add: clip_section_def)
qed

lemma date_section_written:
  assumes d: "drop p f = w32 (int (length (date_section a b entries))) @ date_section a b entries @ []"
    and "length (date_section a b entries) < 2 ^ 32" "length a = 20" "length b = 324"
    and "length items < 65536" "length entries \<le> length items" "list_all entry_ok entries"
  shows "mpls_ext f (map (int \<circ> fst) items) p m = Some (dates_of items entries m)"
proof -
  note r = get_ui32_bytes [OF d assms(2) refl]
  have dx: "drop (p + 4) f = a @ [0x50, 0x4C, 0x45, 0x58] @ b @ w16 (int (length entries)) @ concat entries"
    using r(2) by (simp add: date_section_def)
  have "drop (p + 4 + 20) f = [0x50, 0x4C, 0x45, 0x58] @ b @ w16 (int (length entries)) @ concat entries"
    using assms(3) by (intro drop_after [OF dx]) simp
  then have plex: "same_bytes f (p + 4 + 20) [0x50, 0x4C, 0x45, 0x58] = Some True"
    by (subst same_bytes_at) simp_all
  have dn: "drop (p + 4 + 348) f = w16 (int (length entries)) @ concat entries"
  proof (rule drop_after)
    show "drop (p + 4) f = (a @ [0x50, 0x4C, 0x45, 0x58] @ b) @ w16 (int (length entries)) @ concat entries"
      unfolding dx by (simp only: append_assoc)
    show "p + 4 + length (a @ [0x50, 0x4C, 0x45, 0x58] @ b) = p + 4 + 348"
      using assms(3,4) by simp
  qed
  have en: "length entries < 65536"
    using assms(5,6) by simp
  note rn = get_ui16_bytes [OF dn en]
  have de: "drop (p + 4 + 350) f = concat entries @ []"
    using rn(2) by simp
  have lc: "length (concat entries) = 66 * length entries"
    using assms(7) by (induction entries) (simp_all add: entry_ok_def)
  have "mpls_dates f (p + 4 + length (date_section a b entries)) (map (int \<circ> fst) items) 0 (length entries) (p + 4 + 350) m =
      Some (dates_of items entries m)"
    using mpls_dates_written [OF de assms(7), of _ 0 items m] assms(3,4,6) lc by (simp add: date_section_def)
  moreover have "350 \<le> length (date_section a b entries)"
    using assms(3,4) by (simp add: date_section_def)
  ultimately show ?thesis
    unfolding mpls_ext_def r(1) bind.bind_lunit Let_def plex using rn(1) [OF refl] by simp
qed

text \<open>
  C38: From a play list file, \<open>parse\<close> appends the numbers of all its clips to the play list, in order, and
  records for each clip whose entry in the extension carries a date that date, and nothing else.
\<close>

theorem playlist_is_read:
  assumes "list_all item_ok items" "length items < 65536" "length entries \<le> length items" "list_all entry_ok entries"
    and "length a = 20" "length b = 324" "length (mpls_file items a b entries) < 2 ^ 31"
  shows "mpls_parse (Some (mpls_file items a b entries)) playlist m =
    Some (0, playlist @ map (int \<circ> fst) items, dates_of items entries m)"
proof -
  let ?l = "clip_section items" and ?x = "date_section a b entries"
  obtain f where f: "mpls_file items a b entries = f"
    by blast
  obtain p where p: "24 + length ?l = p"
    by blast
  have d0: "drop 0 f = [0x4D, 0x50, 0x4C, 0x53, 0x30] @ [0x32, 0x30, 0x30] @ w32 (int 20) @ w32 (int 0) @ w32 (int p) @
      w32 (int (length ?l)) @ ?l @ w32 (int (length ?x)) @ ?x"
    by (simp add: mpls_file_def Let_def flip: f p)
  have "length f = p + 4 + length ?x"
    using arg_cong [OF d0, of length] p by simp
  then have small: "p < 2 ^ 32" "length ?l < 2 ^ 32" "length ?x < 2 ^ 32" "p \<le> length f"
    using assms(7) p unfolding f by simp_all
  have magic: "same_bytes f 0 [0x4D, 0x50, 0x4C, 0x53, 0x30] = Some True"
    using same_bytes_at [OF d0] by simp
  have d8: "drop 8 f = w32 (int 20) @ w32 (int 0) @ w32 (int p) @ w32 (int (length ?l)) @ ?l @ w32 (int (length ?x)) @ ?x"
    using arg_cong [OF d0, of "drop 8"] by simp
  note r8 = get_ui32_bytes [OF d8, of 12]
  note r12 = get_ui32_bytes [OF r8(2), of 16]
  note r16 = get_ui32_bytes [OF r12(2) small(1), of 20]
  note clips = clip_section_written [OF r16(2) small(2) assms(2,1)]
  have "drop p f = w32 (int (length ?x)) @ ?x @ []"
    using clips(4) p by simp
  note dates = date_section_written [OF this small(3) assms(5,6,2,3,4)]
  have "p \<noteq> 0"
    using p by simp
  have "mpls_parse (Some f) playlist m = (case Some (True, map (int \<circ> fst) items) of None \<Rightarrow> None
     | Some (ok, ch) \<Rightarrow> if \<not> ok then Some (-1, playlist @ ch, m)
         else Option.bind (mpls_ext f ch p m) (\<lambda>m. Some (0, playlist @ ch, m)))"
    using small(4) \<open>p \<noteq> 0\<close> p clips(1-3) r8(1) r12(1) r16(1) by (simp add: mpls_parse_def magic)
  then show ?thesis
    by (simp add: f dates)
qed

definition some_entry :: "byte list" where
  "some_entry = replicate 12 0 @ [0x11, 0x07, 0x23, 0x18, 0x05, 0x59] @ replicate 26 0 @ [0x43, 0x41] @ replicate 20 0"

theorem playlist_is_read_witness:
  "mpls_parse (Some (mpls_file [(7, [1]), (123, [])] (replicate 20 0) (replicate 324 0) [some_entry])) [5] (\<lambda>_. None) =
    Some (0, [5, 7, 123], dates_of [(7, [1]), (123, [])] [some_entry] (\<lambda>_. None))"
proof -
  have len: "length some_entry = 66"
    by (simp add: some_entry_def)
  then have "length (mpls_file [(7, [1]), (123, [])] (replicate 20 0) (replicate 324 0) [some_entry]) < 2 ^ 31"
    by (simp add: mpls_file_def clip_section_def date_section_def play_item_bytes_def digits5_def Let_def)
  then show ?thesis
    using playlist_is_read [of "[(7, [1]), (123, [])]" "[some_entry]" "replicate 20 0" "replicate 324 0" "[5]" "\<lambda>_. None"]
    by (simp add: item_ok_def entry_ok_def len)
qed

lemma some_date: "date_text (slice 12 6 some_entry) = ''2011-07-23 18:05:59''"
  by (simp add: date_text_def some_entry_def slice_def hex2_def hex_digit_def)

text \<open>A file shorter than its magic number is compared behind its end.\<close>

theorem short_playlist_overrun: "length f < 5 \<Longrightarrow> mpls_parse (Some f) playlist m = None"
  by (simp add: mpls_parse_def same_bytes_def)

end
