(* ===== verification/UiTree.thy ===== *)
theory UiTree
  imports Prelude
begin

text \<open>
  The tree of user interface objects (\<open>UILayout/BaseUI.cpp\<close>).  Objects are shared and updated in place, so
  they live in a store, a map from addresses to objects; the address of a deleted object is not in it.
  \<^theory_text>\<open>None\<close> is the use of an object that does not exist, or a recursion that has not ended within
  the depth given.
\<close>

section \<open>Objects\<close>

record ui_object =
  m_id :: int
  m_parent :: "nat option"
  m_childs :: "nat list"

record ui =
  ui_store :: "nat \<rightharpoonup> ui_object"
  m_unique_id :: int

text \<open>\<open>RegisterObject\<close> and the constructor of an object at a new address.\<close>

definition RegisterObject :: "ui \<Rightarrow> int \<times> ui" where
  "RegisterObject u = (m_unique_id u, u\<lparr>m_unique_id := m_unique_id u + 1\<rparr>)"

definition new_object :: "nat \<Rightarrow> ui \<Rightarrow> ui" where
  "new_object a u =
     (let (i, u) = RegisterObject u in u\<lparr>ui_store := (ui_store u)(a \<mapsto> \<lparr>m_id = i, m_parent = None, m_childs = []\<rparr>)\<rparr>)"

definition set_parent :: "nat option \<Rightarrow> nat \<Rightarrow> (nat \<rightharpoonup> ui_object) \<Rightarrow> (nat \<rightharpoonup> ui_object) option" where
  "set_parent p a st = map_option (\<lambda>obj. st(a \<mapsto> obj\<lparr>m_parent := p\<rparr>)) (st a)"

text \<open>The child is a null pointer or an address.\<close>

definition AddChild :: "nat \<Rightarrow> nat option \<Rightarrow> (nat \<rightharpoonup> ui_object) \<Rightarrow> (hresult \<times> (nat \<rightharpoonup> ui_object)) option" where
  "AddChild a child st = do {
     obj \<leftarrow> st a;
     if length (m_childs obj) \<ge> 32 then Some (E_UNEXPECTED, st)
     else case child of
       None \<Rightarrow> Some (E_POINTER, st)
     | Some c \<Rightarrow> map_option (Pair S_OK) (set_parent (Some a) c (st(a \<mapsto> obj\<lparr>m_childs := m_childs obj @ [c]\<rparr>))) }"

definition RemoveChild :: "nat \<Rightarrow> int \<Rightarrow> (nat \<rightharpoonup> ui_object) \<Rightarrow> (hresult \<times> (nat \<rightharpoonup> ui_object)) option" where
  "RemoveChild a pos st = do {
     obj \<leftarrow> st a;
     if pos < 0 \<or> pos \<ge> int (length (m_childs obj)) then Some (E_INVALIDARG, st)
     else do {
       st \<leftarrow> set_parent None (m_childs obj ! nat pos) st;
       obj \<leftarrow> st a;
       Some (S_OK, st(a \<mapsto> obj\<lparr>m_childs := take (nat pos) (m_childs obj) @ drop (nat pos + 1) (m_childs obj)\<rparr>)) } }"

text \<open>Reading: the flag says whether there is a place for the result.\<close>

definition GetChild :: "nat \<Rightarrow> int \<Rightarrow> bool \<Rightarrow> (nat \<rightharpoonup> ui_object) \<Rightarrow> (hresult \<times> nat option) option" where
  "GetChild a pos out st =
     map_option (\<lambda>obj. if pos < 0 \<or> pos \<ge> int (length (m_childs obj)) then (E_INVALIDARG, None)
                     else if \<not> out then (E_POINTER, None) else (S_OK, Some (m_childs obj ! nat pos))) (st a)"

definition GetParent :: "nat \<Rightarrow> bool \<Rightarrow> (nat \<rightharpoonup> ui_object) \<Rightarrow> (hresult \<times> nat option) option" where
  "GetParent a out st = map_option (\<lambda>obj. if out then (S_OK, m_parent obj) else (E_POINTER, None)) (st a)"

text \<open>The destructor: the object looks for itself among the children of its parent, by its number.\<close>

fun index_of_id :: "(nat \<rightharpoonup> ui_object) \<Rightarrow> int \<Rightarrow> nat \<Rightarrow> nat list \<Rightarrow> nat option option" where
  "index_of_id st i k [] = Some None"
| "index_of_id st i k (c # cs) =
     (case st c of
        None \<Rightarrow> None
      | Some obj \<Rightarrow> if m_id obj = i then Some (Some k) else index_of_id st i (k + 1) cs)"

fun remove_childs :: "nat \<Rightarrow> nat \<Rightarrow> (nat \<rightharpoonup> ui_object) \<Rightarrow> (nat \<rightharpoonup> ui_object) option" where
  "remove_childs 0 a st = Some st"
| "remove_childs (Suc n) a st = Option.bind (RemoveChild a 0 st) (\<lambda>(_, st). remove_childs n a st)"

definition leave_parent :: "nat \<Rightarrow> (nat \<rightharpoonup> ui_object) \<Rightarrow> (nat \<rightharpoonup> ui_object) option" where
  "leave_parent a st = do {
     obj \<leftarrow> st a;
     case m_parent obj of
       None \<Rightarrow> Some st
     | Some p \<Rightarrow> do {
         po \<leftarrow> st p;
         k \<leftarrow> index_of_id st (m_id obj) 0 (m_childs po);
         case k of None \<Rightarrow> Some st | Some k \<Rightarrow> map_option snd (RemoveChild p (int k) st) } }"

definition destroy_object :: "nat \<Rightarrow> (nat \<rightharpoonup> ui_object) \<Rightarrow> (nat \<rightharpoonup> ui_object) option" where
  "destroy_object a st = do {
     st \<leftarrow> leave_parent a st;
     obj \<leftarrow> st a;
     st \<leftarrow> remove_childs (length (m_childs obj)) a st;
     Some (st(a := None)) }"

section \<open>Walks over the tree\<close>

text \<open>\<open>GetHittestObject\<close>: the object with a number, if there is one.\<close>

fun hit :: "nat \<Rightarrow> (nat \<rightharpoonup> ui_object) \<Rightarrow> int \<Rightarrow> nat \<Rightarrow> nat option option"
  and hit_childs :: "nat \<Rightarrow> (nat \<rightharpoonup> ui_object) \<Rightarrow> int \<Rightarrow> nat list \<Rightarrow> nat option option" where
  "hit 0 st i a = None"
| "hit (Suc n) st i a =
     (case st a of
        None \<Rightarrow> None
      | Some obj \<Rightarrow> if m_id obj = i then Some (Some a) else hit_childs n st i (m_childs obj))"
| "hit_childs n st i [] = Some None"
| "hit_childs n st i (c # cs) =
     (case hit n st i c of
        None \<Rightarrow> None
      | Some (Some x) \<Rightarrow> Some (Some x)
      | Some None \<Rightarrow> hit_childs n st i cs)"

definition GetHittestObject :: "nat \<Rightarrow> (nat \<rightharpoonup> ui_object) \<Rightarrow> int \<Rightarrow> bool \<Rightarrow> nat \<Rightarrow> (hresult \<times> nat option) option" where
  "GetHittestObject n st i out a =
     (if \<not> out then Some (E_POINTER, None)
      else map_option (\<lambda>r. case r of Some x \<Rightarrow> (S_OK, Some x) | None \<Rightarrow> (E_FAIL, None)) (hit n st i a))"

text \<open>\<open>Render\<close>: \<open>this\<close> is \<open>RenderThis\<close> of each object; the result has the objects rendered, in order.\<close>

definition failed :: "hresult \<Rightarrow> bool" where
  "failed hr \<longleftrightarrow> hr \<notin> {S_OK, S_FALSE, VFW_S_NO_MORE_ITEMS}"

fun render :: "nat \<Rightarrow> (nat \<Rightarrow> hresult) \<Rightarrow> (nat \<rightharpoonup> ui_object) \<Rightarrow> nat \<Rightarrow> (nat list \<times> hresult) option"
  and render_childs :: "nat \<Rightarrow> (nat \<Rightarrow> hresult) \<Rightarrow> (nat \<rightharpoonup> ui_object) \<Rightarrow> nat list \<Rightarrow> (nat list \<times> hresult) option" where
  "render 0 this st a = None"
| "render (Suc n) this st a =
     (case st a of
        None \<Rightarrow> None
      | Some obj \<Rightarrow>
          if failed (this a) then Some ([a], this a)
          else map_option (\<lambda>(r, hr). (a # r, hr)) (render_childs n this st (m_childs obj)))"
| "render_childs n this st [] = Some ([], S_OK)"
| "render_childs n this st (c # cs) =
     (case render n this st c of
        None \<Rightarrow> None
      | Some (r, hr) \<Rightarrow>
          if failed hr then Some (r, hr)
          else map_option (\<lambda>(r', hr). (r @ r', hr)) (render_childs n this st cs))"

section \<open>The walks refine walks over trees\<close>

text \<open>A tree: the address and the number of its root, and its subtrees.\<close>

datatype ui_tree = Ui_node nat int "ui_tree list"

fun represents :: "(nat \<rightharpoonup> ui_object) \<Rightarrow> nat \<Rightarrow> ui_tree \<Rightarrow> bool"
  and represents_all :: "(nat \<rightharpoonup> ui_object) \<Rightarrow> nat list \<Rightarrow> ui_tree list \<Rightarrow> bool" where
  "represents st a (Ui_node b i ts) \<longleftrightarrow>
     a = b \<and> (case st a of None \<Rightarrow> False | Some obj \<Rightarrow> m_id obj = i \<and> represents_all st (m_childs obj) ts)"
| "represents_all st [] [] = True"
| "represents_all st (c # cs) (t # ts) \<longleftrightarrow> represents st c t \<and> represents_all st cs ts"
| "represents_all st _ _ = False"

fun preorder :: "ui_tree \<Rightarrow> (nat \<times> int) list" where
  "preorder (Ui_node a i ts) = (a, i) # concat (map preorder ts)"

fun depth :: "ui_tree \<Rightarrow> nat" where
  "depth (Ui_node a i ts) = Suc (foldr max (map depth ts) 0)"

fun render_list :: "(nat \<Rightarrow> hresult) \<Rightarrow> nat list \<Rightarrow> nat list \<times> hresult" where
  "render_list this [] = ([], S_OK)"
| "render_list this (a # as) =
     (if failed (this a) then ([a], this a) else (case render_list this as of (r, hr) \<Rightarrow> (a # r, hr)))"

lemma find_append: "find P (xs @ ys) = (case find P xs of None \<Rightarrow> find P ys | Some x \<Rightarrow> Some x)"
  by (induction xs) auto

lemma render_list_ok: "\<not> failed (snd (render_list this xs)) \<Longrightarrow> snd (render_list this xs) = S_OK"
  by (induction xs) (auto split: prod.splits if_splits)

lemma render_list_append:
  "render_list this (xs @ ys) = (case render_list this xs of (r, hr) \<Rightarrow>
     if failed hr then (r, hr) else (case render_list this ys of (r', hr) \<Rightarrow> (r @ r', hr)))"
  by (induction xs) (auto simp: failed_def split: prod.splits)

lemma hit_refines:
  "represents st a t \<Longrightarrow> depth t \<le> n \<Longrightarrow>
     hit n st i a = Some (map_option fst (find (\<lambda>(b, j). j = i) (preorder t)))"
  "represents_all st cs ts \<Longrightarrow> foldr max (map depth ts) 0 \<le> n \<Longrightarrow>
     hit_childs n st i cs = Some (map_option fst (find (\<lambda>(b, j). j = i) (concat (map preorder ts))))"
proof (induction st a t and st cs ts arbitrary: n and n rule: represents_represents_all.induct)
  case (1 st a b j ts)
  then show ?case
    by (cases n) (auto split: option.splits)
next
  case (3 st c cs t ts)
  then show ?case
    by (auto simp: find_append split: option.splits)
qed auto

lemma render_refines:
  "represents st a t \<Longrightarrow> depth t \<le> n \<Longrightarrow> render n this st a = Some (render_list this (map fst (preorder t)))"
  "represents_all st cs ts \<Longrightarrow> foldr max (map depth ts) 0 \<le> n \<Longrightarrow>
     render_childs n this st cs = Some (render_list this (map fst (concat (map preorder ts))))"
proof (induction st a t and st cs ts arbitrary: n and n rule: represents_represents_all.induct)
  case (1 st a b j ts)
  then show ?case
    by (cases n) (auto split: option.splits prod.splits)
next
  case (3 st c cs t ts)
  then show ?case
    by (auto simp: render_list_append split: prod.splits)
qed auto

text \<open>
  C39: Where the store holds a tree, \<open>GetHittestObject\<close> finds the first object in pre-order with the number
  asked for, or fails when there is none, and \<open>Render\<close> renders the objects in pre-order up to the first that
  fails, whose result it returns; a recursion as deep as the tree is enough.
\<close>

theorem walks_are_preorder:
  assumes "represents st a t" "depth t \<le> n"
  shows "GetHittestObject n st i True a =
      Some (case find (\<lambda>(b, j). j = i) (preorder t) of None \<Rightarrow> (E_FAIL, None) | Some (b, _) \<Rightarrow> (S_OK, Some b)) \<and>
    render n this st a = Some (render_list this (map fst (preorder t)))"
  using hit_refines(1) [OF assms] render_refines(1) [OF assms]
  by (auto simp: GetHittestObject_def split: option.split)

definition some_store :: "nat \<rightharpoonup> ui_object" where
  "some_store = [1 \<mapsto> \<lparr>m_id = 0, m_parent = None, m_childs = [2, 3]\<rparr>,
     2 \<mapsto> \<lparr>m_id = 1, m_parent = Some 1, m_childs = []\<rparr>, 3 \<mapsto> \<lparr>m_id = 2, m_parent = Some 1, m_childs = []\<rparr>]"

theorem walks_are_preorder_witness:
  "GetHittestObject 2 some_store 2 True 1 = Some (S_OK, Some 3) \<and>
   render 2 (\<lambda>a. if a = 2 then E_FAIL else S_OK) some_store 1 = Some ([1, 2], E_FAIL)"
  using walks_are_preorder [of some_store 1 "Ui_node 1 0 [Ui_node 2 1 [], Ui_node 3 2 []]" 2 2
      "\<lambda>a. if a = 2 then E_FAIL else S_OK"]
  by (simp add: some_store_def failed_def)

section \<open>Parents and children agree\<close>

definition childs_of :: "(nat \<rightharpoonup> ui_object) \<Rightarrow> nat \<Rightarrow> nat list" where
  "childs_of st a = (case st a of None \<Rightarrow> [] | Some obj \<Rightarrow> m_childs obj)"

definition parent_of :: "(nat \<rightharpoonup> ui_object) \<Rightarrow> nat \<Rightarrow> nat option" where
  "parent_of st a = Option.bind (st a) m_parent"

definition id_of :: "(nat \<rightharpoonup> ui_object) \<Rightarrow> nat \<Rightarrow> int option" where
  "id_of st a = map_option m_id (st a)"

definition store_ok :: "(nat \<rightharpoonup> ui_object) \<Rightarrow> bool" where
  "store_ok st \<longleftrightarrow> (\<forall>a. distinct (childs_of st a) \<and> length (childs_of st a) \<le> 32) \<and>
     (\<forall>a c. c \<in> set (childs_of st a) \<longleftrightarrow> parent_of st c = Some a)"

definition ids_ok :: "ui \<Rightarrow> bool" where
  "ids_ok u \<longleftrightarrow> (\<forall>a b i. id_of (ui_store u) a = Some i \<longrightarrow> i < m_unique_id u \<and> (id_of (ui_store u) b = Some i \<longrightarrow> a = b))"

text \<open>
  Uses that keep it so: a new object is at an address that is not in use, and an object is added only when
  it has no parent.
\<close>

inductive ui_step :: "ui \<Rightarrow> ui \<Rightarrow> bool" where
  create: "ui_store u a = None \<Longrightarrow> ui_step u (new_object a u)"
| add: "ui_store u a \<noteq> None \<Longrightarrow> ui_store u c \<noteq> None \<Longrightarrow> parent_of (ui_store u) c = None \<Longrightarrow>
    AddChild a (Some c) (ui_store u) = Some (hr, st) \<Longrightarrow> ui_step u (u\<lparr>ui_store := st\<rparr>)"
| remove: "RemoveChild a pos (ui_store u) = Some (hr, st) \<Longrightarrow> ui_step u (u\<lparr>ui_store := st\<rparr>)"
| delete: "destroy_object a (ui_store u) = Some st \<Longrightarrow> ui_step u (u\<lparr>ui_store := st\<rparr>)"

inductive_cases ui_stepE: "ui_step u u'"

inductive ui_reach :: "ui \<Rightarrow> bool" where
  start: "ui_reach \<lparr>ui_store = Map.empty, m_unique_id = 0\<rparr>"
| step: "ui_reach u \<Longrightarrow> ui_step u u' \<Longrightarrow> ui_reach u'"

lemma RemoveChild_effect:
  assumes "store_ok st" "0 \<le> pos" "pos < int (length (childs_of st a))"
  shows "\<exists>st'. RemoveChild a pos st = Some (S_OK, st') \<and> id_of st' = id_of st \<and>
    parent_of st' = (parent_of st)(childs_of st a ! nat pos := None) \<and>
    childs_of st' = (childs_of st)(a := take (nat pos) (childs_of st a) @ drop (nat pos + 1) (childs_of st a))"
proof -
  obtain obj where obj: "st a = Some obj" "childs_of st a = m_childs obj"
    using assms(2,3) by (cases "st a") (auto simp: childs_of_def)
  obtain c where c: "m_childs obj ! nat pos = c" "c \<in> set (childs_of st a)"
    using assms(2,3) obj(2) nth_mem [of "nat pos" "m_childs obj"] by auto
  then obtain oc where oc: "st c = Some oc"
    using assms(1) by (auto simp: store_ok_def parent_of_def bind_eq_Some_conv)
  have pos: "\<not> (pos < 0 \<or> int (length (m_childs obj)) \<le> pos)"
    using assms(2,3) obj(2) by simp
  obtain st1 where st1: "st1 = st(c \<mapsto> oc\<lparr>m_parent := None\<rparr>)"
    by blast
  obtain o1 where o1: "st1 a = Some o1" "m_id o1 = m_id obj" "m_childs o1 = m_childs obj"
      "m_parent o1 = (if a = c then None else m_parent obj)"
    using st1 obj oc by (cases "a = c") auto
  obtain st2 where st2: "st2 = st1(a \<mapsto> o1\<lparr>m_childs := take (nat pos) (m_childs obj) @ drop (nat pos + 1) (m_childs obj)\<rparr>)"
    by blast
  have "RemoveChild a pos st = Some (S_OK, st2)"
    using obj c oc pos o1 by (simp add: RemoveChild_def set_parent_def st2 flip: st1)
  moreover have "id_of st2 = id_of st"
    using obj(1) oc o1 by (auto simp: id_of_def fun_eq_iff st2 st1)
  moreover have "parent_of st2 = (parent_of st)(c := None)"
    using obj(1) oc o1 by (auto simp: parent_of_def fun_eq_iff st2 st1)
  moreover have "childs_of st2 = (childs_of st)(a := take (nat pos) (m_childs obj) @ drop (nat pos + 1) (m_childs obj))"
    using obj(1) oc o1 by (auto simp: childs_of_def fun_eq_iff st2 st1)
  ultimately show ?thesis
    using obj(2) c(1) by auto
qed

lemma set_without: "distinct xs \<Longrightarrow> n < length xs \<Longrightarrow> set (take n xs @ drop (Suc n) xs) = set xs - {xs ! n}"
proof -
  assume d: "distinct xs" and n: "n < length xs"
  obtain ys y zs where "ys = take n xs" "y = xs ! n" "zs = drop (Suc n) xs"
    by blast
  moreover have "distinct (take n xs @ xs ! n # drop (Suc n) xs)"
    using d n by (simp add: Cons_nth_drop_Suc)
  moreover have "set xs = set (take n xs @ xs ! n # drop (Suc n) xs)"
    using n by (simp add: Cons_nth_drop_Suc del: set_append)
  ultimately show ?thesis
    by auto
qed

lemma distinct_without: "distinct xs \<Longrightarrow> distinct (take n xs @ drop (Suc n) xs)"
  using set_take_disj_set_drop_if_distinct [of xs n "Suc n"] by (simp add: distinct_append)

lemma RemoveChild_ok:
  assumes ok: "store_ok st" and pos: "0 \<le> pos" "pos < int (length (childs_of st a))"
  obtains st' where "RemoveChild a pos st = Some (S_OK, st')" "store_ok st'" "id_of st' = id_of st"
    "childs_of st' a = take (nat pos) (childs_of st a) @ drop (Suc (nat pos)) (childs_of st a)"
    "parent_of st' = (parent_of st)(childs_of st a ! nat pos := None)"
proof -
  obtain st' where st': "RemoveChild a pos st = Some (S_OK, st')" "id_of st' = id_of st"
      "parent_of st' = (parent_of st)(childs_of st a ! nat pos := None)"
      "childs_of st' = (childs_of st)(a := take (nat pos) (childs_of st a) @ drop (Suc (nat pos)) (childs_of st a))"
    using RemoveChild_effect [OF ok pos] by auto
  have d: "distinct (childs_of st a)" "length (childs_of st a) \<le> 32" and n: "nat pos < length (childs_of st a)"
    using ok pos by (auto simp: store_ok_def)
  have "childs_of st a ! nat pos \<in> set (childs_of st a)"
    using n by simp
  then have p: "parent_of st (childs_of st a ! nat pos) = Some a"
    using ok by (simp add: store_ok_def)
  have "store_ok st'"
    unfolding store_ok_def st'(3,4)
    using ok p distinct_without [OF d(1), of "nat pos"] set_without [OF d(1) n] d(2) n
    by (auto simp: store_ok_def intro: le_trans [OF diff_le_self])
  then show thesis
    using that st' by simp
qed

lemma store_ok_child: "store_ok st \<Longrightarrow> c \<in> set (childs_of st a) \<longleftrightarrow> parent_of st c = Some a"
  by (simp add: store_ok_def)

lemma store_ok_live: "store_ok st \<Longrightarrow> c \<in> set (childs_of st a) \<Longrightarrow> st c \<noteq> None"
  by (cases "st c") (simp_all add: store_ok_child parent_of_def)

lemma AddChild_ok:
  assumes ok: "store_ok st" and c: "parent_of st c = None" and r: "AddChild a (Some c) st = Some (hr, st')"
  shows "store_ok st' \<and> id_of st' = id_of st"
proof (cases "hr = S_OK")
  case False
  then show ?thesis
    using ok r by (auto simp: AddChild_def bind_eq_Some_conv split: if_splits)
next
  case True
  then obtain obj where obj: "st a = Some obj" "length (m_childs obj) < 32"
      and set: "set_parent (Some a) c (st(a \<mapsto> obj\<lparr>m_childs := m_childs obj @ [c]\<rparr>)) = Some st'"
    using r unfolding AddChild_def by (auto simp: bind_eq_Some_conv split: if_splits)
  then obtain o1 where st': "st' = st(a \<mapsto> obj\<lparr>m_childs := m_childs obj @ [c]\<rparr>, c \<mapsto> o1\<lparr>m_parent := Some a\<rparr>)"
      and o1: "(if c = a then Some (obj\<lparr>m_childs := m_childs obj @ [c]\<rparr>) else st c) = Some o1"
    by (auto simp: set_parent_def)
  have ids: "id_of st' = id_of st" and pa: "parent_of st' = (parent_of st)(c := Some a)"
    and ch: "childs_of st' = (childs_of st)(a := childs_of st a @ [c])"
    using o1 obj by (auto simp: st' id_of_def parent_of_def childs_of_def fun_eq_iff split: if_splits)
  have "c \<notin> set (childs_of st b)" for b
    using ok c by (simp add: store_ok_child)
  moreover have "length (childs_of st a) < 32"
    using obj by (simp add: childs_of_def)
  ultimately show ?thesis
    using ok ids c by (auto simp: store_ok_def pa ch)
qed

lemma remove_childs_ok:
  "store_ok st \<Longrightarrow> length (childs_of st a) = n \<Longrightarrow> parent_of st a = None \<Longrightarrow>
     \<exists>st'. remove_childs n a st = Some st' \<and> store_ok st' \<and> id_of st' = id_of st \<and> childs_of st' a = [] \<and> parent_of st' a = None"
proof (induction n arbitrary: st)
  case (Suc n)
  from Suc.prems obtain st1 where st1: "RemoveChild a 0 st = Some (S_OK, st1)" "store_ok st1" "id_of st1 = id_of st"
      "childs_of st1 a = drop 1 (childs_of st a)" "parent_of st1 = (parent_of st)(childs_of st a ! 0 := None)"
    using RemoveChild_ok [of st 0 a] by auto
  moreover have "parent_of st1 a = None" "length (childs_of st1 a) = n"
    using st1(4,5) Suc.prems(2,3) by simp_all
  then obtain st2 where "remove_childs n a st1 = Some st2" "store_ok st2" "id_of st2 = id_of st1"
      "childs_of st2 a = []" "parent_of st2 a = None"
    using Suc.IH [OF st1(2)] by blast
  ultimately show ?case
    by simp
qed simp

lemma index_of_id_finds:
  "\<forall>c \<in> set cs. st c \<noteq> None \<Longrightarrow> \<forall>c \<in> set cs. id_of st c = Some i \<longrightarrow> c = a \<Longrightarrow> id_of st a = Some i \<Longrightarrow> a \<in> set cs \<Longrightarrow>
     \<exists>j. index_of_id st i k cs = Some (Some (k + j)) \<and> j < length cs \<and> cs ! j = a"
proof (induction cs arbitrary: k)
  case (Cons c cs)
  then obtain obj where obj: "st c = Some obj"
    unfolding not_None_eq list.set by blast
  show ?case
  proof (cases "m_id obj = i")
    case True
    then have "c = a"
      using Cons.prems(2) obj by (simp add: id_of_def)
    then show ?thesis
      using True obj by (intro exI [of _ 0]) simp
  next
    case False
    then have "a \<in> set cs"
      using Cons.prems obj by (auto simp: id_of_def)
    then obtain j where "index_of_id st i (k + 1) cs = Some (Some (k + 1 + j))" "j < length cs" "cs ! j = a"
      using Cons.IH [of "k + 1"] Cons.prems(1-3) by (metis list.set_intros(2))
    then show ?thesis
      using False obj by (intro exI [of _ "Suc j"]) simp
  qed
qed simp

lemma leave_parent_ok:
  assumes ok: "store_ok st" and ids: "\<forall>b i. id_of st a = Some i \<longrightarrow> id_of st b = Some i \<longrightarrow> b = a" and live: "st a \<noteq> None"
  obtains st' where "leave_parent a st = Some st'" "store_ok st'" "id_of st' = id_of st" "parent_of st' a = None"
proof -
  obtain obj where obj: "st a = Some obj"
    using live by auto
  show thesis
  proof (cases "m_parent obj")
    case None
    then show thesis
      using that ok obj by (simp add: leave_parent_def parent_of_def)
  next
    case (Some p)
    then have mem: "a \<in> set (childs_of st p)"
      using ok obj by (simp add: store_ok_def parent_of_def)
    then obtain po where po: "st p = Some po" "childs_of st p = m_childs po"
      by (cases "st p") (auto simp: childs_of_def)
    have "\<forall>c \<in> set (m_childs po). st c \<noteq> None"
      using store_ok_live [OF ok, of _ p] po(2) by simp
    moreover have "id_of st a = Some (m_id obj)"
      using obj by (simp add: id_of_def)
    ultimately obtain j where j: "index_of_id st (m_id obj) 0 (m_childs po) = Some (Some j)"
        "j < length (m_childs po)" "m_childs po ! j = a"
      using index_of_id_finds [of "m_childs po" st "m_id obj" a 0] ids mem
      unfolding po(2) by (metis add_0)
    obtain st' where "RemoveChild p (int j) st = Some (S_OK, st')" "store_ok st'" "id_of st' = id_of st"
        "parent_of st' = (parent_of st)(a := None)"
      using RemoveChild_ok [OF ok, of "int j" p] j po(2) by auto
    then show thesis
      using that obj Some po j by (simp add: leave_parent_def)
  qed
qed

lemma destroy_object_ok:
  assumes "store_ok st" "\<forall>b i. id_of st a = Some i \<longrightarrow> id_of st b = Some i \<longrightarrow> b = a" "st a \<noteq> None"
  obtains st' where "destroy_object a st = Some st'" "store_ok st'" "id_of st' = (id_of st)(a := None)"
proof -
  obtain st1 where st1: "leave_parent a st = Some st1" "store_ok st1" "id_of st1 = id_of st" "parent_of st1 a = None"
    using leave_parent_ok [OF assms] .
  obtain st2 where st2: "remove_childs (length (childs_of st1 a)) a st1 = Some st2" "store_ok st2" "id_of st2 = id_of st1"
      "childs_of st2 a = []" "parent_of st2 a = None"
    using remove_childs_ok [OF st1(2) refl st1(4)] by blast
  have "id_of st1 a \<noteq> None"
    using assms(3) st1(3) by (simp add: id_of_def)
  then obtain obj where obj: "st1 a = Some obj" "childs_of st1 a = m_childs obj"
    by (auto simp: id_of_def childs_of_def)
  have "childs_of (st2(a := None)) = childs_of st2" "parent_of (st2(a := None)) = parent_of st2"
    using st2(4,5) by (auto simp: childs_of_def parent_of_def fun_eq_iff)
  then have "store_ok (st2(a := None))"
    using st2(2) by (simp add: store_ok_def)
  moreover have "id_of (st2(a := None)) = (id_of st)(a := None)"
    using st2(3) st1(3) by (auto simp: id_of_def fun_eq_iff)
  ultimately show thesis
    using that st1(1) st2(1) obj by (simp add: destroy_object_def)
qed

lemma ui_reach_ok: "ui_reach u \<Longrightarrow> store_ok (ui_store u) \<and> ids_ok u"
proof (induction rule: ui_reach.induct)
  case start
  then show ?case
    by (simp add: store_ok_def ids_ok_def childs_of_def parent_of_def id_of_def)
next
  case (step u u')
  then have ok: "store_ok (ui_store u)" and ids: "ids_ok u"
    by auto
  have keep: "ids_ok (u\<lparr>ui_store := st\<rparr>)" if "id_of st = id_of (ui_store u)" for st
    using ids that by (simp add: ids_ok_def)
  from step.hyps(2) show ?case
  proof (cases rule: ui_step.cases)
    case (create a)
    have "childs_of (ui_store u') = childs_of (ui_store u)" "parent_of (ui_store u') = parent_of (ui_store u)"
      using create by (auto simp: new_object_def RegisterObject_def childs_of_def parent_of_def fun_eq_iff)
    moreover have "id_of (ui_store u') = (id_of (ui_store u))(a \<mapsto> m_unique_id u)" "m_unique_id u' = m_unique_id u + 1"
      using create by (auto simp: new_object_def RegisterObject_def id_of_def fun_eq_iff)
    ultimately show ?thesis
      using ok ids by (fastforce simp: store_ok_def ids_ok_def)
  next
    case (add a c hr st)
    then show ?thesis
      using AddChild_ok [OF ok add(4,5)] keep by simp
  next
    case (remove a pos hr st)
    show ?thesis
    proof (cases "pos < 0 \<or> int (length (childs_of (ui_store u) a)) \<le> pos")
      case True
      then have "st = ui_store u"
        using remove(2) by (auto simp: RemoveChild_def bind_eq_Some_conv childs_of_def)
      then show ?thesis
        using ok ids remove(1) by simp
    next
      case False
      then show ?thesis
        using remove keep by (auto intro: RemoveChild_ok [OF ok, of pos a])
    qed
  next
    case (delete a st)
    then have "ui_store u a \<noteq> None"
      by (auto simp: destroy_object_def leave_parent_def bind_eq_Some_conv)
    then obtain st' where "destroy_object a (ui_store u) = Some st'" "store_ok st'"
        "id_of st' = (id_of (ui_store u))(a := None)"
      using destroy_object_ok [OF ok, of a] ids by (auto simp: ids_ok_def)
    then show ?thesis
      using delete ids by (auto simp: ids_ok_def)
  qed
qed


definition two_objects :: ui where
  "two_objects = \<lparr>ui_store = [1 \<mapsto> \<lparr>m_id = 0, m_parent = None, m_childs = [2]\<rparr>,
     2 \<mapsto> \<lparr>m_id = 1, m_parent = Some 1, m_childs = []\<rparr>], m_unique_id = 2\<rparr>"

lemma two_objects_reached: "ui_reach two_objects"
proof -
  obtain u where u: "u = new_object 2 (new_object 1 \<lparr>ui_store = Map.empty, m_unique_id = 0\<rparr>)"
    by blast
  have "ui_reach u"
    unfolding u by (rule ui_reach.step [OF ui_reach.step [OF ui_reach.start ui_step.create] ui_step.create])
      (simp_all add: new_object_def RegisterObject_def)
  moreover have "ui_step u (u\<lparr>ui_store := ui_store two_objects\<rparr>)"
    by (rule ui_step.add [where a = 1 and c = 2 and hr = S_OK])
      (auto simp: u two_objects_def new_object_def RegisterObject_def parent_of_def AddChild_def set_parent_def fun_eq_iff)
  moreover have "u\<lparr>ui_store := ui_store two_objects\<rparr> = two_objects"
    by (simp add: u two_objects_def new_object_def RegisterObject_def)
  ultimately show ?thesis
    by (metis ui_reach.step)
qed


text \<open>
  The condition is needed: \<open>AddChild\<close> does not take the object from the parent it has, and a deleted
  object leaves only the last one, so that the next walk over the first one uses it.
\<close>

lemma hit_deleted: "st a = None \<Longrightarrow> hit n st i a = None"
  by (cases n) simp_all

lemma hit_deleted_child:
  "st a = Some obj \<Longrightarrow> m_id obj \<noteq> i \<Longrightarrow> m_childs obj = c # cs \<Longrightarrow> st c = None \<Longrightarrow> hit n st i a = None"
  by (cases n) (simp_all add: hit_deleted)

definition twice_added :: "nat \<rightharpoonup> ui_object" where
  "twice_added = [1 \<mapsto> \<lparr>m_id = 0, m_parent = None, m_childs = [3]\<rparr>,
     2 \<mapsto> \<lparr>m_id = 1, m_parent = None, m_childs = [3]\<rparr>, 3 \<mapsto> \<lparr>m_id = 2, m_parent = Some 2, m_childs = []\<rparr>]"

lemma twice_added_is:
  "Option.bind (AddChild 1 (Some 3) [1 \<mapsto> \<lparr>m_id = 0, m_parent = None, m_childs = []\<rparr>,
       2 \<mapsto> \<lparr>m_id = 1, m_parent = None, m_childs = []\<rparr>, 3 \<mapsto> \<lparr>m_id = 2, m_parent = None, m_childs = []\<rparr>])
     (\<lambda>(_, st). AddChild 2 (Some 3) st) = Some (S_OK, twice_added)"
  by (auto simp: AddChild_def set_parent_def twice_added_def fun_eq_iff)

theorem second_parent_dangles:
  "\<exists>st. destroy_object 3 twice_added = Some st \<and> GetHittestObject n st 9 True 1 = None"
proof -
  have "destroy_object 3 twice_added =
      Some [1 \<mapsto> \<lparr>m_id = 0, m_parent = None, m_childs = [3]\<rparr>, 2 \<mapsto> \<lparr>m_id = 1, m_parent = None, m_childs = []\<rparr>]"
    by (auto simp: destroy_object_def leave_parent_def RemoveChild_def set_parent_def twice_added_def fun_eq_iff)
  then show ?thesis
    by (simp add: GetHittestObject_def hit_deleted_child)
qed

end
