(* ===== verification/Spec2Isabelle.thy ===== *)
theory Spec2Isabelle
  imports ThreadPool NetWorker VideoChecksum Interlacer TsDemux Pgs VobSubIndex HttpPost StereoPlay Pictures Playlist UiTree
begin

text \<open>
  \<^bold>\<open>A stereoscopic media player and its tools.\<close>  The repository holds the sources of a DirectShow player
  (\<open>dwindow\<close>) and of the programs around it.  Most of it is glue around system interfaces or third-party
  code.  The parts with logic of their own are independent libraries that read and write bytes; this
  development models these, one group of theories for each.

  \<^bold>\<open>Conventions.\<close>  Theory \<open>Prelude\<close> fixes the vocabulary.  A pointer into a buffer is a list; \<open>rd\<close>, \<open>wr\<close>
  and \<open>blit\<close> are reads, writes and block copies with their bounds; a result \<open>None\<close> is an access outside a
  buffer or through a null pointer, which C++ leaves undefined.  An \<open>int\<close> is an unbounded integer where
  the code cannot overflow, and wrapped by \<open>wrap32\<close> where it can; unsigned types are words.  Objects are
  records that the operations return updated.  \<open>WStrings\<close> holds the C string functions, for characters
  of any width.  Code that is not in the repository (the system's file and network functions, threads,
  the locale's conversions, floating-point colour conversion, uninitialised memory) is a parameter.

  \<^bold>\<open>The download cache\<close> (\<open>hookdshow/full_cache.cpp\<close>, \<open>full_cache.h\<close>).  \<open>Fragments\<close> is the algebra of byte
  ranges (\<open>cross_fragment\<close>, \<open>subtract_fragment\<close>) with its meaning as sets of positions.  \<open>DiskCache\<close> is
  \<open>disk_fragment\<close> and \<open>inet_file\<close>: \<open>get\<close>, \<open>feed\<close>, \<open>pre_read\<close>; a fragment is a file and its range.  The
  locale \<open>range_store\<close> states what a fragment promises a reader.  The loop of \<open>get\<close> waits for other
  threads: it runs over a schedule, a list of what they leave on the disk before each round, and the
  liveness property says how many rounds are enough.  \<open>NetWorker\<close> is the downloading thread as a step
  relation with an invariant over all reachable states, and the manager that assigns hints to workers.

  \<^bold>\<open>Checksums, signatures, licences\<close> (\<open>libchecksum\<close>).  \<open>Sha1\<close> models \<open>SHA1.cpp\<close> and proves it equal to the
  text of FIPS 180-4; the locale \<open>incremental_hash\<close> is the contract of a hash that is fed in pieces.
  \<open>BigNumber\<close>, \<open>BigDivision\<close> and \<open>Rsa\<close> model every routine of \<open>basicRSA.cpp\<close> on digit lists and relate them
  to natural numbers, up to modular exponentiation (locale \<open>modular_products\<close>).  \<open>VideoChecksum\<close> puts them
  together: \<open>video_checksum.cpp\<close>.

  \<^bold>\<open>Subtitles\<close> (\<open>dwindow\<close>).  \<open>Srt\<close> is \<open>srt_parser.cpp\<close>: lines, times, tags and the table of texts in one
  character buffer; \<open>SrtTable\<close> proves that table to implement a list of timed texts; \<open>SrtFiles\<close> adds frame
  offsets, saving and loading.  \<open>Pgs\<close> is \<open>PGS/PGSParser.cpp\<close>: packets of a stream that comes in pieces,
  segments, the table of subtitles, and the run-length decoder with a reference encoder; its last property
  goes from the bytes of a display set to the pixels that a search returns.  \<open>VobSub\<close> and \<open>VobSubIndex\<close> are
  \<open>vobsub_parser.cpp\<close>: the control blocks and the two interlaced planes of a packet, and the index file.

  \<^bold>\<open>The stream splitter\<close> (\<open>mvc_interlacer\<close>).  \<open>FileBuffer\<close> is the ring buffer between two threads, with
  every operation as the section under its lock; the locale \<open>byte_fifo\<close> is its contract, interpreted for
  copying readers and for readers that look at the buffer in place.  \<open>Interlacer\<close> cuts the byte stream
  into NAL units and access units, reads offsets from SEI messages and writes the offset file that \<open>Srt\<close>
  parses.  \<open>EsCounters\<close> and \<open>TsDemux\<close> are the transport stream demultiplexer: packets, tables, PES headers,
  time stamps.  Tables have 512 bytes; a NAL unit at most \<open>max_nal_size\<close>.  \<open>Playlist\<close> reads the clips and
  the dates of play lists (\<open>tsdemux/mpls.cpp\<close>), with a reference writer.

  \<^bold>\<open>Stereo files\<close>.  \<open>StereoBoxes\<close> is the walk of the .3dv demuxer over nested boxes (\<open>3dvSource/3dvDemuxer.cpp\<close>),
  \<open>StereoFile\<close> what it makes of them and the pins of the source filter (\<open>my12doomSource.cpp\<close>): buffers, samples,
  formats, seeking; \<open>StereoPlay\<close> goes from the bytes of a file with any number of tracks to the samples, for
  more calls of \<open>FillBuffer\<close> than packets.  \<open>Pictures\<close> is the parsers of MPO and 3DP pictures (\<open>MPOCodec\<close>); more
  passes over the segments than there are before the index are enough, and some files need infinitely many.

  \<^bold>\<open>The HTTP client\<close> (\<open>httppost\<close>).  \<open>Utf8\<close> is the character conversion of its Linux build.  \<open>HttpPost\<close> is the
  object: form parts, the request and its announced length, the response headers, redirection (which
  needs no fuel: every one uses up one of those allowed), and reading the content, over a schedule of what
  each call of \<open>recv\<close> returns.

  \<^bold>\<open>Threads\<close> (\<open>dwindow/runnable.cpp\<close>, \<open>command_queue.cpp\<close>).  \<open>ThreadPool\<close> is a step relation over the sections
  under the lock, the waits and the tasks; an invariant over all interleavings gives the order and the
  ownership of the tasks, and a measure that the workers, when left alone, finish all of them.

  \<^bold>\<open>The user interface tree\<close> (\<open>UILayout/BaseUI.cpp\<close>).  \<open>UiTree\<close> keeps the objects in a store of addresses: adding,
  removing and deleting as steps, with an invariant of parents and children over the reachable stores, and the
  hit test and the rendering as walks, for recursions as deep as the tree.

  \<^bold>\<open>What the lemmas show.\<close>  Each theory gives the functional behaviour of its operations on every branch,
  an invariant where there is state, and the relation to a reference definition where there is one.  The
  theorems that state a defect of the code are named in the manifest under the findings.

  \<^bold>\<open>Not modelled.\<close>  The player window, its renderers, DirectShow filters and graphics drivers; hooks,
  launchers and installers: calls of system interfaces.  Vendored libraries (libtorrent, libass, lua,
  x264, libavcodec, OpenCV, the JM decoder, the MPC-HC sources) are not the program's own code.  The
  manifest lists each part that is left out with its reason.
\<close>

end
